(* ===== verification/Prelude.thy ===== *)
theory Prelude
  imports "HOL-Library.Word" "HOL-Library.AList" "HOL-Library.Sublist"
begin

text \<open>
  Shared vocabulary of the development: machine integers, results with panics kept apart from
  reported errors, big-endian integers, byte-stream readers with the codec interface
  (locale \<open>codec\<close>), UTF-8 strings, the slice operations of the Rust standard library and hash
  maps as association lists. The collections \<open>reader_simps\<close>, \<open>panic_free\<close> and
  \<open>hm_simps\<close> carry the proofs of the components.
\<close>

named_theorems reader_simps \<open>evaluation of readers on encoded input\<close>
named_theorems panic_free \<open>introduction rules for the absence of panics\<close>
named_theorems hm_simps \<open>hash-map operations and their lengths and key sets\<close>

section \<open>Machine integers\<close>

type_synonym u8 = "8 word"
type_synonym u16 = "16 word"
type_synonym u32 = "32 word"
type_synonym u64 = "64 word"
type_synonym u128 = "128 word"
type_synonym bytes = "u8 list"

text \<open>An \<open>Instant\<close> and a \<open>Duration\<close> are counted in nanoseconds.\<close>

type_synonym instant = nat
type_synonym duration = nat

definition from_secs :: "nat \<Rightarrow> duration" where
  "from_secs s = s * 1000000000"

definition from_millis :: "nat \<Rightarrow> duration" where
  "from_millis ms = ms * 1000000"

definition as_secs :: "duration \<Rightarrow> nat" where
  "as_secs d = d div 1000000000"

lemma as_secs_from_secs [simp]: "as_secs (from_secs s) = s"
  by (simp add: as_secs_def from_secs_def)

abbreviation u32_max :: u32 where
  "u32_max \<equiv> 0xFFFFFFFF"

definition saturating_sub :: "'a::len word \<Rightarrow> 'a word \<Rightarrow> 'a word" where
  "saturating_sub a b = (if a < b then 0 else a - b)"

lemma unat_saturating_sub: "unat (saturating_sub a b) = unat a - unat b"
  by (auto simp: saturating_sub_def word_less_nat_alt unat_sub_if')

section \<open>Results\<close>

text \<open>
  A fallible operation returns \<open>error + 'a\<close>. \<open>Bail\<close> is an \<open>anyhow\<close> error with its message;
  \<open>Panic\<close> is a Rust panic (an index or a slice out of range, an \<open>expect\<close> on \<open>None\<close>), so that
  its absence is a statement about the model.
\<close>

datatype error = Panic | Bail string

type_synonym 'a result = "error + 'a"

definition bindr :: "'a result \<Rightarrow> ('a \<Rightarrow> 'b result) \<Rightarrow> 'b result" where
  "bindr m f = (case m of Inl e \<Rightarrow> Inl e | Inr x \<Rightarrow> f x)"

lemma bindr_simps [simp]:
  "bindr (Inl e) f = Inl e"
  "bindr (Inr x) f = f x"
  by (simp_all add: bindr_def)

lemma bindr_Inr_iff: "bindr m f = Inr y \<longleftrightarrow> (\<exists>x. m = Inr x \<and> f x = Inr y)"
  by (cases m) auto

lemma bindr_Inl_iff:
  "bindr m f = Inl e \<longleftrightarrow> m = Inl e \<or> (\<exists>x. m = Inr x \<and> f x = Inl e)"
  by (cases m) auto

lemma bindr_assoc: "bindr (bindr m f) g = bindr m (\<lambda>x. bindr (f x) g)"
  by (cases m) auto

lemma bindr_cong [fundef_cong]:
  "m = m' \<Longrightarrow> (\<And>x. m' = Inr x \<Longrightarrow> f x = g x) \<Longrightarrow> bindr m f = bindr m' g"
  by (cases m') auto

definition with_context :: "string \<Rightarrow> 'a option \<Rightarrow> 'a result" where
  "with_context msg o' = (case o' of None \<Rightarrow> Inl (Bail msg) | Some x \<Rightarrow> Inr x)"

lemma with_context_simps [simp]:
  "with_context msg None = Inl (Bail msg)"
  "with_context msg (Some x) = Inr x"
  by (simp_all add: with_context_def)

lemma with_context_Inr_iff: "with_context msg m = Inr y \<longleftrightarrow> m = Some y"
  by (cases m) auto

definition ensure :: "bool \<Rightarrow> string \<Rightarrow> unit result" where
  "ensure b msg = (if b then Inr () else Inl (Bail msg))"

lemma ensure_simps [simp]:
  "ensure True msg = Inr ()"
  "ensure False msg = Inl (Bail msg)"
  by (simp_all add: ensure_def)

lemma ensure_Inr_iff: "ensure b msg = Inr u \<longleftrightarrow> b"
  by (simp add: ensure_def)

fun map_result :: "('a \<Rightarrow> 'b result) \<Rightarrow> 'a list \<Rightarrow> 'b list result" where
  "map_result f [] = Inr []"
| "map_result f (x # xs) = bindr (f x) (\<lambda>y. bindr (map_result f xs) (\<lambda>ys. Inr (y # ys)))"

lemma map_result_cong [fundef_cong]:
  "xs = ys \<Longrightarrow> (\<And>x. x \<in> set ys \<Longrightarrow> f x = g x) \<Longrightarrow> map_result f xs = map_result g ys"
proof (induction xs arbitrary: ys)
  case (Cons x xs)
  then show ?case by (cases "g x") auto
qed auto

lemma map_result_Inr_iff:
  "map_result f xs = Inr ys \<longleftrightarrow> list_all2 (\<lambda>x y. f x = Inr y) xs ys"
  by (induction xs arbitrary: ys) (auto simp: bindr_Inr_iff list_all2_Cons1)

lemma map_result_in_set:
  "map_result f xs = Inr ys \<Longrightarrow> y \<in> set ys \<Longrightarrow> \<exists>x \<in> set xs. f x = Inr y"
  by (induction xs arbitrary: ys) (auto simp: bindr_Inr_iff)

definition no_panic :: "'a result \<Rightarrow> bool" where
  "no_panic r \<longleftrightarrow> r \<noteq> Inl Panic"

lemma no_panic_simps [simp]:
  "no_panic (Inr x)"
  "no_panic (Inl (Bail m))"
  "\<not> no_panic (Inl Panic)"
  by (simp_all add: no_panic_def)

lemma no_panic_bindr [panic_free]:
  "no_panic m \<Longrightarrow> (\<And>x. m = Inr x \<Longrightarrow> no_panic (f x)) \<Longrightarrow> no_panic (bindr m f)"
  by (cases m) (auto simp: no_panic_def)

lemma no_panic_with_context [panic_free]: "no_panic (with_context msg m)"
  by (cases m) auto

lemma no_panic_ensure [panic_free]: "no_panic (ensure b msg)"
  by (simp add: ensure_def)

lemma no_panic_if [panic_free]:
  "(b \<Longrightarrow> no_panic r) \<Longrightarrow> (\<not> b \<Longrightarrow> no_panic s) \<Longrightarrow> no_panic (if b then r else s)"
  by simp

lemma no_panic_map_result [panic_free]:
  "(\<And>x. x \<in> set xs \<Longrightarrow> no_panic (f x)) \<Longrightarrow> no_panic (map_result f xs)"
  by (induction xs) (auto intro!: panic_free)

section \<open>Slices\<close>

text \<open>\<open>bs[i]\<close> panics out of range; \<open>bs.get(i)\<close> and \<open>bs.get(a..b)\<close> return an option.\<close>

definition index :: "'a list \<Rightarrow> nat \<Rightarrow> 'a result" where
  "index bs i = (if i < length bs then Inr (bs ! i) else Inl Panic)"

definition get :: "'a list \<Rightarrow> nat \<Rightarrow> 'a option" where
  "get bs i = (if i < length bs then Some (bs ! i) else None)"

definition get_range :: "'a list \<Rightarrow> nat \<Rightarrow> nat \<Rightarrow> 'a list option" where
  "get_range bs a b = (if a \<le> b \<and> b \<le> length bs then Some (take (b - a) (drop a bs)) else None)"

definition slice :: "'a list \<Rightarrow> nat \<Rightarrow> nat \<Rightarrow> 'a list result" where
  "slice bs a b = (case get_range bs a b of None \<Rightarrow> Inl Panic | Some xs \<Rightarrow> Inr xs)"

text \<open>\<open>bs[a..a + n].copy_from_slice(vs)\<close> with \<open>vs.len() == n\<close>: out of range it panics.\<close>

definition overwrite :: "'a list \<Rightarrow> nat \<Rightarrow> 'a list \<Rightarrow> 'a list" where
  "overwrite bs a vs = take a bs @ vs @ drop (a + length vs) bs"

definition copy_at :: "'a list \<Rightarrow> nat \<Rightarrow> 'a list \<Rightarrow> 'a list result" where
  "copy_at bs a vs = (if a + length vs \<le> length bs then Inr (overwrite bs a vs) else Inl Panic)"

lemma index_Inr [simp]: "i < length bs \<Longrightarrow> index bs i = Inr (bs ! i)"
  by (simp add: index_def)

lemma get_Some_iff: "get bs i = Some b \<longleftrightarrow> i < length bs \<and> b = bs ! i"
  by (auto simp: get_def)

lemma get_range_Some_iff:
  "get_range bs a b = Some xs \<longleftrightarrow> a \<le> b \<and> b \<le> length bs \<and> xs = take (b - a) (drop a bs)"
  by (auto simp: get_range_def)

lemma get_range_field:
  "i = length pre \<Longrightarrow> j = i + length mid \<Longrightarrow> get_range (pre @ mid @ post) i j = Some mid"
  by (simp add: get_range_def)

lemma slice_Inr [simp]:
  "a \<le> b \<Longrightarrow> b \<le> length bs \<Longrightarrow> slice bs a b = Inr (take (b - a) (drop a bs))"
  by (simp add: slice_def get_range_def)

lemma copy_at_Inr [simp]:
  "a + length vs \<le> length bs \<Longrightarrow> copy_at bs a vs = Inr (overwrite bs a vs)"
  by (simp add: copy_at_def)

lemma length_overwrite [simp]:
  "a + length vs \<le> length bs \<Longrightarrow> length (overwrite bs a vs) = length bs"
  by (simp add: overwrite_def)

lemma nth_overwrite:
  "a + length vs \<le> length bs \<Longrightarrow> i < length bs \<Longrightarrow>
   overwrite bs a vs ! i = (if a \<le> i \<and> i < a + length vs then vs ! (i - a) else bs ! i)"
  by (auto simp: overwrite_def nth_append)

lemma no_panic_index [panic_free]: "i < length bs \<Longrightarrow> no_panic (index bs i)"
  by simp

lemma no_panic_slice [panic_free]:
  "a \<le> b \<Longrightarrow> b \<le> length bs \<Longrightarrow> no_panic (slice bs a b)"
  by simp

lemma no_panic_copy_at [panic_free]: "a + length vs \<le> length bs \<Longrightarrow> no_panic (copy_at bs a vs)"
  by simp

section \<open>Hash maps\<close>

text \<open>
  A \<open>HashMap\<close> is an association list with distinct keys; the order of the list stands for the
  unspecified iteration order. \<open>insert\<close> is \<open>AList.update\<close>, \<open>remove\<close> is \<open>AList.delete\<close>,
  \<open>retain\<close> is \<open>filter\<close> and \<open>len\<close> is \<open>length\<close>.
\<close>

type_synonym ('k, 'v) hashmap = "('k \<times> 'v) list"

definition hm_ok :: "('k, 'v) hashmap \<Rightarrow> bool" where
  "hm_ok m \<longleftrightarrow> distinct (map fst m)"

abbreviation hm_get :: "('k, 'v) hashmap \<Rightarrow> 'k \<Rightarrow> 'v option" where
  "hm_get \<equiv> map_of"

abbreviation hm_insert :: "'k \<Rightarrow> 'v \<Rightarrow> ('k, 'v) hashmap \<Rightarrow> ('k, 'v) hashmap" where
  "hm_insert \<equiv> AList.update"

abbreviation hm_remove :: "'k \<Rightarrow> ('k, 'v) hashmap \<Rightarrow> ('k, 'v) hashmap" where
  "hm_remove \<equiv> AList.delete"

text \<open>\<open>if let Some(v) = map.get_mut(&key) { .. }\<close>\<close>

abbreviation hm_modify :: "'k \<Rightarrow> ('v \<Rightarrow> 'v) \<Rightarrow> ('k, 'v) hashmap \<Rightarrow> ('k, 'v) hashmap" where
  "hm_modify \<equiv> AList.map_entry"

definition hm_contains :: "('k, 'v) hashmap \<Rightarrow> 'k \<Rightarrow> bool" where
  "hm_contains m k \<longleftrightarrow> map_of m k \<noteq> None"

definition hm_retain :: "('k \<Rightarrow> 'v \<Rightarrow> bool) \<Rightarrow> ('k, 'v) hashmap \<Rightarrow> ('k, 'v) hashmap" where
  "hm_retain P m = filter (\<lambda>(k, v). P k v) m"

text \<open>\<open>if map.get(&key).is_some_and(P) { map.remove(&key); }\<close>\<close>

definition hm_remove_if :: "'k \<Rightarrow> ('v \<Rightarrow> bool) \<Rightarrow> ('k, 'v) hashmap \<Rightarrow> ('k, 'v) hashmap" where
  "hm_remove_if k P m =
    (case hm_get m k of None \<Rightarrow> m | Some v \<Rightarrow> if P v then hm_remove k m else m)"

lemma hm_ok_Nil [simp]: "hm_ok []"
  by (simp add: hm_ok_def)

lemma hm_ok_insert [simp]: "hm_ok m \<Longrightarrow> hm_ok (hm_insert k v m)"
  by (simp add: hm_ok_def distinct_update)

lemma hm_ok_remove [simp]: "hm_ok m \<Longrightarrow> hm_ok (hm_remove k m)"
  by (simp add: hm_ok_def distinct_delete)

lemma hm_ok_retain [simp]: "hm_ok m \<Longrightarrow> hm_ok (hm_retain P m)"
  by (induction m) (auto simp: hm_ok_def hm_retain_def image_iff)

lemma hm_contains_iff: "hm_contains m k \<longleftrightarrow> k \<in> fst ` set m"
  by (simp add: hm_contains_def map_of_eq_None_iff)

lemma hm_get_insert [hm_simps]:
  "hm_get (hm_insert k v m) k' = (if k' = k then Some v else hm_get m k')"
  by (simp add: update_conv')

lemma hm_get_remove [hm_simps]:
  "hm_get (hm_remove k m) k' = (if k' = k then None else hm_get m k')"
  by (simp add: delete_conv')

lemma hm_get_modify [hm_simps]:
  "hm_get (hm_modify k f m) k' = (if k' = k then map_option f (hm_get m k) else hm_get m k')"
  by (auto simp: map_of_map_entry split: option.splits)

lemma length_hm_modify [simp]: "length (hm_modify k f m) = length m"
  by (induction m) auto

lemma hm_ok_modify [simp]: "hm_ok m \<Longrightarrow> hm_ok (hm_modify k f m)"
  by (simp add: hm_ok_def distinct_map_entry)

lemma hm_contains_modify [hm_simps]: "hm_contains (hm_modify k f m) k' = hm_contains m k'"
  by (simp add: hm_contains_def hm_get_modify)

lemma hm_contains_insert [hm_simps]:
  "hm_contains (hm_insert k v m) k' \<longleftrightarrow> k' = k \<or> hm_contains m k'"
  by (simp add: hm_contains_def hm_get_insert)

lemma hm_contains_remove [hm_simps]:
  "hm_contains (hm_remove k m) k' \<longleftrightarrow> k' \<noteq> k \<and> hm_contains m k'"
  by (simp add: hm_contains_def hm_get_remove)

lemma hm_get_retain [hm_simps]:
  assumes "hm_ok m"
  shows "hm_get (hm_retain P m) k =
    (case hm_get m k of None \<Rightarrow> None | Some v \<Rightarrow> if P k v then Some v else None)"
  using assms
proof (induction m)
  case (Cons kv m)
  obtain k0 v0 where kv: "kv = (k0, v0)" by (cases kv)
  from Cons.prems kv have notin: "k0 \<notin> fst ` set m" and ok: "hm_ok m"
    by (auto simp: hm_ok_def)
  from notin have "map_of m k0 = None" by (simp add: map_of_eq_None_iff)
  with Cons.IH [OF ok] kv show ?case
    by (auto simp: hm_retain_def split: option.splits)
qed (simp add: hm_retain_def)

lemma length_hm_insert [hm_simps]:
  "hm_ok m \<Longrightarrow> length (hm_insert k v m) = (if hm_contains m k then length m else Suc (length m))"
  by (induction m) (auto simp: hm_ok_def hm_contains_def)

lemma length_hm_remove [hm_simps]:
  "hm_ok m \<Longrightarrow> length (hm_remove k m) = (if hm_contains m k then length m - 1 else length m)"
proof (induction m)
  case (Cons kv m)
  then have ok: "hm_ok m" by (auto simp: hm_ok_def)
  show ?case
  proof (cases "fst kv = k")
    case True
    with Cons.prems have "k \<notin> fst ` set m" by (auto simp: hm_ok_def)
    then have "hm_remove k m = m"
      by (force simp: AList.delete_eq filter_id_conv)
    with True show ?thesis by (cases kv) (auto simp: hm_contains_def AList.delete_eq)
  next
    case False
    with Cons.IH [OF ok] show ?thesis
      by (cases kv) (auto simp: hm_contains_def AList.delete_eq
            dest: map_of_SomeD intro: Suc_pred length_pos_if_in_set)
  qed
qed (simp add: hm_contains_def)

lemma length_hm_remove_le: "length (hm_remove k m) \<le> length m"
  by (simp add: AList.delete_eq)

lemma length_hm_retain_le: "length (hm_retain P m) \<le> length m"
  by (simp add: hm_retain_def)

lemma hm_ok_remove_if [simp]: "hm_ok m \<Longrightarrow> hm_ok (hm_remove_if k P m)"
  by (simp add: hm_remove_if_def split: option.split)

lemma length_hm_remove_if_le: "length (hm_remove_if k P m) \<le> length m"
  using length_hm_remove_le [of k m] by (simp add: hm_remove_if_def split: option.split)

lemma hm_get_remove_if [hm_simps]:
  "hm_get (hm_remove_if k P m) k' =
    (case hm_get m k' of None \<Rightarrow> None | Some v \<Rightarrow> if k' = k \<and> P v then None else Some v)"
  by (auto simp: hm_remove_if_def hm_get_remove split: option.splits)

lemma hm_get_remove_if_Some:
  "hm_get (hm_remove_if k P m) k' = Some v \<longleftrightarrow> hm_get m k' = Some v \<and> \<not> (k' = k \<and> P v)"
  by (auto simp: hm_get_remove_if split: option.splits)

lemma hm_get_set: "hm_get m k = Some v \<Longrightarrow> (k, v) \<in> set m"
  by (rule map_of_SomeD)

lemma hm_set_get: "hm_ok m \<Longrightarrow> (k, v) \<in> set m \<Longrightarrow> hm_get m k = Some v"
  by (simp add: hm_ok_def map_of_is_SomeI)

lemma hm_length_card: "hm_ok m \<Longrightarrow> length m = card (dom (hm_get m))"
  using distinct_card [of "map fst m"] by (simp add: hm_ok_def dom_map_of_conv_image_fst)

end
