(* ===== verification/Byte_Codec.thy ===== *)
theory Byte_Codec
  imports Prelude
begin

text \<open>
  Big-endian integers, readers of byte streams, and the interface every wire format of the
  program shares: an encoder, a reader and a validity condition such that reading an encoded
  value gives the value back and leaves the rest of the stream (locale \<open>codec\<close>). Sequences
  of items and the injectivity of an encoding are proved once in the locale.
\<close>

section \<open>Big-endian integers\<close>

fun be_bytes :: "nat \<Rightarrow> nat \<Rightarrow> bytes" where
  "be_bytes 0 v = []"
| "be_bytes (Suc n) v = be_bytes n (v div 256) @ [word_of_nat v]"

definition be_val :: "bytes \<Rightarrow> nat" where
  "be_val bs = foldl (\<lambda>acc b. acc * 256 + unat b) 0 bs"

text \<open>\<open>to_be_bytes\<close> and \<open>from_be_bytes\<close> of the unsigned integer types.\<close>

definition to_be_bytes :: "'a::len word \<Rightarrow> bytes" where
  "to_be_bytes w = be_bytes (LENGTH('a) div 8) (unat w)"

definition from_be_bytes :: "bytes \<Rightarrow> 'a::len word" where
  "from_be_bytes bs = word_of_nat (be_val bs)"

lemma length_be_bytes [simp]: "length (be_bytes n v) = n"
  by (induction n arbitrary: v) auto

lemma length_to_be_bytes [simp]: "length (to_be_bytes (w :: 'a::len word)) = LENGTH('a) div 8"
  by (simp add: to_be_bytes_def)

lemma be_val_snoc: "be_val (bs @ [b]) = be_val bs * 256 + unat b"
  by (simp add: be_val_def)

lemma be_val_Nil [simp]: "be_val [] = 0"
  by (simp add: be_val_def)

lemma be_val_be_bytes: "be_val (be_bytes n v) = v mod 256 ^ n"
proof (induction n arbitrary: v)
  case 0
  then show ?case by simp
next
  case (Suc n)
  have "be_val (be_bytes (Suc n) v) = (v div 256) mod 256 ^ n * 256 + v mod 256"
    by (simp add: be_val_snoc Suc unat_of_nat)
  also have "\<dots> = v mod (256 * 256 ^ n)"
    by (subst mod_mult2_eq) simp
  finally show ?case by simp
qed

lemma unat_u8_less [simp]: "unat (b :: u8) < 256"
  using unsigned_less [of b] by simp

lemma u8_256: "(256 :: u8) = 0"
  by simp

lemma be_val_less: "be_val bs < 256 ^ length bs"
proof (induction bs rule: rev_induct)
  case (snoc b bs)
  have "be_val bs * 256 + unat b < (be_val bs + 1) * 256"
    by simp
  also have "\<dots> \<le> 256 ^ length bs * 256"
    using snoc by simp
  finally show ?case by (simp add: be_val_snoc)
qed simp

lemma be_bytes_be_val: "be_bytes (length bs) (be_val bs) = bs"
proof (induction bs rule: rev_induct)
  case (snoc b bs)
  have "(word_of_nat (be_val bs * 256 + unat b) :: u8) = b"
    by (simp add: u8_256)
  with snoc show ?case by (simp add: be_val_snoc)
qed simp

definition byte_width :: "'a::len itself \<Rightarrow> bool" where
  "byte_width _ \<longleftrightarrow> 8 dvd LENGTH('a)"

lemma byte_width_simps [simp]:
  "byte_width TYPE(8)" "byte_width TYPE(16)" "byte_width TYPE(32)"
  "byte_width TYPE(64)" "byte_width TYPE(128)"
  by (simp_all add: byte_width_def)

lemma power_256: "(256 :: nat) ^ n = 2 ^ (8 * n)"
  by (simp add: power_mult)

lemma from_to_be_bytes [simp]:
  assumes "byte_width TYPE('a::len)"
  shows "from_be_bytes (to_be_bytes (w :: 'a word)) = w"
proof -
  have "256 ^ (LENGTH('a) div 8) = (2 :: nat) ^ LENGTH('a)"
    using assms by (simp add: power_256 byte_width_def)
  then have "unat w mod 256 ^ (LENGTH('a) div 8) = unat w"
    by (simp add: unsigned_less)
  then show ?thesis
    by (simp add: from_be_bytes_def to_be_bytes_def be_val_be_bytes)
qed

lemma to_from_be_bytes:
  assumes "8 * length bs = LENGTH('a::len)"
  shows "to_be_bytes (from_be_bytes bs :: 'a word) = bs"
proof -
  have "be_val bs < 2 ^ LENGTH('a)"
    using be_val_less [of bs] assms by (simp add: power_256)
  then have "unat (word_of_nat (be_val bs) :: 'a word) = be_val bs"
    by (simp add: unat_of_nat)
  moreover have "LENGTH('a) div 8 = length bs"
    using assms by linarith
  ultimately show ?thesis
    by (simp add: to_be_bytes_def from_be_bytes_def be_bytes_be_val)
qed

lemma unat_from_be_bytes:
  assumes "8 * length bs \<le> LENGTH('a::len)"
  shows "unat (from_be_bytes bs :: 'a word) = be_val bs"
proof -
  have "be_val bs < 2 ^ (8 * length bs)"
    using be_val_less [of bs] by (simp add: power_256)
  also have "\<dots> \<le> 2 ^ LENGTH('a)"
    using assms by (rule power_increasing) simp
  finally show ?thesis by (simp add: from_be_bytes_def unat_of_nat)
qed

lemma be_val_two: "be_val [a, b] = unat a * 256 + unat b"
  by (simp add: be_val_def)

lemma be_val_four:
  "be_val [a, b, c, d] = ((unat a * 256 + unat b) * 256 + unat c) * 256 + unat d"
  by (simp add: be_val_def)

lemma u16_bytesE:
  obtains a b where "to_be_bytes (w :: u16) = [a, b]" and "from_be_bytes [a, b] = w"
proof -
  have "length (to_be_bytes w) = Suc (Suc 0)" by simp
  then obtain a b where ab: "to_be_bytes w = [a, b]"
    unfolding length_Suc_conv length_0_conv by blast
  then have "from_be_bytes [a, b] = w"
    by (metis from_to_be_bytes byte_width_simps(2))
  with ab that show thesis by blast
qed

section \<open>Readers\<close>

text \<open>
  A reader consumes a prefix of the remaining stream. Reading past the end is the
  \<open>UnexpectedEof\<close> error of \<open>read_exact\<close>.
\<close>

type_synonym 'a reader = "bytes \<Rightarrow> ('a \<times> bytes) result"

definition rret :: "'a \<Rightarrow> 'a reader" where
  "rret x = (\<lambda>s. Inr (x, s))"

definition rbind :: "'a reader \<Rightarrow> ('a \<Rightarrow> 'b reader) \<Rightarrow> 'b reader" where
  "rbind p f = (\<lambda>s. bindr (p s) (\<lambda>(x, s'). f x s'))"

definition rfail :: "string \<Rightarrow> 'a reader" where
  "rfail msg = (\<lambda>s. Inl (Bail msg))"

definition rlift :: "'a result \<Rightarrow> 'a reader" where
  "rlift r = (\<lambda>s. bindr r (\<lambda>x. Inr (x, s)))"

definition read_exact :: "nat \<Rightarrow> bytes reader" where
  "read_exact n = (\<lambda>s. if length s < n then Inl (Bail ''early eof'') else Inr (take n s, drop n s))"

definition read_u8 :: "u8 reader" where
  "read_u8 = (\<lambda>s. case s of [] \<Rightarrow> Inl (Bail ''early eof'') | b # s' \<Rightarrow> Inr (b, s'))"

definition read_be :: "'a::len word reader" where
  "read_be = rbind (read_exact (LENGTH('a) div 8)) (\<lambda>bs. rret (from_be_bytes bs))"

fun read_many :: "nat \<Rightarrow> 'a reader \<Rightarrow> 'a list reader" where
  "read_many 0 p = rret []"
| "read_many (Suc n) p = rbind p (\<lambda>x. rbind (read_many n p) (\<lambda>xs. rret (x # xs)))"

lemma rret_apply [reader_simps]: "rret x s = Inr (x, s)"
  by (simp add: rret_def)

lemma rbind_apply [reader_simps]: "rbind p f s = bindr (p s) (\<lambda>(x, s'). f x s')"
  by (simp add: rbind_def)

lemma rfail_apply [reader_simps]: "rfail msg s = Inl (Bail msg)"
  by (simp add: rfail_def)

lemma rlift_apply [reader_simps]: "rlift r s = bindr r (\<lambda>x. Inr (x, s))"
  by (simp add: rlift_def)

lemma read_exact_append [reader_simps]:
  "length bs = n \<Longrightarrow> read_exact n (bs @ rest) = Inr (bs, rest)"
  by (simp add: read_exact_def)

lemma read_u8_Cons [reader_simps]: "read_u8 (b # s) = Inr (b, s)"
  by (simp add: read_u8_def)

lemma read_be_append [reader_simps]:
  "byte_width TYPE('a::len) \<Longrightarrow> read_be (to_be_bytes (w :: 'a word) @ rest) = Inr (w, rest)"
  by (simp add: read_be_def reader_simps)

lemma read_many_numeral [simp]:
  "read_many (numeral k) p = read_many (Suc (pred_numeral k)) p"
  by (simp add: numeral_eq_Suc del: read_many.simps)

lemma read_exact_Inr_iff:
  "read_exact n s = Inr (bs, s') \<longleftrightarrow> n \<le> length s \<and> bs = take n s \<and> s' = drop n s"
  by (auto simp: read_exact_def)

lemma read_u8_Inr_iff: "read_u8 s = Inr (b, s') \<longleftrightarrow> s = b # s'"
  by (auto simp: read_u8_def split: list.splits)

subsection \<open>Readers that cannot panic and only consume\<close>

definition safe_reader :: "'a reader \<Rightarrow> bool" where
  "safe_reader p \<longleftrightarrow> (\<forall>s. no_panic (p s))"

definition consuming :: "'a reader \<Rightarrow> bool" where
  "consuming p \<longleftrightarrow> (\<forall>s x s'. p s = Inr (x, s') \<longrightarrow> suffix s' s)"

lemma safe_readerD: "safe_reader p \<Longrightarrow> no_panic (p s)"
  by (simp add: safe_reader_def)

lemma safe_reader_basic [panic_free, simp]:
  "safe_reader (rret x)"
  "safe_reader (rfail msg)"
  "safe_reader (read_exact n)"
  "safe_reader read_u8"
  by (auto simp: safe_reader_def rret_def rfail_def read_exact_def read_u8_def split: list.splits)

lemma safe_reader_rlift [panic_free]: "no_panic r \<Longrightarrow> safe_reader (rlift r)"
  by (auto simp: safe_reader_def rlift_def intro!: panic_free)

lemma safe_reader_rbind [panic_free]:
  "safe_reader p \<Longrightarrow> (\<And>x. safe_reader (f x)) \<Longrightarrow> safe_reader (rbind p f)"
  by (auto simp: safe_reader_def rbind_def intro!: no_panic_bindr split: prod.splits)

lemma safe_reader_read_be [panic_free, simp]: "safe_reader (read_be :: 'a::len word reader)"
  by (simp add: read_be_def panic_free)

lemma safe_reader_read_many [panic_free]: "safe_reader p \<Longrightarrow> safe_reader (read_many n p)"
  by (induction n) (auto intro!: panic_free)

lemma safe_reader_if [panic_free]:
  "(b \<Longrightarrow> safe_reader p) \<Longrightarrow> (\<not> b \<Longrightarrow> safe_reader q) \<Longrightarrow> safe_reader (if b then p else q)"
  by simp

lemma consuming_basic [simp]:
  "consuming (rret x)"
  "consuming (rfail msg)"
  "consuming (rlift r)"
  "consuming (read_exact n)"
  "consuming read_u8"
  by (auto simp: consuming_def rret_def rfail_def rlift_def read_exact_def read_u8_def
        bindr_Inr_iff suffix_drop suffix_ConsI split: list.splits if_splits)

lemma consuming_rbind [intro]:
  "consuming p \<Longrightarrow> (\<And>x. consuming (f x)) \<Longrightarrow> consuming (rbind p f)"
  unfolding consuming_def
  by (auto simp: rbind_def bindr_Inr_iff) (metis suffix_order.trans)

lemma consuming_if [intro]:
  "(b \<Longrightarrow> consuming p) \<Longrightarrow> (\<not> b \<Longrightarrow> consuming q) \<Longrightarrow> consuming (if b then p else q)"
  by simp

lemma consuming_read_be [simp]: "consuming (read_be :: 'a::len word reader)"
  by (simp add: read_be_def consuming_rbind)

lemma consuming_read_many [intro]: "consuming p \<Longrightarrow> consuming (read_many n p)"
  by (induction n) (auto intro!: consuming_rbind)

definition progressing :: "'a reader \<Rightarrow> bool" where
  "progressing p \<longleftrightarrow> (\<forall>s x s'. p s = Inr (x, s') \<longrightarrow> length s' < length s)"

lemma progressingD: "progressing p \<Longrightarrow> p s = Inr (x, s') \<Longrightarrow> length s' < length s"
  by (auto simp: progressing_def)

lemma progressing_rbind:
  assumes "progressing p" and "\<And>x. consuming (f x)"
  shows "progressing (rbind p f)"
  unfolding progressing_def
proof (intro allI impI)
  fix s x s'
  assume "rbind p f s = Inr (x, s')"
  then obtain y s1 where "p s = Inr (y, s1)" and "f y s1 = Inr (x, s')"
    by (auto simp: rbind_apply bindr_Inr_iff)
  with assms show "length s' < length s"
    unfolding progressing_def consuming_def by (meson le_less_trans suffix_length_le)
qed

lemma progressing_basic [simp]:
  "progressing read_u8"
  "progressing (read_be :: u16 reader)"
  "progressing (read_be :: u32 reader)"
  "progressing (read_be :: u64 reader)"
  by (auto simp: progressing_def read_be_def reader_simps bindr_Inr_iff read_exact_Inr_iff
        read_u8_Inr_iff)

section \<open>The codec interface\<close>

locale codec =
  fixes enc :: "'a \<Rightarrow> bytes"
    and dec :: "'a reader"
    and ok :: "'a \<Rightarrow> bool"
  assumes dec_enc: "ok x \<Longrightarrow> dec (enc x @ rest) = Inr (x, rest)"
begin

lemma dec_enc_all: "ok x \<Longrightarrow> dec (enc x) = Inr (x, [])"
  using dec_enc [of x "[]"] by simp

text \<open>An encoding is prefix free: two encoded values that start a stream are the same value.\<close>

lemma enc_prefix_free:
  assumes "ok x" and "ok y" and "enc x @ r = enc y @ r'"
  shows "x = y \<and> r = r'"
proof -
  have "Inr (x, r) = dec (enc y @ r')"
    using assms(1,3) dec_enc [of x r] by simp
  also have "\<dots> = Inr (y, r')"
    using assms(2) by (rule dec_enc)
  finally show ?thesis by simp
qed

lemma enc_inj: "ok x \<Longrightarrow> ok y \<Longrightarrow> enc x = enc y \<Longrightarrow> x = y"
  using enc_prefix_free [of x y "[]" "[]"] by simp

text \<open>A sequence of encoded values is read back by reading as many values.\<close>

lemma dec_many:
  "list_all ok xs \<Longrightarrow> read_many (length xs) dec (concat (map enc xs) @ rest) = Inr (xs, rest)"
  by (induction xs) (auto simp: reader_simps dec_enc)

end

text \<open>The fixed-width integers are codecs.\<close>

interpretation u16_codec: codec "to_be_bytes :: u16 \<Rightarrow> bytes" read_be "\<lambda>_. True"
  by unfold_locales (simp add: reader_simps)

interpretation u32_codec: codec "to_be_bytes :: u32 \<Rightarrow> bytes" read_be "\<lambda>_. True"
  by unfold_locales (simp add: reader_simps)

interpretation u64_codec: codec "to_be_bytes :: u64 \<Rightarrow> bytes" read_be "\<lambda>_. True"
  by unfold_locales (simp add: reader_simps)

end
