(* ===== verification/Rust_Text.thy ===== *)
theory Rust_Text
  imports Byte_Codec
begin

text \<open>
  Rust strings. A \<open>String\<close> or \<open>&str\<close> is the list of its UTF-8 bytes, written as characters, so
  that \<open>len()\<close> is \<open>length\<close> and a literal is a HOL string. The string methods the program
  uses are defined here, with the decimal conversions of the integer types.
\<close>

section \<open>Bytes and characters\<close>

definition byte_of_char :: "char \<Rightarrow> u8" where
  "byte_of_char c = word_of_nat (of_char c)"

definition char_of_byte :: "u8 \<Rightarrow> char" where
  "char_of_byte b = char_of (unat b)"

definition as_bytes :: "string \<Rightarrow> bytes" where
  "as_bytes s = map byte_of_char s"

lemma unat_byte_of_char: "unat (byte_of_char c) = of_char c"
  by (simp add: byte_of_char_def unat_of_nat)

lemma char_of_byte_of_char [simp]: "char_of_byte (byte_of_char c) = c"
  by (simp add: char_of_byte_def unat_byte_of_char)

lemma byte_of_char_of_byte [simp]: "byte_of_char (char_of_byte b) = b"
  by (simp add: word_unat_eq_iff unat_byte_of_char char_of_byte_def)

lemma length_as_bytes [simp]: "length (as_bytes s) = length s"
  by (simp add: as_bytes_def)

lemma as_bytes_simps [simp]:
  "as_bytes [] = []"
  "as_bytes (c # s) = byte_of_char c # as_bytes s"
  "as_bytes (s @ t) = as_bytes s @ as_bytes t"
  by (simp_all add: as_bytes_def)

lemma map_char_of_byte_as_bytes [simp]: "map char_of_byte (as_bytes s) = s"
  by (induction s) (auto simp: as_bytes_def)

lemma as_bytes_map_char_of_byte [simp]: "as_bytes (map char_of_byte bs) = bs"
  by (induction bs) (auto simp: as_bytes_def)

lemma as_bytes_inj [simp]: "as_bytes s = as_bytes t \<longleftrightarrow> s = t"
  by (metis map_char_of_byte_as_bytes)

section \<open>UTF-8\<close>

definition cont_byte :: "u8 \<Rightarrow> bool" where
  "cont_byte b \<longleftrightarrow> 0x80 \<le> b \<and> b \<le> 0xBF"

text \<open>
  The length of the first well-formed byte sequence, by the table of the Unicode standard that
  \<open>std::str::from_utf8\<close> follows: the width is given by the first byte (0 for a byte that cannot
  start a character), the second byte is restricted after \<open>E0\<close>, \<open>ED\<close>, \<open>F0\<close> and \<open>F4\<close>.
\<close>

definition utf8_width :: "u8 \<Rightarrow> nat" where
  "utf8_width b =
    (if b < 0x80 then 1
     else if 0xC2 \<le> b \<and> b \<le> 0xDF then 2
     else if 0xE0 \<le> b \<and> b \<le> 0xEF then 3
     else if 0xF0 \<le> b \<and> b \<le> 0xF4 then 4
     else 0)"

definition utf8_tail_ok :: "u8 \<Rightarrow> bytes \<Rightarrow> bool" where
  "utf8_tail_ok b cs \<longleftrightarrow> list_all cont_byte cs \<and>
    (b = 0xE0 \<longrightarrow> 0xA0 \<le> hd cs) \<and> (b = 0xED \<longrightarrow> hd cs \<le> 0x9F) \<and>
    (b = 0xF0 \<longrightarrow> 0x90 \<le> hd cs) \<and> (b = 0xF4 \<longrightarrow> hd cs \<le> 0x8F)"

fun utf8_len :: "bytes \<Rightarrow> nat option" where
  "utf8_len [] = None"
| "utf8_len (b # r) =
    (let n = utf8_width b in
     if 0 < n \<and> n \<le> Suc (length r) \<and> utf8_tail_ok b (take (n - 1) r) then Some n else None)"

lemma utf8_len_bounds: "utf8_len bs = Some n \<Longrightarrow> 0 < n \<and> n \<le> length bs"
  by (cases bs) (auto simp: Let_def split: if_splits)

lemma utf8_len_append: "utf8_len a = Some n \<Longrightarrow> utf8_len (a @ b) = Some n"
  by (cases a) (auto simp: Let_def split: if_splits)

declare utf8_len.simps(2) [simp del]

function utf8_valid :: "bytes \<Rightarrow> bool" where
  "utf8_valid [] = True"
| "utf8_valid (b # bs) =
    (case utf8_len (b # bs) of None \<Rightarrow> False | Some n \<Rightarrow> utf8_valid (drop n (b # bs)))"
  by pat_completeness auto
termination
  by (relation "measure length") (auto dest: utf8_len_bounds)

definition utf8_string :: "string \<Rightarrow> bool" where
  "utf8_string s \<longleftrightarrow> utf8_valid (as_bytes s)"

definition from_utf8 :: "bytes \<Rightarrow> string result" where
  "from_utf8 bs = (if utf8_valid bs then Inr (map char_of_byte bs) else Inl (Bail ''invalid utf-8''))"

lemma from_utf8_as_bytes [simp]: "utf8_string s \<Longrightarrow> from_utf8 (as_bytes s) = Inr s"
  by (simp add: from_utf8_def utf8_string_def)

lemma from_utf8_Inr_iff: "from_utf8 bs = Inr s \<longleftrightarrow> utf8_string s \<and> bs = as_bytes s"
  by (auto simp: from_utf8_def utf8_string_def)

lemma no_panic_from_utf8 [panic_free]: "no_panic (from_utf8 bs)"
  by (simp add: from_utf8_def)

definition is_ascii :: "char \<Rightarrow> bool" where
  "is_ascii c \<longleftrightarrow> byte_of_char c < 0x80"

lemma utf8_string_ascii: "list_all is_ascii s \<Longrightarrow> utf8_string s"
  by (induction s)
    (auto simp: utf8_string_def is_ascii_def utf8_len.simps utf8_width_def utf8_tail_ok_def)

lemma utf8_valid_append: "utf8_valid a \<Longrightarrow> utf8_valid b \<Longrightarrow> utf8_valid (a @ b)"
proof (induction a rule: utf8_valid.induct)
  case (2 x xs)
  then obtain n where n: "utf8_len (x # xs) = Some n" and v: "utf8_valid (drop n (x # xs))"
    by (auto split: option.splits)
  from n have "n \<le> length (x # xs)" using utf8_len_bounds by blast
  then have "drop n (x # xs @ b) = drop n (x # xs) @ b"
    using drop_append [of n "x # xs" b] by simp
  moreover from n have "utf8_len ((x # xs) @ b) = Some n" by (rule utf8_len_append)
  moreover have "utf8_valid (drop n (x # xs) @ b)" using 2 n v by simp
  ultimately show ?case by simp
qed simp

lemma utf8_string_append: "utf8_string a \<Longrightarrow> utf8_string b \<Longrightarrow> utf8_string (a @ b)"
  by (simp add: utf8_string_def utf8_valid_append)

lemma utf8_valid_split_ascii:
  "utf8_valid (a @ c # b) \<Longrightarrow> c < 0x80 \<Longrightarrow> utf8_valid a \<and> utf8_valid b"
proof (induction "length a" arbitrary: a rule: less_induct)
  case less
  show ?case
  proof (cases a)
    case Nil
    with less.prems show ?thesis
      by (auto simp: utf8_len.simps utf8_width_def utf8_tail_ok_def split: if_splits)
  next
    case (Cons x xs)
    from less.prems(1) Cons obtain n where n: "utf8_len (a @ c # b) = Some n"
        and rest: "utf8_valid (drop n (a @ c # b))"
      by (auto split: option.splits)
    have tail: "0 < n" "utf8_tail_ok x (take (n - 1) (xs @ c # b))"
      using n Cons by (auto simp: utf8_len.simps Let_def split: if_splits)
    have le: "n \<le> length a"
    proof (rule ccontr)
      assume "\<not> n \<le> length a"
      then have "c \<in> set (take (n - 1) (xs @ c # b))" by (auto simp: Cons take_Cons' )
      with tail(2) have "cont_byte c" by (auto simp: utf8_tail_ok_def list_all_iff)
      with less.prems(2) show False by (simp add: cont_byte_def word_le_nat_alt word_less_nat_alt)
    qed
    have "utf8_len a = Some n"
      using n le Cons by (auto simp: utf8_len.simps Let_def split: if_splits)
    moreover have "utf8_valid (drop n a) \<and> utf8_valid b"
      using less.hyps [of "drop n a"] rest le tail(1) less.prems(2) Cons
      by (simp add: drop_append [of n a, unfolded Cons, simplified])
    ultimately show ?thesis using Cons by simp
  qed
qed

section \<open>String methods\<close>

definition starts_with :: "string \<Rightarrow> string \<Rightarrow> bool" where
  "starts_with s p \<longleftrightarrow> take (length p) s = p"

definition ends_with :: "string \<Rightarrow> string \<Rightarrow> bool" where
  "ends_with s p \<longleftrightarrow> length p \<le> length s \<and> drop (length s - length p) s = p"

definition strip_prefix :: "string \<Rightarrow> string \<Rightarrow> string option" where
  "strip_prefix s p = (if starts_with s p then Some (drop (length p) s) else None)"

definition strip_suffix :: "string \<Rightarrow> string \<Rightarrow> string option" where
  "strip_suffix s p = (if ends_with s p then Some (take (length s - length p) s) else None)"

fun contains :: "string \<Rightarrow> string \<Rightarrow> bool" where
  "contains [] p = (p = [])"
| "contains (c # s) p = (starts_with (c # s) p \<or> contains s p)"

definition trim_end_matches :: "char \<Rightarrow> string \<Rightarrow> string" where
  "trim_end_matches c s = rev (dropWhile (\<lambda>x. x = c) (rev s))"

definition trim_start_matches :: "char \<Rightarrow> string \<Rightarrow> string" where
  "trim_start_matches c s = dropWhile (\<lambda>x. x = c) s"

definition trim_matches :: "char \<Rightarrow> string \<Rightarrow> string" where
  "trim_matches c s = trim_end_matches c (trim_start_matches c s)"

text \<open>\<open>split\<close> on a character: the pieces between the separators, one piece for an empty string.\<close>

fun split_on :: "char \<Rightarrow> string \<Rightarrow> string list" where
  "split_on c [] = [[]]"
| "split_on c (x # xs) =
    (if x = c then [] # split_on c xs
     else (case split_on c xs of [] \<Rightarrow> [[x]] | p # ps \<Rightarrow> (x # p) # ps))"

fun split_once :: "char \<Rightarrow> string \<Rightarrow> (string \<times> string) option" where
  "split_once c [] = None"
| "split_once c (x # xs) =
    (if x = c then Some ([], xs)
     else (case split_once c xs of None \<Rightarrow> None | Some (a, b) \<Rightarrow> Some (x # a, b)))"

fun join :: "string \<Rightarrow> string list \<Rightarrow> string" where
  "join sep [] = []"
| "join sep [s] = s"
| "join sep (s # t # ss) = s @ sep @ join sep (t # ss)"

definition ascii_lower :: "char \<Rightarrow> char" where
  "ascii_lower c =
    (let b = byte_of_char c in if 0x41 \<le> b \<and> b \<le> 0x5A then char_of_byte (b + 0x20) else c)"

definition ascii_upper :: "char \<Rightarrow> char" where
  "ascii_upper c =
    (let b = byte_of_char c in if 0x61 \<le> b \<and> b \<le> 0x7A then char_of_byte (b - 0x20) else c)"

definition to_ascii_lowercase :: "string \<Rightarrow> string" where
  "to_ascii_lowercase s = map ascii_lower s"

definition to_ascii_uppercase :: "string \<Rightarrow> string" where
  "to_ascii_uppercase s = map ascii_upper s"

lemma split_on_nonempty [simp]: "split_on c s \<noteq> []"
  by (induction s) (auto split: list.splits)

lemma split_on_append_sep:
  "c \<notin> set p \<Longrightarrow> split_on c (p @ c # s) = p # split_on c s"
  by (induction p) (auto split: list.splits)

lemma split_on_no_sep: "c \<notin> set p \<Longrightarrow> split_on c p = [p]"
  by (induction p) auto

lemma split_on_pieces: "p \<in> set (split_on c s) \<Longrightarrow> c \<notin> set p"
proof (induction s arbitrary: p)
  case (Cons x xs)
  then show ?case
    by (cases "split_on c xs") (auto split: if_splits)
qed simp

lemma split_on_join:
  "ps \<noteq> [] \<Longrightarrow> list_all (\<lambda>p. c \<notin> set p) ps \<Longrightarrow> split_on c (join [c] ps) = ps"
proof (induction "[c]" ps rule: join.induct)
  case (3 s t ss)
  then show ?case using split_on_append_sep [of c s] by simp
qed (auto simp: split_on_no_sep)

lemma join_split_on: "join [c] (split_on c s) = s"
proof (induction s)
  case (Cons x xs)
  obtain p ps where sp: "split_on c xs = p # ps"
    by (cases "split_on c xs") auto
  with Cons show ?case by (cases ps) auto
qed simp

lemma utf8_split_on:
  assumes "utf8_string s" and "is_ascii c" and "p \<in> set (split_on c s)"
  shows "utf8_string p"
proof -
  have sep: "utf8_string a \<and> utf8_string b" if "utf8_string (a @ c # b)" for a b
    using utf8_valid_split_ascii [of "as_bytes a" "byte_of_char c" "as_bytes b"] that assms(2)
    by (simp add: utf8_string_def is_ascii_def)
  have "utf8_string p" if "utf8_string (join [c] ps)" "p \<in> set ps" for ps
    using that
  proof (induction "[c]" ps rule: join.induct)
    case (3 s t ss)
    then show ?case using sep [of s "join [c] (t # ss)"] by auto
  qed auto
  with assms show ?thesis by (metis join_split_on)
qed

lemma split_once_append: "c \<notin> set a \<Longrightarrow> split_once c (a @ c # b) = Some (a, b)"
  by (induction a) auto

lemma trim_end_matches_id: "s = [] \<or> last s \<noteq> c \<Longrightarrow> trim_end_matches c s = s"
  by (cases s rule: rev_cases) (auto simp: trim_end_matches_def)

lemma trim_end_matches_last: "trim_end_matches c s = [] \<or> last (trim_end_matches c s) \<noteq> c"
proof -
  have "dropWhile (\<lambda>x. x = c) (rev s) = [] \<or> hd (dropWhile (\<lambda>x. x = c) (rev s)) \<noteq> c"
    using hd_dropWhile [of "\<lambda>x. x = c" "rev s"] by auto
  then show ?thesis by (auto simp: trim_end_matches_def last_rev)
qed

lemma trim_end_matches_idem [simp]:
  "trim_end_matches c (trim_end_matches c s) = trim_end_matches c s"
  using trim_end_matches_last by (rule trim_end_matches_id)

lemma length_lowercase [simp]: "length (to_ascii_lowercase s) = length s"
  by (simp add: to_ascii_lowercase_def)

section \<open>Decimal numbers\<close>

definition digit_char :: "nat \<Rightarrow> char" where
  "digit_char d = ''0123456789'' ! d"

fun nat_to_string :: "nat \<Rightarrow> string" where
  "nat_to_string n =
    (if n < 10 then [digit_char n] else nat_to_string (n div 10) @ [digit_char (n mod 10)])"

declare nat_to_string.simps [simp del]

definition char_digit :: "char \<Rightarrow> nat option" where
  "char_digit c =
    (let b = byte_of_char c in if 0x30 \<le> b \<and> b \<le> 0x39 then Some (unat b - 48) else None)"

fun parse_digits :: "nat \<Rightarrow> string \<Rightarrow> nat option" where
  "parse_digits acc [] = Some acc"
| "parse_digits acc (c # s) =
    (case char_digit c of None \<Rightarrow> None | Some d \<Rightarrow> parse_digits (acc * 10 + d) s)"

text \<open>
  \<open>str::parse\<close> for an unsigned type of the given width: an optional plus sign, at least one
  digit, and no overflow.
\<close>

definition parse_uint :: "nat \<Rightarrow> string \<Rightarrow> nat option" where
  "parse_uint width s =
    (let body = (case s of c # r \<Rightarrow> if c = CHR ''+'' then r else s | [] \<Rightarrow> s) in
     if body = [] then None
     else (case parse_digits 0 body of
             None \<Rightarrow> None
           | Some v \<Rightarrow> if v < 2 ^ width then Some v else None))"

lemma less_10_cases:
  "(d :: nat) < 10 \<Longrightarrow> d = 0 \<or> d = 1 \<or> d = 2 \<or> d = 3 \<or> d = 4 \<or> d = 5 \<or> d = 6 \<or> d = 7 \<or> d = 8 \<or> d = 9"
  by arith

lemma char_digit_digit_char: "d < 10 \<Longrightarrow> char_digit (digit_char d) = Some d"
  by (drule less_10_cases) (elim disjE; simp add: digit_char_def char_digit_def byte_of_char_def)

lemma digit_char_ascii: "d < 10 \<Longrightarrow> is_ascii (digit_char d) \<and> digit_char d \<notin> set ''+/.;=,: ?&'' "
  by (drule less_10_cases) (elim disjE; simp add: digit_char_def is_ascii_def byte_of_char_def)

lemma parse_digits_append:
  "parse_digits acc (s @ t) =
    (case parse_digits acc s of None \<Rightarrow> None | Some v \<Rightarrow> parse_digits v t)"
  by (induction s arbitrary: acc) (auto split: option.splits)

lemma parse_digits_nat_to_string: "parse_digits 0 (nat_to_string n) = Some n"
proof (induction n rule: nat_to_string.induct)
  case (1 n)
  then show ?case
    by (cases "n < 10")
      (simp_all add: nat_to_string.simps [of n] char_digit_digit_char parse_digits_append)
qed

lemma nat_to_string_chars:
  "nat_to_string n \<noteq> [] \<and>
   list_all (\<lambda>c. is_ascii c \<and> c \<notin> set ''+/.;=,: ?&'') (nat_to_string n)"
proof (induction n rule: nat_to_string.induct)
  case (1 n)
  then show ?case
    using digit_char_ascii [of n] digit_char_ascii [of "n mod 10"]
    by (cases "n < 10") (auto simp: nat_to_string.simps [of n])
qed

lemma parse_uint_nat_to_string: "n < 2 ^ w \<Longrightarrow> parse_uint w (nat_to_string n) = Some n"
proof -
  assume n: "n < 2 ^ w"
  obtain c r where cr: "nat_to_string n = c # r"
    using nat_to_string_chars [of n] by (cases "nat_to_string n") auto
  then have "c \<noteq> CHR ''+''"
    using nat_to_string_chars [of n] by auto
  with cr n parse_digits_nat_to_string [of n] show ?thesis
    by (simp add: parse_uint_def Let_def)
qed

lemma parse_uint_less: "parse_uint w s = Some v \<Longrightarrow> v < 2 ^ w"
  by (auto simp: parse_uint_def Let_def split: option.splits if_splits)

lemma utf8_nat_to_string: "utf8_string (nat_to_string n)"
  by (rule utf8_string_ascii, rule list.pred_mono_strong [OF conjunct2 [OF nat_to_string_chars]])
    (rule conjunct1)

end
