(* ===== verification/Net_Addr.thy ===== *)
theory Net_Addr
  imports Rust_Text
begin

text \<open>
  IP and socket addresses of \<open>std::net\<close>: an address is its unsigned integer, the octets are its
  big-endian bytes. \<open>IpAddr\<close> is ordered as Rust derives it, all IPv4 addresses first.
\<close>

datatype ip_addr = V4 u32 | V6 u128

definition ipv4_octets :: "u32 \<Rightarrow> bytes" where
  "ipv4_octets a = to_be_bytes a"

definition ipv6_octets :: "u128 \<Rightarrow> bytes" where
  "ipv6_octets a = to_be_bytes a"

definition ipv4_from :: "bytes \<Rightarrow> u32" where
  "ipv4_from bs = from_be_bytes bs"

definition ipv6_from :: "bytes \<Rightarrow> u128" where
  "ipv6_from bs = from_be_bytes bs"

lemma length_octets [simp]:
  "length (ipv4_octets a) = 4"
  "length (ipv6_octets b) = 16"
  by (simp_all add: ipv4_octets_def ipv6_octets_def)

lemma from_octets [simp]:
  "ipv4_from (ipv4_octets a) = a"
  "ipv6_from (ipv6_octets b) = b"
  by (simp_all add: ipv4_octets_def ipv6_octets_def ipv4_from_def ipv6_from_def)

lemma octets_from:
  "length bs = 4 \<Longrightarrow> ipv4_octets (ipv4_from bs) = bs"
  "length cs = 16 \<Longrightarrow> ipv6_octets (ipv6_from cs) = cs"
  by (simp_all add: ipv4_octets_def ipv6_octets_def ipv4_from_def ipv6_from_def to_from_be_bytes)

instantiation ip_addr :: linorder
begin

fun less_eq_ip_addr :: "ip_addr \<Rightarrow> ip_addr \<Rightarrow> bool" where
  "less_eq_ip_addr (V4 a) (V4 b) = (a \<le> b)"
| "less_eq_ip_addr (V4 a) (V6 b) = True"
| "less_eq_ip_addr (V6 a) (V4 b) = False"
| "less_eq_ip_addr (V6 a) (V6 b) = (a \<le> b)"

definition less_ip_addr :: "ip_addr \<Rightarrow> ip_addr \<Rightarrow> bool" where
  "less_ip_addr a b \<longleftrightarrow> a \<le> b \<and> \<not> b \<le> a"

instance
proof
  fix x y z :: ip_addr
  show "(x < y) = (x \<le> y \<and> \<not> y \<le> x)" by (simp add: less_ip_addr_def)
  show "x \<le> x" by (cases x) auto
  show "x \<le> y \<Longrightarrow> y \<le> z \<Longrightarrow> x \<le> z" by (cases x; cases y; cases z) auto
  show "x \<le> y \<Longrightarrow> y \<le> x \<Longrightarrow> x = y" by (cases x; cases y) auto
  show "x \<le> y \<or> y \<le> x" by (cases x; cases y) auto
qed

end

definition is_ipv4 :: "ip_addr \<Rightarrow> bool" where
  "is_ipv4 a = (case a of V4 _ \<Rightarrow> True | V6 _ \<Rightarrow> False)"

text \<open>A \<open>SocketAddr\<close>: for IPv6 equality also compares the flow label and the scope.\<close>

datatype socket_addr =
  SockV4 u32 u16
| SockV6 u128 u16 (flowinfo: u32) (scope_id: u32)

fun sock_ip :: "socket_addr \<Rightarrow> ip_addr" where
  "sock_ip (SockV4 a p) = V4 a"
| "sock_ip (SockV6 a p f s) = V6 a"

fun sock_port :: "socket_addr \<Rightarrow> u16" where
  "sock_port (SockV4 a p) = p"
| "sock_port (SockV6 a p f s) = p"

end
