(* ===== verification/Vless.thy ===== *)
theory Vless
  imports Net_Addr
begin

unbundle bit_operations_syntax

text \<open>
  The VLESS protocol of \<^verbatim>\<open>src/src/vless.rs\<close>: the request header written by the client and parsed by
  the server, the framing of UDP over the stream, XUDP frames and the server's table of XUDP
  sessions. A stream is the list of bytes still to be read. \<open>Uuid::parse_str\<close> of the \<open>uuid\<close>
  crate is the parameter \<open>parse_uuid\<close>; a UUID is its 128-bit value. Name resolution and
  sockets are the outcomes passed to the step that uses them.
\<close>

section \<open>Destinations and requests\<close>

datatype destination = Ip ip_addr u16 | Domain string u16

datatype command = Tcp | Udp | Xudp

record request =
  req_command :: command
  req_destination :: destination

fun dest_port :: "destination \<Rightarrow> u16" where
  "dest_port (Ip _ p) = p"
| "dest_port (Domain _ p) = p"

text \<open>What a \<open>Destination\<close> value satisfies in the program: its domain is a Rust string.\<close>

fun dest_wf :: "destination \<Rightarrow> bool" where
  "dest_wf (Ip _ _) = True"
| "dest_wf (Domain s _) = utf8_string s"

fun dest_sendable :: "destination \<Rightarrow> bool" where
  "dest_sendable (Ip _ _) = True"
| "dest_sendable (Domain s _) = (utf8_string s \<and> length s \<le> 255)"

fun command_byte :: "command \<Rightarrow> u8" where
  "command_byte Tcp = 1"
| "command_byte Udp = 2"
| "command_byte Xudp = 3"

definition read_command :: "command reader" where
  "read_command = rbind read_u8 (\<lambda>value.
     if value = 1 then rret Tcp
     else if value = 2 then rret Udp
     else if value = 3 then rret Xudp
     else rfail ''unsupported VLESS command'')"

definition read_destination :: "destination reader" where
  "read_destination = rbind read_be (\<lambda>port. rbind read_u8 (\<lambda>kind.
     if kind = 1 then rbind (read_exact 4) (\<lambda>b. rret (Ip (V4 (ipv4_from b)) port))
     else if kind = 2 then
       rbind read_u8 (\<lambda>n. rbind (read_exact (unat n)) (\<lambda>b.
         rbind (rlift (from_utf8 b)) (\<lambda>name. rret (Domain name port))))
     else if kind = 3 then rbind (read_exact 16) (\<lambda>b. rret (Ip (V6 (ipv6_from b)) port))
     else rfail ''unknown VLESS address type''))"

text \<open>The server side of the handshake; the second component is what it writes back.\<close>

definition serve :: "(string \<Rightarrow> u128 option) \<Rightarrow> string list \<Rightarrow> (request \<times> bytes) reader" where
  "serve parse_uuid users = rbind read_u8 (\<lambda>version.
     if version \<noteq> 0 then rfail ''unsupported VLESS version''
     else rbind (read_exact 16) (\<lambda>idb. let id = from_be_bytes idb in
       if \<not> list_ex (\<lambda>v. parse_uuid v = Some id) users then rfail ''unknown VLESS user''
       else rbind read_u8 (\<lambda>addons.
         rbind (if 0 < addons then read_exact (unat addons) else rret []) (\<lambda>skip.
         rbind read_command (\<lambda>cmd.
         rbind (if cmd = Xudp then rret (Domain [] 0) else read_destination) (\<lambda>dst.
         rret (\<lparr>req_command = cmd, req_destination = dst\<rparr>, [0, 0])))))))"

fun encode_address :: "destination \<Rightarrow> bytes" where
  "encode_address (Ip (V4 ip) _) = 1 # ipv4_octets ip"
| "encode_address (Domain name _) = 2 # word_of_nat (length name) # as_bytes name"
| "encode_address (Ip (V6 ip) _) = 3 # ipv6_octets ip"

definition write_request_with_command ::
  "(string \<Rightarrow> u128 option) \<Rightarrow> string \<Rightarrow> command \<Rightarrow> destination \<Rightarrow> bytes result" where
  "write_request_with_command parse_uuid user cmd dst =
    bindr (with_context ''invalid VLESS UUID'' (parse_uuid user)) (\<lambda>id.
      let header = [0] @ to_be_bytes id @ [0, command_byte cmd] in
      if cmd = Xudp then Inr header
      else
        let request = header @ to_be_bytes (dest_port dst) in
        case dst of
          Domain name _ \<Rightarrow>
            if length name > 255 then Inl (Bail ''domain too long'')
            else Inr (request @ encode_address dst)
        | Ip _ _ \<Rightarrow> Inr (request @ encode_address dst))"

definition write_request ::
  "(string \<Rightarrow> u128 option) \<Rightarrow> string \<Rightarrow> destination \<Rightarrow> bytes result" where
  "write_request parse_uuid user dst = write_request_with_command parse_uuid user Tcp dst"

definition read_response :: "unit reader" where
  "read_response = rbind read_u8 (\<lambda>version.
     if version \<noteq> 0 then rfail ''invalid VLESS response''
     else rbind read_u8 (\<lambda>n.
       rbind (if 0 < n then read_exact (unat n) else rret []) (\<lambda>skip. rret ())))"

section \<open>XUDP frames\<close>

record xudp_frame =
  xf_session :: u16
  xf_status :: u8
  xf_destination :: "destination option"
  xf_payload :: "bytes option"

definition parse_destination_bytes :: "bytes \<Rightarrow> destination result" where
  "parse_destination_bytes bytes0 =
    (if length bytes0 < 3 then Inl (Bail ''truncated XUDP destination'')
     else bindr (index bytes0 0) (\<lambda>b0. bindr (index bytes0 1) (\<lambda>b1.
       let port = from_be_bytes [b0, b1]; bs = drop 2 bytes0 in
       bindr (index bs 0) (\<lambda>kind.
       if kind = 1 \<and> length bs \<ge> 5 then
         bindr (slice bs 1 5) (\<lambda>a. Inr (Ip (V4 (ipv4_from a)) port))
       else if kind = 2 \<and> length bs \<ge> 2 \<and> length bs \<ge> unat (bs ! 1) + 2 then
         bindr (index bs 1) (\<lambda>n. bindr (slice bs 2 (2 + unat n)) (\<lambda>d.
           bindr (from_utf8 d) (\<lambda>name. Inr (Domain name port))))
       else if kind = 3 \<and> length bs \<ge> 17 then
         bindr (slice bs 1 17) (\<lambda>a. Inr (Ip (V6 (ipv6_from a)) port))
       else Inl (Bail ''invalid XUDP destination'')))))"

definition read_xudp_frame :: "xudp_frame reader" where
  "read_xudp_frame = rbind (read_be :: u16 reader) (\<lambda>hl. let header_length = unat hl in
     if header_length < 4 then rfail ''invalid XUDP frame length''
     else rbind read_be (\<lambda>session. rbind read_u8 (\<lambda>status. rbind read_u8 (\<lambda>opt.
       rbind (if header_length > 4 then
                rbind (read_exact (header_length - 4)) (\<lambda>remaining.
                  if get remaining 0 \<noteq> Some 2 then rfail ''XUDP frame is not UDP''
                  else rbind (rlift (bindr (slice remaining 1 (length remaining))
                         parse_destination_bytes)) (\<lambda>d. rret (Some d)))
              else rret None) (\<lambda>dst.
       rbind (if opt AND 1 \<noteq> 0 then
                rbind (read_be :: u16 reader) (\<lambda>n. rbind (read_exact (unat n)) (\<lambda>p. rret (Some p)))
              else rret None) (\<lambda>payload.
       if opt AND 2 \<noteq> 0 then rfail ''remote XUDP session reported an error''
       else rret \<lparr>xf_session = session, xf_status = status, xf_destination = dst,
                  xf_payload = payload\<rparr>))))))"

definition encode_destination_bytes :: "destination \<Rightarrow> bytes result" where
  "encode_destination_bytes dst =
    (case dst of
       Domain name _ \<Rightarrow>
         if length name > 255 then Inl (Bail ''XUDP domain too long'')
         else Inr (to_be_bytes (dest_port dst) @ encode_address dst)
     | Ip _ _ \<Rightarrow> Inr (to_be_bytes (dest_port dst) @ encode_address dst))"

text \<open>
  The frame writer returns the bytes it wrote to the stream and its outcome: a payload that is
  too large is detected after the header has been written.
\<close>

definition write_xudp_frame :: "u16 \<Rightarrow> u8 \<Rightarrow> destination \<Rightarrow> bytes \<Rightarrow> bytes \<times> unit result" where
  "write_xudp_frame session status dst payload =
    (case encode_destination_bytes dst of
       Inl e \<Rightarrow> ([], Inl e)
     | Inr address \<Rightarrow>
        if 5 + length address > 65535 then ([], Inl (Bail ''XUDP header too large''))
        else
          let header = to_be_bytes (word_of_nat (5 + length address) :: u16) @
                       to_be_bytes session @ [status, 1, 2] @ address in
          if length payload > 65535 then (header, Inl (Bail ''XUDP payload too large''))
          else (header @ to_be_bytes (word_of_nat (length payload) :: u16) @ payload, Inr ()))"

definition write_xudp_packet :: "bool \<Rightarrow> destination \<Rightarrow> bytes \<Rightarrow> bytes \<times> unit result" where
  "write_xudp_packet new_session dst payload =
     write_xudp_frame 0 (if new_session then 1 else 2) dst payload"

subsection \<open>Reading frames terminates and never panics\<close>

lemma length_encode_address:
  "length (encode_address d) = (case d of Ip (V4 _) _ \<Rightarrow> 5 | Domain n _ \<Rightarrow> length n + 2 | Ip (V6 _) _ \<Rightarrow> 17)"
  by (cases d rule: encode_address.cases) auto

lemma no_panic_parse_destination_bytes [panic_free]: "no_panic (parse_destination_bytes bs)"
  unfolding parse_destination_bytes_def Let_def
  by (intro panic_free) auto

lemma safe_read_destination [panic_free]: "safe_reader read_destination"
  unfolding read_destination_def
  by (intro panic_free)

lemma safe_read_xudp_frame: "safe_reader read_xudp_frame"
  unfolding read_xudp_frame_def Let_def
  by (intro panic_free) (auto simp: get_def Suc_le_eq split: if_splits)

lemma progressing_read_xudp_frame: "progressing read_xudp_frame"
  unfolding read_xudp_frame_def Let_def
  by (intro progressing_rbind consuming_rbind consuming_if) simp_all

text \<open>\<open>read_xudp_packet\<close> skips frames without a payload and stops at a closing frame.\<close>

function read_xudp_packet :: "(destination option \<times> bytes) reader" where
  "read_xudp_packet s =
    bindr (read_xudp_frame s) (\<lambda>(frame, s').
      if xf_status frame = 3 then Inl (Bail ''XUDP session ended'')
      else (case xf_payload frame of
              Some payload \<Rightarrow> Inr ((xf_destination frame, payload), s')
            | None \<Rightarrow> read_xudp_packet s'))"
  by pat_completeness auto
termination
  by (relation "measure length") (auto intro: progressingD [OF progressing_read_xudp_frame])

declare read_xudp_packet.simps [simp del]

section \<open>UDP over the stream\<close>

text \<open>
  \<open>relay_udp\<close>: one iteration of its \<open>select!\<close> per event. The stream side reads one
  length-prefixed datagram and sends it; the socket side frames one received datagram.
\<close>

record udp_relay =
  ur_stream :: bytes
  ur_sent :: "bytes list"
  ur_written :: bytes

datatype udp_event = StreamReady | Received bytes

fun relay_udp_step :: "udp_relay \<Rightarrow> udp_event \<Rightarrow> udp_relay result" where
  "relay_udp_step st StreamReady =
    bindr (rbind (read_be :: u16 reader) (\<lambda>n. read_exact (unat n)) (ur_stream st)) (\<lambda>(p, s').
      Inr (st\<lparr>ur_stream := s', ur_sent := ur_sent st @ [p]\<rparr>))"
| "relay_udp_step st (Received p) =
    (if length p > 65535 then Inl (Bail ''UDP response is too large'')
     else Inr (st\<lparr>ur_written := ur_written st @ to_be_bytes (word_of_nat (length p) :: u16) @ p\<rparr>))"

fun relay_udp_run :: "udp_relay \<Rightarrow> udp_event list \<Rightarrow> udp_relay result" where
  "relay_udp_run st [] = Inr st"
| "relay_udp_run st (e # es) = bindr (relay_udp_step st e) (\<lambda>st'. relay_udp_run st' es)"

section \<open>The XUDP session table\<close>

text \<open>
  \<open>relay_xudp\<close> keeps one channel per session identifier. A channel is closed when its session
  task has ended; \<open>xc_frames\<close> records the frames handed to it. The outcomes of name resolution,
  of binding the socket and of the channel send are the environment of a step.
\<close>

record xudp_channel =
  xc_closed :: bool
  xc_frames :: "xudp_frame list"

record xudp_relay =
  xr_sessions :: "(u16, xudp_channel) hashmap"
  xr_written :: bytes

record xudp_env =
  xe_resolves :: bool
  xe_binds :: bool
  xe_sends :: bool

definition MAX_XUDP_SESSIONS :: nat where
  "MAX_XUDP_SESSIONS = 256"

definition push_frame :: "xudp_frame \<Rightarrow> xudp_channel \<Rightarrow> xudp_channel" where
  "push_frame f c = c\<lparr>xc_frames := xc_frames c @ [f]\<rparr>"

definition relay_xudp_frame :: "xudp_env \<Rightarrow> xudp_relay \<Rightarrow> xudp_frame \<Rightarrow> xudp_relay result" where
  "relay_xudp_frame env st frame =
    (let sessions = hm_retain (\<lambda>_ c. \<not> xc_closed c) (xr_sessions st);
         id = xf_session frame; status = xf_status frame in
     if status = 1 then
       if hm_contains sessions id then Inl (Bail ''duplicate XUDP session'')
       else if length sessions \<ge> MAX_XUDP_SESSIONS then Inl (Bail ''too many XUDP sessions'')
       else bindr (with_context ''XUDP new frame has no destination'' (xf_destination frame)) (\<lambda>dst.
         if \<not> xe_resolves env then Inl (Bail ''XUDP destination did not resolve'')
         else if \<not> xe_binds env then Inl (Bail ''bind'')
         else if \<not> xe_sends env then Inl (Bail ''start XUDP session'')
         else Inr (st\<lparr>xr_sessions :=
                hm_insert id \<lparr>xc_closed = False, xc_frames = [frame]\<rparr> sessions\<rparr>))
     else if status = 2 \<or> status = 4 then
       bindr (with_context ''XUDP continuation references unknown session'' (hm_get sessions id)) (\<lambda>c.
         if \<not> xe_sends env then Inl (Bail ''continue XUDP session'')
         else Inr (st\<lparr>xr_sessions := hm_insert id (push_frame frame c) sessions\<rparr>))
     else if status = 3 then
       if hm_contains sessions id then Inr (st\<lparr>xr_sessions := hm_remove id sessions\<rparr>)
       else Inl (Bail ''XUDP close references unknown session'')
     else Inl (Bail ''invalid XUDP frame status''))"

definition relay_xudp_response ::
  "xudp_relay \<Rightarrow> u16 \<Rightarrow> destination \<Rightarrow> bytes \<Rightarrow> xudp_relay result" where
  "relay_xudp_response st session source payload =
    (case write_xudp_frame session 2 source payload of
       (w, r) \<Rightarrow> bindr r (\<lambda>_. Inr (st\<lparr>xr_written := xr_written st @ w\<rparr>)))"

definition session_task_ends :: "u16 \<Rightarrow> xudp_relay \<Rightarrow> xudp_relay" where
  "session_task_ends i st =
    st\<lparr>xr_sessions := hm_modify i (\<lambda>c. c\<lparr>xc_closed := True\<rparr>) (xr_sessions st)\<rparr>"

inductive xudp_reachable :: "xudp_relay \<Rightarrow> bool" where
  start: "xudp_reachable \<lparr>xr_sessions = [], xr_written = []\<rparr>"
| frame: "xudp_reachable st \<Longrightarrow> relay_xudp_frame env st f = Inr st' \<Longrightarrow> xudp_reachable st'"
| response: "xudp_reachable st \<Longrightarrow> relay_xudp_response st i d p = Inr st' \<Longrightarrow> xudp_reachable st'"
| task_ends: "xudp_reachable st \<Longrightarrow> xudp_reachable (session_task_ends i st)"

text \<open>
  \<open>run_xudp_session\<close>: one iteration of the session task per event. The task keeps the current
  destination and the cached resolution of it; \<open>None\<close> is the task returning. A \<open>Quiet\<close> event
  is the idle timeout or a failed receive on the socket.
\<close>

record xudp_session =
  xs_destination :: destination
  xs_cached :: "socket_addr option"

datatype session_event = Frame xudp_frame | Datagram socket_addr bytes | FramesClosed | Quiet

datatype session_effect = SendTo bytes socket_addr | Respond u16 destination bytes

fun run_xudp_session_event ::
  "(destination \<Rightarrow> socket_addr option) \<Rightarrow> bool \<Rightarrow> u16 \<Rightarrow> xudp_session \<Rightarrow> session_event
   \<Rightarrow> (xudp_session \<times> session_effect list) option" where
  "run_xudp_session_event resolve send_ok session st (Frame frame) =
    (let st1 = (case xf_destination frame of
                  Some value \<Rightarrow> \<lparr>xs_destination = value, xs_cached = None\<rparr>
                | None \<Rightarrow> st) in
     case xf_payload frame of
       None \<Rightarrow> Some (st1, [])
     | Some payload \<Rightarrow>
        (case (case xs_cached st1 of None \<Rightarrow> resolve (xs_destination st1) | Some t \<Rightarrow> Some t) of
           None \<Rightarrow> None
         | Some target \<Rightarrow>
            if \<not> send_ok then None
            else Some (st1\<lparr>xs_cached := Some target\<rparr>, [SendTo payload target])))"
| "run_xudp_session_event resolve send_ok session st (Datagram source payload) =
    (if \<not> send_ok then None
     else Some (st, [Respond session (Ip (sock_ip source) (sock_port source)) payload]))"
| "run_xudp_session_event resolve send_ok session st FramesClosed = None"
| "run_xudp_session_event resolve send_ok session st Quiet = None"

fun run_xudp_session ::
  "(destination \<Rightarrow> socket_addr option) \<Rightarrow> u16 \<Rightarrow> xudp_session \<Rightarrow> (session_event \<times> bool) list
   \<Rightarrow> session_effect list" where
  "run_xudp_session resolve session st [] = []"
| "run_xudp_session resolve session st ((e, send_ok) # es) =
    (case run_xudp_session_event resolve send_ok session st e of
       None \<Rightarrow> []
     | Some (st', effs) \<Rightarrow> effs @ run_xudp_session resolve session st' es)"

text \<open>The same task without the cache: every payload resolves the current destination.\<close>

fun session_spec ::
  "(destination \<Rightarrow> socket_addr option) \<Rightarrow> u16 \<Rightarrow> destination \<Rightarrow> (session_event \<times> bool) list
   \<Rightarrow> session_effect list" where
  "session_spec resolve session d [] = []"
| "session_spec resolve session d ((e, send_ok) # es) =
    (case e of
       Frame f \<Rightarrow>
        (let d' = (case xf_destination f of Some v \<Rightarrow> v | None \<Rightarrow> d) in
         case xf_payload f of
           None \<Rightarrow> session_spec resolve session d' es
         | Some p \<Rightarrow>
            (case resolve d' of
               None \<Rightarrow> []
             | Some t \<Rightarrow> if send_ok then SendTo p t # session_spec resolve session d' es else []))
     | Datagram src p \<Rightarrow>
        if send_ok
        then Respond session (Ip (sock_ip src) (sock_port src)) p # session_spec resolve session d es
        else []
     | _ \<Rightarrow> [])"

section \<open>Round trips\<close>

definition dest_wire :: "destination \<Rightarrow> bytes" where
  "dest_wire d = to_be_bytes (dest_port d) @ encode_address d"

lemma unat_word_of_nat_u8: "n < 256 \<Longrightarrow> unat (word_of_nat n :: u8) = n"
  by (simp add: unat_of_nat)

lemma unat_word_of_nat_u16: "n < 65536 \<Longrightarrow> unat (word_of_nat n :: u16) = n"
  by (simp add: unat_of_nat)

interpretation dest_codec: codec dest_wire read_destination dest_sendable
proof
  fix x rest
  assume "dest_sendable x"
  then show "read_destination (dest_wire x @ rest) = Inr (x, rest)"
    by (cases x rule: encode_address.cases)
      (auto simp: read_destination_def dest_wire_def reader_simps unat_word_of_nat_u8)
qed

lemma command_codec: "read_command (command_byte c # rest) = Inr (c, rest)"
  by (cases c) (simp_all add: read_command_def reader_simps)

lemma write_request_eq:
  assumes "parse_uuid user = Some uid" and "cmd = Xudp \<or> dest_sendable dst"
  shows "write_request_with_command parse_uuid user cmd dst =
    Inr (0 # to_be_bytes uid @ 0 # command_byte cmd # (if cmd = Xudp then [] else dest_wire dst))"
  using assms
  by (cases dst) (auto simp: write_request_with_command_def dest_wire_def Let_def)

lemma serve_wire:
  assumes "parse_uuid user = Some uid" and "user \<in> set users" and "cmd = Xudp \<or> dest_sendable dst"
  shows "serve parse_uuid users
      ((0 # to_be_bytes uid @ 0 # command_byte cmd # (if cmd = Xudp then [] else dest_wire dst)) @ rest)
    = Inr ((\<lparr>req_command = cmd,
             req_destination = (if cmd = Xudp then Domain [] 0 else dst)\<rparr>, [0, 0]), rest)"
proof -
  have "list_ex (\<lambda>v. parse_uuid v = Some uid) users"
    using assms(1,2) by (auto simp: list_ex_iff)
  with assms(3) show ?thesis
    by (auto simp: serve_def reader_simps command_codec dest_codec.dec_enc)
qed

lemma parse_destination_bytes_wire:
  assumes "dest_sendable d"
  shows "parse_destination_bytes (dest_wire d @ junk) = Inr d"
proof -
  obtain a b where ab: "to_be_bytes (dest_port d) = [a, b]"
      and port: "from_be_bytes [a, b] = dest_port d"
    by (rule u16_bytesE)
  show ?thesis
    using assms
    by (cases d rule: encode_address.cases)
      (use ab port in \<open>auto simp: parse_destination_bytes_def dest_wire_def Let_def
          unat_word_of_nat_u8\<close>)
qed

definition frame_wire :: "xudp_frame \<Rightarrow> bytes" where
  "frame_wire f = fst (write_xudp_frame (xf_session f) (xf_status f)
     (case xf_destination f of Some d \<Rightarrow> d | None \<Rightarrow> Domain [] 0)
     (case xf_payload f of Some p \<Rightarrow> p | None \<Rightarrow> []))"

definition frame_sendable :: "xudp_frame \<Rightarrow> bool" where
  "frame_sendable f \<longleftrightarrow>
    (case xf_destination f of Some d \<Rightarrow> dest_sendable d | None \<Rightarrow> False) \<and>
    (case xf_payload f of Some p \<Rightarrow> length p \<le> 65535 | None \<Rightarrow> False)"

lemma length_dest_wire: "dest_sendable d \<Longrightarrow> 2 < length (dest_wire d) \<and> length (dest_wire d) < 300"
  by (cases d rule: encode_address.cases) (auto simp: dest_wire_def)

lemma encode_destination_bytes_eq: "dest_sendable d \<Longrightarrow> encode_destination_bytes d = Inr (dest_wire d)"
  by (cases d) (auto simp: encode_destination_bytes_def dest_wire_def)

lemma write_xudp_frame_eq:
  assumes "dest_sendable d" and "length p \<le> 65535"
  shows "write_xudp_frame session status d p =
    (to_be_bytes (word_of_nat (5 + length (dest_wire d)) :: u16) @ to_be_bytes session @
     status # 1 # 2 # dest_wire d @ to_be_bytes (word_of_nat (length p) :: u16) @ p, Inr ())"
  using assms length_dest_wire [OF assms(1)]
  by (simp add: write_xudp_frame_def encode_destination_bytes_eq Let_def)

lemma read_xudp_frame_wire:
  assumes d: "dest_sendable d" and p: "length p \<le> 65535"
  shows "read_xudp_frame (fst (write_xudp_frame session status d p) @ rest) =
    Inr (\<lparr>xf_session = session, xf_status = status, xf_destination = Some d,
          xf_payload = Some p\<rparr>, rest)"
proof -
  define hl where "hl = (word_of_nat (5 + length (dest_wire d)) :: u16)"
  have hl: "unat hl = 5 + length (dest_wire d)"
    unfolding hl_def using length_dest_wire [OF d] by (intro unat_word_of_nat_u16) simp
  have re: "read_exact (Suc (length (dest_wire d))) (2 # dest_wire d @ t) = Inr (2 # dest_wire d, t)" for t
    using read_exact_append [of "2 # dest_wire d" _ t] by simp
  have pd: "parse_destination_bytes (dest_wire d) = Inr d"
    using parse_destination_bytes_wire [OF d, of "[]"] by simp
  have n: "unat (word_of_nat (length p) :: u16) = length p"
    using p by (intro unat_word_of_nat_u16) simp
  show ?thesis
    unfolding write_xudp_frame_eq [OF d p] hl_def [symmetric] read_xudp_frame_def
    using hl by (simp add: reader_simps Let_def re pd n get_def)
qed

interpretation frame_codec: codec frame_wire read_xudp_frame frame_sendable
proof
  fix f :: xudp_frame and rest
  assume "frame_sendable f"
  then show "read_xudp_frame (frame_wire f @ rest) = Inr (f, rest)"
    by (cases f) (auto simp: frame_sendable_def frame_wire_def read_xudp_frame_wire
        split: option.splits)
qed

section \<open>Properties\<close>

text \<open>
  C2. A request written by the client is parsed by the server as the same command and
  destination, for a user of the configured list: the whole request is consumed, the bytes
  after it stay in the stream, and the two bytes the server answers with are accepted by the
  client's \<open>read_response\<close>. For XUDP the destination travels in the frames.
\<close>

theorem vless_handshake_roundtrip:
  assumes "parse_uuid user = Some uid" and "user \<in> set users" and "cmd = Xudp \<or> dest_sendable dst"
  shows "\<exists>wire reply.
    write_request_with_command parse_uuid user cmd dst = Inr wire \<and>
    serve parse_uuid users (wire @ rest) =
      Inr ((\<lparr>req_command = cmd,
             req_destination = (if cmd = Xudp then Domain [] 0 else dst)\<rparr>, reply), rest) \<and>
    read_response (reply @ rest') = Inr ((), rest')"
proof -
  have "read_response ([0, 0] @ rest') = Inr ((), rest')"
    by (simp add: read_response_def reader_simps)
  with write_request_eq [where parse_uuid = parse_uuid, OF assms(1,3)]
    serve_wire [where parse_uuid = parse_uuid, OF assms] show ?thesis by blast
qed

theorem vless_handshake_roundtrip_witness:
  "\<exists>wire reply.
    write_request_with_command (\<lambda>s. if s = ''u'' then Some 7 else None) ''u'' Tcp
      (Domain ''ex.org'' 443) = Inr wire \<and>
    serve (\<lambda>s. if s = ''u'' then Some 7 else None) [''u''] (wire @ [9]) =
      Inr ((\<lparr>req_command = Tcp, req_destination = Domain ''ex.org'' 443\<rparr>, reply), [9]) \<and>
    read_response (reply @ []) = Inr ((), [])"
proof -
  have "utf8_string ''ex.org''"
    by (rule utf8_string_ascii) (simp add: is_ascii_def byte_of_char_def)
  then show ?thesis
    using vless_handshake_roundtrip [where parse_uuid = "\<lambda>s. if s = ''u'' then Some 7 else None"
        and user = "''u''" and uid = 7 and users = "[''u'']" and cmd = Tcp
        and dst = "Domain ''ex.org'' 443" and rest = "[9]" and rest' = "[]"]
    by simp
qed

text \<open>
  C3. The server accepts a handshake only from a configured user: the version byte is 0 and the
  16 bytes after it are the UUID of one of the users.
\<close>

theorem serve_authenticates:
  assumes "serve parse_uuid users s = Inr ((req, reply), s')"
  shows "\<exists>u \<in> set users. parse_uuid u = Some (from_be_bytes (take 16 (drop 1 s))) \<and>
    hd s = 0 \<and> 17 \<le> length s \<and> reply = [0, 0]"
proof -
  from assms obtain v s1 where s: "s = v # s1" and v: "v = 0"
    by (auto simp: serve_def reader_simps bindr_Inr_iff read_u8_Inr_iff split: if_splits)
  from assms s v have len: "16 \<le> length s1"
      and ex: "list_ex (\<lambda>u. parse_uuid u = Some (from_be_bytes (take 16 s1))) users"
      and rep: "reply = [0, 0]"
    by (auto simp: serve_def reader_simps bindr_Inr_iff read_exact_Inr_iff Let_def split: if_splits)
  from ex s v len rep show ?thesis by (auto simp: list_ex_iff)
qed

theorem serve_authenticates_witness:
  "\<exists>u \<in> set [''u'']. (if u = ''u'' then Some (7 :: u128) else None) =
      Some (from_be_bytes (take 16 (drop 1 (0 # to_be_bytes (7 :: u128) @ [0, 3])))) \<and>
    hd (0 # to_be_bytes (7 :: u128) @ [0, 3]) = 0 \<and>
    17 \<le> length (0 # to_be_bytes (7 :: u128) @ [0, 3]) \<and> [0, 0] = [0 :: u8, 0]"
proof -
  have "serve (\<lambda>s. if s = ''u'' then Some 7 else None) [''u'']
      ((0 # to_be_bytes (7 :: u128) @ 0 # command_byte Xudp # []) @ []) =
    Inr ((\<lparr>req_command = Xudp, req_destination = Domain [] 0\<rparr>, [0, 0]), [])"
    using serve_wire [where parse_uuid = "\<lambda>s. if s = ''u'' then Some 7 else None"
        and user = "''u''" and uid = 7 and users = "[''u'']" and cmd = Xudp and rest = "[]"]
    by simp
  from serve_authenticates [OF this] show ?thesis by simp
qed

text \<open>
  C4. An XUDP frame written by one side is read back by the other with the same session,
  status, destination and payload, and the reader stops exactly at the end of the frame.
\<close>

theorem xudp_frame_roundtrip:
  assumes "dest_sendable dst" and "length payload \<le> 65535"
  shows "snd (write_xudp_frame session status dst payload) = Inr () \<and>
    read_xudp_frame (fst (write_xudp_frame session status dst payload) @ rest) =
      Inr (\<lparr>xf_session = session, xf_status = status, xf_destination = Some dst,
            xf_payload = Some payload\<rparr>, rest)"
  using read_xudp_frame_wire [OF assms] write_xudp_frame_eq [OF assms] by simp

theorem xudp_frame_roundtrip_witness:
  "read_xudp_frame (fst (write_xudp_frame 10 1 (Ip (V4 0x7F000001) 53) [1, 2, 3]) @ [255]) =
      Inr (\<lparr>xf_session = 10, xf_status = 1, xf_destination = Some (Ip (V4 0x7F000001) 53),
            xf_payload = Some [1, 2, 3]\<rparr>, [255])"
  using xudp_frame_roundtrip [of "Ip (V4 0x7F000001) 53" "[1, 2, 3]" 10 1 "[255]"] by simp

text \<open>
  The XUDP frame reader is total on arbitrary input: it never panics, whatever bytes the
  peer sends, and every frame it accepts consumes a non-empty part of the stream.
\<close>

theorem read_xudp_frame_total:
  "no_panic (read_xudp_frame s) \<and>
   (case read_xudp_frame s of Inl _ \<Rightarrow> True | Inr (f, s') \<Rightarrow> length s' < length s)"
  using safe_readerD [OF safe_read_xudp_frame, of s] progressingD [OF progressing_read_xudp_frame, of s]
  by (auto split: sum.splits)

subsection \<open>The session table\<close>

definition xudp_inv :: "xudp_relay \<Rightarrow> bool" where
  "xudp_inv st \<longleftrightarrow> hm_ok (xr_sessions st) \<and> length (xr_sessions st) \<le> MAX_XUDP_SESSIONS \<and>
    (\<forall>i c f. hm_get (xr_sessions st) i = Some c \<longrightarrow> f \<in> set (xc_frames c) \<longrightarrow> xf_session f = i)"

lemma relay_xudp_frame_inv:
  assumes inv: "xudp_inv st" and step: "relay_xudp_frame env st f = Inr st'"
  shows "xudp_inv st'"
proof -
  define m where "m = hm_retain (\<lambda>_ c. \<not> xc_closed c) (xr_sessions st)"
  have ok: "hm_ok m" and len: "length m \<le> MAX_XUDP_SESSIONS"
    using inv length_hm_retain_le [of "\<lambda>_ c. \<not> xc_closed c" "xr_sessions st"]
    by (auto simp: xudp_inv_def m_def)
  have fr: "hm_get m i = Some c \<Longrightarrow> g \<in> set (xc_frames c) \<Longrightarrow> xf_session g = i" for i c g
    using inv by (auto simp: xudp_inv_def m_def hm_get_retain split: option.splits if_splits)
  have "\<not> hm_contains m (xf_session f) \<and> length m < MAX_XUDP_SESSIONS \<and>
        xr_sessions st' = hm_insert (xf_session f) \<lparr>xc_closed = False, xc_frames = [f]\<rparr> m \<or>
      (\<exists>c. hm_get m (xf_session f) = Some c \<and>
        xr_sessions st' = hm_insert (xf_session f) (push_frame f c) m) \<or>
      xr_sessions st' = hm_remove (xf_session f) m"
    using step
    by (auto simp: relay_xudp_frame_def m_def [symmetric] bindr_Inr_iff with_context_Inr_iff Let_def
          split: if_splits)
  with ok len fr show ?thesis
    by (elim disjE exE conjE)
      (auto simp: xudp_inv_def hm_simps push_frame_def hm_contains_def split: if_splits
        intro: order_trans [OF length_hm_remove_le])
qed

lemma session_task_ends_inv: "xudp_inv st \<Longrightarrow> xudp_inv (session_task_ends i st)"
  by (auto simp: xudp_inv_def session_task_ends_def hm_get_modify split: if_splits)

lemma relay_xudp_response_inv:
  "xudp_inv st \<Longrightarrow> relay_xudp_response st i d p = Inr st' \<Longrightarrow> xudp_inv st'"
  by (auto simp: relay_xudp_response_def xudp_inv_def bindr_Inr_iff split: prod.splits)

lemma xudp_start_inv: "xudp_inv \<lparr>xr_sessions = [], xr_written = []\<rparr>"
  by (simp add: xudp_inv_def)

lemma xudp_reachable_inv: "xudp_reachable st \<Longrightarrow> xudp_inv st"
  by (induction rule: xudp_reachable.induct)
    (blast intro: xudp_start_inv relay_xudp_frame_inv relay_xudp_response_inv
      session_task_ends_inv)+

text \<open>
  C5. In every reachable state of an XUDP relay the table holds at most 256 sessions, with
  distinct identifiers, and every frame handed to a session's task names that session.
\<close>

theorem xudp_sessions_bounded:
  assumes "xudp_reachable st"
  shows "length (xr_sessions st) \<le> 256 \<and> distinct (map fst (xr_sessions st)) \<and>
    list_all (\<lambda>(i, c). list_all (\<lambda>f. xf_session f = i) (xc_frames c)) (xr_sessions st)"
  using xudp_reachable_inv [OF assms]
  by (auto simp: xudp_inv_def MAX_XUDP_SESSIONS_def hm_ok_def list_all_iff
        intro: hm_set_get [unfolded hm_ok_def])

theorem xudp_sessions_bounded_witness:
  "length (xr_sessions \<lparr>xr_sessions = [(7, \<lparr>xc_closed = False, xc_frames =
      [\<lparr>xf_session = 7, xf_status = 1, xf_destination = Some (Ip (V4 1) 2), xf_payload = None\<rparr>]\<rparr>)],
      xr_written = []\<rparr>) \<le> 256"
proof -
  define f where "f = \<lparr>xf_session = 7 :: u16, xf_status = 1, xf_destination = Some (Ip (V4 1) 2),
    xf_payload = None\<rparr>"
  have "relay_xudp_frame \<lparr>xe_resolves = True, xe_binds = True, xe_sends = True\<rparr>
      \<lparr>xr_sessions = [], xr_written = []\<rparr> f =
    Inr \<lparr>xr_sessions = [(7, \<lparr>xc_closed = False, xc_frames = [f]\<rparr>)], xr_written = []\<rparr>"
    by (simp add: relay_xudp_frame_def f_def hm_retain_def hm_contains_def MAX_XUDP_SESSIONS_def)
  then have "xudp_reachable \<lparr>xr_sessions = [(7, \<lparr>xc_closed = False, xc_frames = [f]\<rparr>)], xr_written = []\<rparr>"
    by (rule xudp_reachable.frame [OF xudp_reachable.start])
  from xudp_sessions_bounded [OF this] show ?thesis by simp
qed

subsection \<open>Equivalence of the cached session\<close>

lemma run_xudp_session_spec:
  assumes "xs_cached st = None \<or> xs_cached st = resolve (xs_destination st)"
  shows "run_xudp_session resolve session st es = session_spec resolve session (xs_destination st) es"
  using assms
proof (induction es arbitrary: st)
  case (Cons e es)
  obtain ev ok where e: "e = (ev, ok)" by (cases e)
  show ?case
  proof (cases ev)
    case (Frame f)
    with Cons e show ?thesis
      by (cases "xf_payload f") (auto simp: Let_def split: option.splits)
  qed (use Cons e in auto)
qed simp


subsection \<open>Datagram boundaries\<close>

definition udp_wire :: "bytes \<Rightarrow> bytes" where
  "udp_wire p = to_be_bytes (word_of_nat (length p) :: u16) @ p"

definition read_udp :: "bytes reader" where
  "read_udp = rbind (read_be :: u16 reader) (\<lambda>n. read_exact (unat n))"

interpretation udp_codec: codec udp_wire read_udp "\<lambda>p. length p \<le> 65535"
  by unfold_locales (simp add: udp_wire_def read_udp_def reader_simps unat_word_of_nat_u16)

definition received :: "udp_event list \<Rightarrow> bytes list" where
  "received es = concat (map (\<lambda>e. case e of Received p \<Rightarrow> [p] | StreamReady \<Rightarrow> []) es)"

lemma received_simps [simp]:
  "received [] = []"
  "received (StreamReady # es) = received es"
  "received (Received p # es) = p # received es"
  by (simp_all add: received_def)

lemma relay_udp_run_wire:
  assumes "list_all (\<lambda>p. length p \<le> 65535) ps" and "list_all (\<lambda>p. length p \<le> 65535) (received es)"
    and "count_list es StreamReady = length ps"
  shows "relay_udp_run \<lparr>ur_stream = concat (map udp_wire ps) @ rest, ur_sent = sent, ur_written = w\<rparr> es =
    Inr \<lparr>ur_stream = rest, ur_sent = sent @ ps, ur_written = w @ concat (map udp_wire (received es))\<rparr>"
  using assms
proof (induction es arbitrary: ps sent w)
  case (Cons e es)
  show ?case
  proof (cases e)
    case StreamReady
    with Cons.prems(3) obtain p ps' where ps: "ps = p # ps'" by (cases ps) auto
    with Cons.prems StreamReady have p: "length p \<le> 65535" by simp
    have "read_udp (udp_wire p @ (concat (map udp_wire ps') @ rest)) =
        Inr (p, concat (map udp_wire ps') @ rest)"
      using p by (rule udp_codec.dec_enc)
    with Cons StreamReady ps show ?thesis by (simp add: read_udp_def)
  next
    case (Received q)
    with Cons show ?thesis by (simp add: udp_wire_def)
  qed
qed simp

text \<open>
  UDP over the stream keeps datagram boundaries in both directions and in any interleaving:
  the socket is sent exactly the datagrams the peer framed, in order, and the stream carries the
  frames of exactly the datagrams received, which the peer's framing reads back one by one.
\<close>

theorem relay_udp_boundaries:
  assumes "list_all (\<lambda>p. length p \<le> 65535) ps" and "list_all (\<lambda>p. length p \<le> 65535) (received es)"
    and "count_list es StreamReady = length ps"
  shows "\<exists>st. relay_udp_run \<lparr>ur_stream = concat (map udp_wire ps), ur_sent = [], ur_written = []\<rparr> es = Inr st \<and>
    ur_stream st = [] \<and> ur_sent st = ps \<and>
    read_many (length (received es)) read_udp (ur_written st) = Inr (received es, [])"
  using relay_udp_run_wire [OF assms, of "[]"] udp_codec.dec_many [OF assms(2), of "[]"] by simp

theorem relay_udp_boundaries_witness:
  "\<exists>st. relay_udp_run \<lparr>ur_stream = concat (map udp_wire [[1], [2, 3]]), ur_sent = [], ur_written = []\<rparr>
      [StreamReady, Received [9], StreamReady] = Inr st \<and>
    ur_stream st = [] \<and> ur_sent st = [[1], [2, 3]] \<and>
    read_many (length (received [StreamReady, Received [9], StreamReady])) read_udp (ur_written st) =
      Inr (received [StreamReady, Received [9], StreamReady], [])"
  by (rule relay_udp_boundaries) simp_all

end
