(* ===== verification/Dns_Wire.thy ===== *)
theory Dns_Wire
  imports Net_Addr
begin

unbundle bit_operations_syntax

text \<open>
  The DNS message codec of \<^verbatim>\<open>src/src/dns/message.rs\<close>: questions, queries with the EDNS client
  subnet option, local, refused and validated responses, the walk over the resource records
  and the rewriting of their TTLs, and the extraction of addresses and of the ECH
  configuration. Positions are offsets into the message; indexing out of range is a panic of
  the model, so that totality on arbitrary bytes is a theorem.
\<close>

section \<open>Names\<close>

definition normalize :: "string \<Rightarrow> string" where
  "normalize s = to_ascii_lowercase (trim_end_matches CHR ''.'' s)"

text \<open>\<open>u16::from_be_bytes([b[i], b[i + 1]])\<close> and the 32-bit counterpart.\<close>

definition be16_at :: "bytes \<Rightarrow> nat \<Rightarrow> u16 result" where
  "be16_at b i = bindr (slice b i (i + 2)) (\<lambda>xs. Inr (from_be_bytes xs))"

definition be32_at :: "bytes \<Rightarrow> nat \<Rightarrow> u32 result" where
  "be32_at b i = bindr (slice b i (i + 4)) (\<lambda>xs. Inr (from_be_bytes xs))"

function skip_name_from :: "bytes \<Rightarrow> nat \<Rightarrow> nat \<Rightarrow> nat result" where
  "skip_name_from b p count =
    (if p \<ge> length b then Inl (Bail ''truncated DNS name'')
     else bindr (index b p) (\<lambda>n. let p1 = p + 1 in
       if n = 0 then Inr p1
       else if n AND 0xC0 = 0xC0 then
         if p1 \<ge> length b then Inl (Bail ''truncated DNS pointer'') else Inr (p1 + 1)
       else if n AND 0xC0 \<noteq> 0 \<or> n > 63 then Inl (Bail ''invalid DNS label'')
       else let p2 = p1 + unat n in
         if p2 > length b then Inl (Bail ''truncated DNS label'')
         else if count + 1 > 127 then Inl (Bail ''invalid DNS name'')
         else skip_name_from b p2 (count + 1)))"
  by pat_completeness auto
termination
  by (relation "measure (\<lambda>(b, p, count). 127 - count)") auto

declare skip_name_from.simps [simp del]

definition skip_name :: "bytes \<Rightarrow> nat \<Rightarrow> nat result" where
  "skip_name b p = skip_name_from b p 0"

text \<open>The labels of a question name, from the given position to the terminating zero.\<close>

function parse_labels :: "bytes \<Rightarrow> nat \<Rightarrow> (string list \<times> nat) result" where
  "parse_labels request position =
    bindr (with_context ''truncated DNS question'' (get request position)) (\<lambda>n.
      if unat n = 0 then Inr ([], position + 1)
      else if unat n > 63 then Inl (Bail ''compressed DNS questions are unsupported'')
      else bindr (with_context ''truncated DNS question label''
                   (get_range request (position + 1) (position + 1 + unat n))) (\<lambda>label.
        bindr (from_utf8 label) (\<lambda>text.
          bindr (parse_labels request (position + 1 + unat n)) (\<lambda>(labels, stop).
            Inr (text # labels, stop)))))"
  by pat_completeness auto
termination
  by (relation "measure (\<lambda>(r, p). length r - p)")
    (auto simp: get_Some_iff with_context_Inr_iff)

declare parse_labels.simps [simp del]

definition parse_question :: "bytes \<Rightarrow> (string \<times> u16 \<times> nat) result" where
  "parse_question request =
    bindr (if length request < 12 then Inr True
           else bindr (be16_at request 4) (\<lambda>qd. Inr (qd = 0))) (\<lambda>bad.
      if bad then Inl (Bail ''invalid DNS query'')
      else bindr (parse_labels request 12) (\<lambda>(labels, position).
        bindr (with_context ''truncated DNS question fields''
                (get_range request position (position + 4))) (\<lambda>fields.
          bindr (be16_at fields 0) (\<lambda>qtype.
            Inr (normalize (join ''.'' labels), qtype, position + 4)))))"

section \<open>Queries\<close>

fun encode_labels :: "string \<Rightarrow> string list \<Rightarrow> bytes result" where
  "encode_labels msg [] = Inr []"
| "encode_labels msg (l # ls) =
    (if l = [] \<or> length l > 63 then Inl (Bail msg)
     else bindr (encode_labels msg ls) (\<lambda>r. Inr (word_of_nat (length l) # as_bytes l @ r)))"

text \<open>
  An \<open>IpNet\<close> as the program uses it: its network address and prefix length. Parsing one is the
  parameter \<open>parse_net\<close>, which stands for \<open>parse_client_subnet\<close>'s call of the \<open>ipnet\<close> crate.
\<close>

type_synonym ipnet = "ip_addr \<times> u8"

definition append_client_subnet_opt ::
  "(string \<Rightarrow> ipnet result) \<Rightarrow> bytes \<Rightarrow> string \<Rightarrow> bytes result" where
  "append_client_subnet_opt parse_net output subnet =
    bindr (parse_net subnet) (\<lambda>(network, prefix).
      let (family, address) = (case network of
            V4 a \<Rightarrow> (1 :: u16, ipv4_octets a)
          | V6 a \<Rightarrow> (2 :: u16, ipv6_octets a));
          address_length = (unat prefix + 7) div 8 in
      if 4 + address_length > 65535 then Inl (Bail ''EDNS client subnet option is too large'')
      else bindr (slice address 0 address_length) (\<lambda>part.
        let option_length = (word_of_nat (4 + address_length) :: u16) in
        Inr (output @ [0] @ to_be_bytes (41 :: u16) @ to_be_bytes (1232 :: u16) @
             to_be_bytes (0 :: u32) @ to_be_bytes (4 + option_length) @ to_be_bytes (8 :: u16) @
             to_be_bytes option_length @ to_be_bytes family @ [prefix, 0] @ part)))"

definition build_query_with_subnet ::
  "(string \<Rightarrow> ipnet result) \<Rightarrow> u16 \<Rightarrow> string \<Rightarrow> u16 \<Rightarrow> string option \<Rightarrow> bytes result" where
  "build_query_with_subnet parse_net qid name qtype client_subnet =
    bindr (encode_labels ''invalid DNS name'' (split_on CHR ''.'' name)) (\<lambda>labels.
      let b = to_be_bytes qid @
              [1, 0, 0, 1, 0, 0, 0, 0, 0, if client_subnet = None then 0 else 1] @
              labels @ [0] @ to_be_bytes qtype @ to_be_bytes (1 :: u16) in
      case client_subnet of
        None \<Rightarrow> Inr b
      | Some subnet \<Rightarrow> append_client_subnet_opt parse_net b subnet)"

definition build_query :: "u16 \<Rightarrow> string \<Rightarrow> u16 \<Rightarrow> bytes result" where
  "build_query qid name qtype =
     build_query_with_subnet (\<lambda>_. Inl (Bail ''unused'')) qid name qtype None"

definition add_client_subnet ::
  "(string \<Rightarrow> ipnet result) \<Rightarrow> bytes \<Rightarrow> string \<Rightarrow> bytes result" where
  "add_client_subnet parse_net request subnet =
    (if length request < 12 then Inl (Bail ''invalid DNS query'')
     else bindr (be16_at request 10) (\<lambda>ar.
       if ar \<noteq> 0 then Inl (Bail ''DNS client_subnet cannot be added to a query that already has additional records'')
       else bindr (copy_at request 10 (to_be_bytes (1 :: u16))) (\<lambda>wire.
         append_client_subnet_opt parse_net wire subnet)))"

definition dns_id :: "bytes \<Rightarrow> u16 result" where
  "dns_id message =
    bindr (with_context ''truncated DNS message'' (get_range message 0 2)) (\<lambda>bs. be16_at bs 0)"

definition canonical_query :: "bytes \<Rightarrow> bytes" where
  "canonical_query request = (if length request \<ge> 2 then overwrite request 0 [0, 0] else request)"

section \<open>Responses built locally\<close>

definition address_matches :: "u16 \<Rightarrow> ip_addr \<Rightarrow> bool" where
  "address_matches qtype a =
    (case a of V4 _ \<Rightarrow> qtype = 1 | V6 _ \<Rightarrow> qtype = 28)"

definition answer_record :: "u16 \<Rightarrow> ip_addr \<Rightarrow> bytes" where
  "answer_record qtype address =
    [0xC0, 0x0C] @ to_be_bytes qtype @ to_be_bytes (1 :: u16) @ to_be_bytes (30 :: u32) @
    (case address of
       V4 a \<Rightarrow> to_be_bytes (4 :: u16) @ ipv4_octets a
     | V6 a \<Rightarrow> to_be_bytes (16 :: u16) @ ipv6_octets a)"

text \<open>\<open>local_response\<close>; the addresses \<open>resolved\<close> are what \<open>lookup_host\<close> returned.\<close>

definition local_response :: "ip_addr list result \<Rightarrow> bytes \<Rightarrow> u16 \<Rightarrow> nat \<Rightarrow> bytes result" where
  "local_response resolved request qtype question_end =
    bindr resolved (\<lambda>all_addresses.
      let addresses = filter (address_matches qtype) all_addresses in
      bindr (slice request 0 question_end) (\<lambda>r0.
      bindr (copy_at r0 2 [0x81]) (\<lambda>r1.
      bindr (copy_at r1 3 [0x80]) (\<lambda>r2.
      bindr (copy_at r2 6 (to_be_bytes (word_of_nat (length addresses) :: u16))) (\<lambda>r3.
      bindr (copy_at r3 8 [0, 0, 0, 0]) (\<lambda>r4.
        Inr (r4 @ concat (map (answer_record qtype) addresses))))))))"

definition refused_response :: "bytes \<Rightarrow> nat \<Rightarrow> bytes result" where
  "refused_response request question_end =
    bindr (with_context ''truncated DNS question'' (get_range request 0 question_end)) (\<lambda>r0.
    bindr (index r0 2) (\<lambda>b2. bindr (copy_at r0 2 [b2 OR 0x80]) (\<lambda>r1.
    bindr (index r1 3) (\<lambda>b3. bindr (copy_at r1 3 [(b3 AND 0xF0) OR 5]) (\<lambda>r2.
      copy_at r2 6 [0, 0, 0, 0, 0, 0])))))"

definition validate_response :: "u16 \<Rightarrow> bytes \<Rightarrow> unit result" where
  "validate_response expected_id response =
    (if length response < 12 then Inl (Bail ''truncated DNS response'')
     else bindr (dns_id response) (\<lambda>i.
       if i \<noteq> expected_id then Inl (Bail ''DNS response transaction ID mismatch'')
       else bindr (index response 2) (\<lambda>flags.
         if flags AND 0x80 = 0 then Inl (Bail ''DNS message is not a response'') else Inr ())))"

section \<open>Walking a response\<close>

fun skip_questions :: "string \<Rightarrow> bytes \<Rightarrow> nat \<Rightarrow> nat \<Rightarrow> nat result" where
  "skip_questions msg b 0 p = Inr p"
| "skip_questions msg b (Suc n) p =
    bindr (skip_name b p) (\<lambda>q.
      if q + 4 \<le> length b then skip_questions msg b n (q + 4) else Inl (Bail msg))"

type_synonym ttl_offset = "nat \<times> u16 \<times> u32"

fun ttl_records :: "bytes \<Rightarrow> nat \<Rightarrow> nat \<Rightarrow> ttl_offset list result" where
  "ttl_records message 0 position = Inr []"
| "ttl_records message (Suc n) position =
    bindr (skip_name message position) (\<lambda>p.
    bindr (with_context ''truncated DNS record'' (get_range message p (p + 10))) (\<lambda>header.
    bindr (be16_at header 0) (\<lambda>record_type.
    bindr (be32_at header 4) (\<lambda>ttl.
    bindr (be16_at header 8) (\<lambda>len.
      let next_position = p + (10 + unat len) in
      if next_position \<le> length message then
        bindr (ttl_records message n next_position) (\<lambda>rest. Inr ((p + 4, record_type, ttl) # rest))
      else Inl (Bail ''truncated DNS record data''))))))"

definition ttl_offsets :: "bytes \<Rightarrow> ttl_offset list result" where
  "ttl_offsets message =
    (if length message < 12 then Inl (Bail ''truncated DNS message'')
     else bindr (be16_at message 4) (\<lambda>questions.
       bindr (be16_at message 6) (\<lambda>an. bindr (be16_at message 8) (\<lambda>ns. bindr (be16_at message 10) (\<lambda>ar.
       let records = unat an + unat ns + unat ar in
       bindr (skip_questions ''truncated DNS question'' message (unat questions) 12) (\<lambda>position.
         ttl_records message records position))))))"

definition response_ttl :: "bytes \<Rightarrow> u32" where
  "response_ttl response =
    (case ttl_offsets response of
       Inl _ \<Rightarrow> 30
     | Inr offsets \<Rightarrow>
        (case map (\<lambda>(_, _, ttl). ttl) (filter (\<lambda>(_, record_type, _). record_type \<noteq> 41) offsets) of
           [] \<Rightarrow> 30
         | t # ts \<Rightarrow> fold min ts t))"

fun patch_ttls :: "(u32 \<Rightarrow> u32) \<Rightarrow> ttl_offset list \<Rightarrow> bytes \<Rightarrow> bytes result" where
  "patch_ttls g [] response = Inr response"
| "patch_ttls g ((offset, record_type, ttl) # offsets) response =
    (if record_type \<noteq> 41
     then bindr (copy_at response offset (to_be_bytes (g ttl))) (patch_ttls g offsets)
     else patch_ttls g offsets response)"

definition age_response_ttls :: "bytes \<Rightarrow> u32 \<Rightarrow> bytes result" where
  "age_response_ttls response elapsed =
    (case ttl_offsets response of
       Inl _ \<Rightarrow> Inr response
     | Inr offsets \<Rightarrow> patch_ttls (\<lambda>ttl. saturating_sub ttl elapsed) offsets response)"

definition rewrite_response_ttls :: "bytes \<Rightarrow> u32 \<Rightarrow> bytes result" where
  "rewrite_response_ttls response replacement =
    (case ttl_offsets response of
       Inl _ \<Rightarrow> Inr response
     | Inr offsets \<Rightarrow> patch_ttls (\<lambda>_. replacement) offsets response)"

section \<open>Addresses and ECH configurations\<close>

fun parse_answers ::
  "u16 \<Rightarrow> bytes \<Rightarrow> nat \<Rightarrow> nat \<Rightarrow> ip_addr list \<Rightarrow> u32 \<Rightarrow> (ip_addr list \<times> u32) result" where
  "parse_answers qtype b 0 p out ttl = Inr (out, ttl)"
| "parse_answers qtype b (Suc n) p0 out ttl =
    bindr (skip_name b p0) (\<lambda>p.
      if p + 10 > length b then Inl (Bail ''truncated DNS answer'')
      else
        bindr (be16_at b p) (\<lambda>typ. bindr (be32_at b (p + 4)) (\<lambda>record_ttl.
        bindr (be16_at b (p + 8)) (\<lambda>l. let len = unat l; p1 = p + 10 in
        if p1 + len > length b then Inl (Bail ''truncated DNS rdata'')
        else if typ = qtype then
          bindr (if typ = 1 \<and> len = 4 then
                   bindr (slice b p1 (p1 + 4)) (\<lambda>a. Inr (out @ [V4 (ipv4_from a)]))
                 else if typ = 28 \<and> len = 16 then
                   bindr (slice b p1 (p1 + 16)) (\<lambda>a. Inr (out @ [V6 (ipv6_from a)]))
                 else Inr out) (\<lambda>out'.
            parse_answers qtype b n (p1 + len) out' (min ttl record_ttl))
        else parse_answers qtype b n (p1 + len) out ttl))))"

definition parse_response :: "u16 \<Rightarrow> u16 \<Rightarrow> bytes \<Rightarrow> (ip_addr list \<times> u32) result" where
  "parse_response qid qtype b =
    bindr (if length b < 12 then Inr True else bindr (be16_at b 0) (\<lambda>i. Inr (i \<noteq> qid))) (\<lambda>bad.
      if bad then Inl (Bail ''invalid DNS response'')
      else bindr (be16_at b 2) (\<lambda>flags.
        if flags AND 0x8000 = 0 \<or> flags AND 15 \<noteq> 0 then Inl (Bail ''DNS error rcode'')
        else bindr (be16_at b 4) (\<lambda>qd. bindr (be16_at b 6) (\<lambda>an.
          bindr (skip_questions ''truncated DNS question'' b (unat qd) 12) (\<lambda>p.
            bindr (parse_answers qtype b (unat an) p [] u32_max) (\<lambda>(out, ttl).
              Inr (out, if ttl = u32_max then 30 else ttl)))))))"

text \<open>The parameters of one HTTPS record: \<open>None\<close> when no parameter has key 5.\<close>

function https_params :: "bytes \<Rightarrow> nat \<Rightarrow> nat \<Rightarrow> bytes option result" where
  "https_params message position stop =
    (if position < stop then
       bindr (with_context ''truncated DNS HTTPS parameter''
               (get_range message position (position + 4))) (\<lambda>parameter.
       bindr (be16_at parameter 0) (\<lambda>key. bindr (be16_at parameter 2) (\<lambda>vl.
       let value_length = unat vl; p = position + 4; value_end = p + value_length in
       if value_end \<le> stop then
         if key = 5 then
           if value_length = 0 then Inl (Bail ''empty ECH config in DNS HTTPS record'')
           else bindr (slice message p value_end) (\<lambda>v. Inr (Some v))
         else https_params message value_end stop
       else Inl (Bail ''truncated DNS HTTPS parameter value''))))
     else Inr None)"
  by pat_completeness auto
termination
  by (relation "measure (\<lambda>(m, p, stop). stop - p)") auto

declare https_params.simps [simp del]

fun https_answers :: "bytes \<Rightarrow> nat \<Rightarrow> nat \<Rightarrow> (bytes \<times> u32) result" where
  "https_answers message 0 p = Inl (Bail ''no ECH config found in DNS HTTPS records'')"
| "https_answers message (Suc n) p =
    bindr (skip_name message p) (\<lambda>p0.
    bindr (with_context ''truncated DNS HTTPS answer'' (get_range message p0 (p0 + 10))) (\<lambda>header.
    bindr (be16_at header 0) (\<lambda>record_type. bindr (be32_at header 4) (\<lambda>ttl.
    bindr (be16_at header 8) (\<lambda>len.
      let position = p0 + 10; stop = position + unat len in
      if stop \<le> length message then
        if record_type \<noteq> 65 then https_answers message n stop
        else if position + 2 \<le> stop then
          bindr (skip_name message (position + 2)) (\<lambda>q.
            if q > stop then Inl (Bail ''DNS HTTPS target exceeds record'')
            else bindr (https_params message q stop) (\<lambda>found.
              case found of
                Some config \<Rightarrow> Inr (config, ttl)
              | None \<Rightarrow> https_answers message n stop))
        else Inl (Bail ''truncated DNS HTTPS priority'')
      else Inl (Bail ''truncated DNS HTTPS record data''))))))"

definition parse_https_ech :: "u16 \<Rightarrow> bytes \<Rightarrow> (bytes \<times> u32) result" where
  "parse_https_ech qid message =
    bindr (if length message < 12 then Inr True
           else bindr (dns_id message) (\<lambda>i. Inr (i \<noteq> qid))) (\<lambda>bad.
      if bad then Inl (Bail ''invalid DNS HTTPS response'')
      else bindr (be16_at message 2) (\<lambda>flags.
        if flags AND 0x8000 = 0 \<or> flags AND 15 \<noteq> 0 then Inl (Bail ''DNS HTTPS error rcode'')
        else bindr (be16_at message 4) (\<lambda>questions. bindr (be16_at message 6) (\<lambda>answers.
          bindr (skip_questions ''truncated DNS HTTPS question'' message (unat questions) 12) (\<lambda>p.
            https_answers message (unat answers) p)))))"

section \<open>Panic freedom on arbitrary messages\<close>

lemma be16_at_Inr [simp]: "i + 2 \<le> length b \<Longrightarrow> be16_at b i = Inr (from_be_bytes (take 2 (drop i b)))"
  by (simp add: be16_at_def)

lemma be32_at_Inr [simp]: "i + 4 \<le> length b \<Longrightarrow> be32_at b i = Inr (from_be_bytes (take 4 (drop i b)))"
  by (simp add: be32_at_def)

lemma no_panic_be_at [panic_free]:
  "i + 2 \<le> length b \<Longrightarrow> no_panic (be16_at b i)"
  "i + 4 \<le> length b \<Longrightarrow> no_panic (be32_at b i)"
  by simp_all

lemma skip_name_from_unfold:
  "skip_name_from b p c =
    (if p \<ge> length b then Inl (Bail ''truncated DNS name'')
     else if b ! p = 0 then Inr (Suc p)
     else if b ! p AND 0xC0 = 0xC0 then
       if Suc p \<ge> length b then Inl (Bail ''truncated DNS pointer'') else Inr (Suc (Suc p))
     else if b ! p AND 0xC0 \<noteq> 0 \<or> b ! p > 63 then Inl (Bail ''invalid DNS label'')
     else if Suc (p + unat (b ! p)) > length b then Inl (Bail ''truncated DNS label'')
     else if Suc c > 127 then Inl (Bail ''invalid DNS name'')
     else skip_name_from b (Suc (p + unat (b ! p))) (Suc c))"
  by (subst skip_name_from.simps) (simp add: Let_def)

lemma skip_name_induct [case_names step]:
  assumes step: "\<And>p c. (p < length b \<Longrightarrow> Suc (p + unat (b ! p)) \<le> length b \<Longrightarrow> c < 127 \<Longrightarrow>
      P (Suc (p + unat (b ! p))) (Suc c)) \<Longrightarrow> P p c"
  shows "P p c"
proof (induction "127 - c" arbitrary: p c rule: less_induct)
  case less
  show ?case by (rule step, rule less) simp
qed

lemma no_panic_skip_name_from: "no_panic (skip_name_from b p c)"
proof (induction p c rule: skip_name_induct [of b])
  case (step p c)
  then show ?case by (subst skip_name_from_unfold) simp
qed

lemma no_panic_skip_name [panic_free]: "no_panic (skip_name b p)"
  by (simp add: skip_name_def no_panic_skip_name_from)

lemma skip_name_from_bounds:
  "skip_name_from b p c = Inr q \<Longrightarrow> p < q \<and> q \<le> length b"
proof (induction p c rule: skip_name_induct [of b])
  case (step p c)
  from step.prems step.IH show ?case
    by (subst (asm) skip_name_from_unfold) (fastforce split: if_splits)
qed

lemma skip_name_bounds: "skip_name b p = Inr q \<Longrightarrow> p < q \<and> q \<le> length b"
  unfolding skip_name_def by (rule skip_name_from_bounds)

lemma no_panic_skip_questions [panic_free]: "no_panic (skip_questions msg b n p)"
  by (induction n arbitrary: p) (auto intro!: panic_free)

lemma skip_questions_bounds:
  "skip_questions msg b n p = Inr q \<Longrightarrow> p \<le> q \<and> (p \<le> length b \<longrightarrow> q \<le> length b)"
  by (induction n arbitrary: p)
    (auto simp: bindr_Inr_iff split: if_splits dest: skip_name_bounds, fastforce dest: skip_name_bounds)

lemma no_panic_ttl_records [panic_free]: "no_panic (ttl_records b n p)"
  by (induction n arbitrary: p)
    (auto simp: Let_def with_context_Inr_iff get_range_Some_iff intro!: panic_free)

lemma no_panic_parse_answers [panic_free]: "no_panic (parse_answers qtype b n p out ttl)"
  by (induction n arbitrary: p out ttl) (auto simp: Let_def intro!: panic_free)

lemma no_panic_https_params: "no_panic (https_params m p stop)" if "stop \<le> length m"
  using that
proof (induction m p stop rule: https_params.induct)
  case (1 m p stop)
  show ?case
  proof (cases "p < stop")
    case True
    show ?thesis
      by (subst https_params.simps)
        (use True 1 in \<open>auto simp: Let_def with_context_Inr_iff get_range_Some_iff intro!: panic_free\<close>)
  next
    case False
    then show ?thesis by (subst https_params.simps) simp
  qed
qed

lemma no_panic_https_answers [panic_free]: "no_panic (https_answers m n p)"
  by (induction n arbitrary: p)
    (auto simp: Let_def with_context_Inr_iff get_range_Some_iff intro!: panic_free no_panic_https_params
      split: option.splits)

lemma no_panic_parse_labels: "no_panic (parse_labels r p)"
proof (induction r p rule: parse_labels.induct)
  case (1 r p)
  then show ?case
    by (subst parse_labels.simps) (auto intro!: panic_free split: prod.splits)
qed

lemma no_panic_ttl_offsets [panic_free]: "no_panic (ttl_offsets m)"
  by (auto simp: ttl_offsets_def Let_def intro!: panic_free)

lemma no_panic_dns_id [panic_free]: "no_panic (dns_id m)"
  by (auto simp: dns_id_def with_context_Inr_iff get_range_Some_iff intro!: panic_free)

lemma no_panic_parse_question: "no_panic (parse_question r)"
  unfolding parse_question_def
  by (auto simp: with_context_Inr_iff get_range_Some_iff split: prod.splits
      intro!: panic_free no_panic_parse_labels)

lemma no_panic_parse_response: "no_panic (parse_response i t m)"
  unfolding parse_response_def
  by (auto simp: bindr_Inr_iff split: if_splits prod.splits intro!: panic_free)

lemma no_panic_parse_https_ech: "no_panic (parse_https_ech i m)"
  unfolding parse_https_ech_def
  by (auto simp: bindr_Inr_iff split: if_splits intro!: panic_free)

lemma no_panic_validate_response: "no_panic (validate_response i m)"
  unfolding validate_response_def by (auto intro!: panic_free)

section \<open>What the walk over the records depends on\<close>

definition agree :: "bytes \<Rightarrow> bytes \<Rightarrow> nat \<Rightarrow> nat \<Rightarrow> bool" where
  "agree b b' p q \<longleftrightarrow> length b' = length b \<and> (\<forall>i. p \<le> i \<and> i < q \<longrightarrow> b' ! i = b ! i)"

lemma agree_mono: "agree b b' p q \<Longrightarrow> p \<le> p' \<Longrightarrow> q' \<le> q \<Longrightarrow> agree b b' p' q'"
  by (auto simp: agree_def)

lemma agree_take_drop:
  assumes "agree b b' p q" and "p \<le> i" and "i + n \<le> q" and "q \<le> length b"
  shows "take n (drop i b') = take n (drop i b)"
  using assms by (intro nth_equalityI) (auto simp: agree_def)

lemma skip_name_from_agree:
  "skip_name_from b p c = Inr q \<Longrightarrow> agree b b' p q \<Longrightarrow> skip_name_from b' p c = Inr q"
proof (induction p c rule: skip_name_induct [of b])
  case (step p c)
  have pq: "p < q" using step.prems(1) skip_name_from_bounds by blast
  with step.prems(2) have eq: "b' ! p = b ! p" and len: "length b' = length b"
    by (auto simp: agree_def)
  let ?p' = "Suc (p + unat (b ! p))"
  show ?case
  proof (cases "p < length b \<and> ?p' \<le> length b \<and> c < 127 \<and> b ! p \<noteq> 0 \<and> b ! p AND 0xC0 = 0
      \<and> \<not> b ! p > 63")
    case True
    then have rec: "skip_name_from b ?p' (Suc c) = Inr q"
      using step.prems(1) by (subst (asm) skip_name_from_unfold) (auto split: if_splits)
    have "agree b b' ?p' q" using step.prems(2) by (rule agree_mono) auto
    with rec True step.IH have "skip_name_from b' ?p' (Suc c) = Inr q" by simp
    with True eq len show ?thesis by (subst skip_name_from_unfold) auto
  next
    case False
    with step.prems(1) eq len show ?thesis
      by (subst (asm) skip_name_from_unfold, subst skip_name_from_unfold) (auto split: if_splits)
  qed
qed

lemma skip_name_agree: "skip_name b p = Inr q \<Longrightarrow> agree b b' p q \<Longrightarrow> skip_name b' p = Inr q"
  unfolding skip_name_def by (rule skip_name_from_agree)

lemma skip_questions_agree:
  "skip_questions msg b n p = Inr q \<Longrightarrow> agree b b' p q \<Longrightarrow> skip_questions msg b' n p = Inr q"
proof (induction n arbitrary: p)
  case (Suc n)
  then obtain r where r: "skip_name b p = Inr r" and r4: "r + 4 \<le> length b"
      and rec: "skip_questions msg b n (r + 4) = Inr q"
    by (auto simp: bindr_Inr_iff split: if_splits)
  have pr: "p < r" and rq: "r + 4 \<le> q"
    using skip_name_bounds [OF r] skip_questions_bounds [OF rec] by auto
  have "skip_name b' p = Inr r"
    using r Suc.prems(2) rq by (intro skip_name_agree [OF r] agree_mono [OF Suc.prems(2)]) auto
  moreover have "skip_questions msg b' n (r + 4) = Inr q"
    using pr by (intro Suc.IH [OF rec] agree_mono [OF Suc.prems(2)]) auto
  ultimately show ?case using r4 Suc.prems(2) by (simp add: agree_def)
qed simp

definition in_window :: "nat \<Rightarrow> ttl_offset list \<Rightarrow> bool" where
  "in_window i offs \<longleftrightarrow> (\<exists>(off, t, ttl) \<in> set offs. off \<le> i \<and> i < off + 4)"

definition windows_ok :: "bytes \<Rightarrow> nat \<Rightarrow> ttl_offset list \<Rightarrow> bool" where
  "windows_ok b p offs \<longleftrightarrow>
    (\<forall>(off, t, ttl) \<in> set offs. p + 4 < off \<and> off + 6 \<le> length b \<and>
       take 4 (drop off b) = to_be_bytes ttl) \<and>
    sorted_wrt (\<lambda>(off, _, _) (off', _, _). off + 10 < off') offs"

lemma record_header:
  assumes "q + 10 \<le> length b"
  shows "be16_at (take 10 (drop q b)) 0 = Inr (from_be_bytes (take 2 (drop q b)))"
    and "be32_at (take 10 (drop q b)) 4 = Inr (from_be_bytes (take 4 (drop (q + 4) b)))"
    and "be16_at (take 10 (drop q b)) 8 = Inr (from_be_bytes (take 2 (drop (q + 8) b)))"
  using assms by (simp_all add: drop_take add.commute)

lemma unat_be16_field:
  "unat (from_be_bytes (take 2 (drop i b)) :: u16) = be_val (take 2 (drop i b))"
  by (rule unat_from_be_bytes) simp

lemma ttl_records_Suc:
  "ttl_records b (Suc n) p = Inr offs \<longleftrightarrow>
    (\<exists>q rest. skip_name b p = Inr q \<and> q + 10 \<le> length b \<and>
       q + (10 + be_val (take 2 (drop (q + 8) b))) \<le> length b \<and>
       ttl_records b n (q + (10 + be_val (take 2 (drop (q + 8) b)))) = Inr rest \<and>
       offs = (q + 4, from_be_bytes (take 2 (drop q b)), from_be_bytes (take 4 (drop (q + 4) b))) # rest)"
    (is "?L = ?R")
proof
  assume ?L
  then show ?R
    by (auto simp: bindr_Inr_iff with_context_Inr_iff get_range_Some_iff Let_def record_header
          unat_be16_field simp del: be16_at_Inr be32_at_Inr split: if_splits)
next
  assume ?R
  then show ?L
    by (auto simp: get_range_def Let_def record_header unat_be16_field
          simp del: be16_at_Inr be32_at_Inr)
qed

lemma ttl_records_windows: "ttl_records b n p = Inr offs \<Longrightarrow> windows_ok b p offs"
proof (induction n arbitrary: p offs)
  case (Suc n)
  then obtain q rest where q: "skip_name b p = Inr q" "q + 10 \<le> length b"
      and fit: "q + (10 + be_val (take 2 (drop (q + 8) b))) \<le> length b"
      and rec: "ttl_records b n (q + (10 + be_val (take 2 (drop (q + 8) b)))) = Inr rest"
      and offs: "offs = (q + 4, from_be_bytes (take 2 (drop q b)), from_be_bytes (take 4 (drop (q + 4) b))) # rest"
    unfolding ttl_records_Suc by blast
  have pq: "p < q" using skip_name_bounds [OF q(1)] by simp
  have ttl: "to_be_bytes (from_be_bytes (take 4 (drop (q + 4) b)) :: u32) = take 4 (drop (q + 4) b)"
    using q(2) by (intro to_from_be_bytes) simp
  from Suc.IH [OF rec] pq q(2) ttl show ?case
    unfolding offs windows_ok_def by fastforce
qed (simp add: windows_ok_def)

lemma ttl_records_patched:
  assumes "ttl_records b n p = Inr offs" and "length b' = length b"
    and "\<forall>i. p \<le> i \<and> i < length b \<and> \<not> in_window i offs \<longrightarrow> b' ! i = b ! i"
    and "\<forall>(off, t, ttl) \<in> set offs. take 4 (drop off b') = to_be_bytes (h t ttl)"
  shows "ttl_records b' n p = Inr (map (\<lambda>(off, t, ttl). (off, t, h t ttl)) offs)"
  using assms
proof (induction n arbitrary: p offs)
  case (Suc n)
  let ?next = "\<lambda>q. q + (10 + be_val (take 2 (drop (q + 8) b)))"
  obtain q rest where q: "skip_name b p = Inr q" "q + 10 \<le> length b"
      and fit: "?next q \<le> length b" and rec: "ttl_records b n (?next q) = Inr rest"
      and offs: "offs = (q + 4, from_be_bytes (take 2 (drop q b)), from_be_bytes (take 4 (drop (q + 4) b))) # rest"
    using Suc.prems(1) unfolding ttl_records_Suc by blast
  have pq: "p < q" using skip_name_bounds [OF q(1)] by simp
  from ttl_records_windows [OF rec]
  have later: "\<not> in_window i rest" if "i < ?next q + 5" for i
    using that by (fastforce simp: windows_ok_def in_window_def)
  have same: "b' ! i = b ! i" if "p \<le> i" "i < ?next q" "\<not> (q + 4 \<le> i \<and> i < q + 8)" for i
    using that Suc.prems(3) fit later [of i] by (auto simp: offs in_window_def)
  have "skip_name b' p = Inr q"
    by (rule skip_name_agree [OF q(1)]) (auto simp: agree_def Suc.prems(2) intro!: same)
  moreover have "take 2 (drop q b') = take 2 (drop q b)"
    using q(2) fit pq Suc.prems(2)
    by (intro agree_take_drop [of b b' q "q + 2"]) (auto simp: agree_def intro!: same)
  moreover have "take 2 (drop (q + 8) b') = take 2 (drop (q + 8) b)"
    using q(2) fit pq Suc.prems(2)
    by (intro agree_take_drop [of b b' "q + 8" "q + 10"]) (auto simp: agree_def intro!: same)
  moreover have "ttl_records b' n (?next q) = Inr (map (\<lambda>(off, t, ttl). (off, t, h t ttl)) rest)"
  proof (rule Suc.IH [OF rec Suc.prems(2)])
    show "\<forall>i. ?next q \<le> i \<and> i < length b \<and> \<not> in_window i rest \<longrightarrow> b' ! i = b ! i"
      using Suc.prems(3) pq by (auto simp: offs in_window_def)
    show "\<forall>(off, t, ttl) \<in> set rest. take 4 (drop off b') = to_be_bytes (h t ttl)"
      using Suc.prems(4) by (auto simp: offs)
  qed
  moreover have "take 4 (drop (q + 4) b') =
      to_be_bytes (h (from_be_bytes (take 2 (drop q b))) (from_be_bytes (take 4 (drop (q + 4) b))))"
    using Suc.prems(4) by (simp add: offs)
  ultimately show ?case
    using q(2) fit Suc.prems(2) unfolding ttl_records_Suc offs by auto
qed simp

lemma patch_ttls_effect:
  assumes "windows_ok b p offs" and "length m = length b"
  shows "\<exists>m'. patch_ttls g offs m = Inr m' \<and> length m' = length m \<and>
    (\<forall>i < length m. \<not> in_window i (filter (\<lambda>(_, t, _). t \<noteq> 41) offs) \<longrightarrow> m' ! i = m ! i) \<and>
    (\<forall>(off, t, ttl) \<in> set offs. t \<noteq> 41 \<longrightarrow> take 4 (drop off m') = to_be_bytes (g ttl))"
  using assms
proof (induction offs arbitrary: m p)
  case Nil
  then show ?case by simp
next
  case (Cons x offs)
  obtain off t ttl where x: "x = (off, t, ttl)" by (cases x)
  from Cons.prems(1) have off: "off + 6 \<le> length b" and ok: "windows_ok b off offs"
    by (auto simp: windows_ok_def x)
  define m1 where "m1 = (if t \<noteq> 41 then overwrite m off (to_be_bytes (g ttl)) else m)"
  have m1: "length m1 = length m"
    using off Cons.prems(2) by (simp add: m1_def)
  have step: "patch_ttls g (x # offs) m = patch_ttls g offs m1"
    using off Cons.prems(2) by (simp add: x m1_def)
  from Cons.IH [OF ok, of m1] m1 Cons.prems(2) obtain m' where
      m': "patch_ttls g offs m1 = Inr m'" "length m' = length m"
    and outside: "\<forall>i < length m. \<not> in_window i (filter (\<lambda>(_, t, _). t \<noteq> 41) offs) \<longrightarrow> m' ! i = m1 ! i"
    and inside: "\<forall>(off, t, ttl) \<in> set offs. t \<noteq> 41 \<longrightarrow> take 4 (drop off m') = to_be_bytes (g ttl)"
    by auto
  have nth_m1: "m1 ! i = m ! i" if "i < length m" "t \<noteq> 41 \<Longrightarrow> \<not> (off \<le> i \<and> i < off + 4)" for i
    using that off Cons.prems(2) by (auto simp: m1_def nth_overwrite)
  have "take 4 (drop off m') = to_be_bytes (g ttl)" if "t \<noteq> 41"
  proof (rule nth_equalityI)
    show "length (take 4 (drop off m')) = length (to_be_bytes (g ttl))"
      using off m' Cons.prems(2) by simp
  next
    fix i assume "i < length (take 4 (drop off m'))"
    then have i: "i < 4" by simp
    then have "\<not> in_window (off + i) (filter (\<lambda>(_, t, _). t \<noteq> 41) offs)"
      using ok by (fastforce simp: windows_ok_def in_window_def)
    then have "m' ! (off + i) = m1 ! (off + i)"
      using outside off i Cons.prems(2) by auto
    also have "\<dots> = to_be_bytes (g ttl) ! i"
      using that i off Cons.prems(2) by (simp add: m1_def nth_overwrite)
    finally show "take 4 (drop off m') ! i = to_be_bytes (g ttl) ! i"
      using i off m' Cons.prems(2) by simp
  qed
  moreover have "m' ! i = m ! i"
    if "i < length m" "\<not> in_window i (filter (\<lambda>(_, t, _). t \<noteq> 41) (x # offs))" for i
  proof -
    have "\<not> in_window i (filter (\<lambda>(_, t, _). t \<noteq> 41) offs)" "t \<noteq> 41 \<Longrightarrow> \<not> (off \<le> i \<and> i < off + 4)"
      using that(2) by (auto simp: x in_window_def split: if_splits)
    with that(1) outside nth_m1 [of i] show ?thesis by simp
  qed
  ultimately show ?case
    using m' inside step by (auto simp: x)
qed

lemma patch_ttls_offsets:
  assumes "ttl_offsets m = Inr offs"
  shows "\<exists>m'. patch_ttls g offs m = Inr m' \<and> length m' = length m \<and>
    ttl_offsets m' = Inr (map (\<lambda>(off, t, ttl). (off, t, if t = 41 then ttl else g ttl)) offs) \<and>
    (\<forall>i < length m. \<not> in_window i (filter (\<lambda>(_, t, _). t \<noteq> 41) offs) \<longrightarrow> m' ! i = m ! i)"
proof -
  let ?n = "be_val (take 2 (drop 6 m)) + be_val (take 2 (drop 8 m)) + be_val (take 2 (drop 10 m))"
  let ?qd = "be_val (take 2 (drop 4 m))"
  from assms obtain p where len: "12 \<le> length m"
      and qs: "skip_questions ''truncated DNS question'' m ?qd 12 = Inr p"
      and recs: "ttl_records m ?n p = Inr offs"
    by (auto simp: ttl_offsets_def Let_def bindr_Inr_iff unat_be16_field split: if_splits)
  from skip_questions_bounds [OF qs] len have p: "12 \<le> p" "p \<le> length m" by auto
  note ok = ttl_records_windows [OF recs]
  from patch_ttls_effect [OF ok refl, of g] obtain m' where
      m': "patch_ttls g offs m = Inr m'" "length m' = length m"
    and outside: "\<forall>i < length m. \<not> in_window i (filter (\<lambda>(_, t, _). t \<noteq> 41) offs) \<longrightarrow> m' ! i = m ! i"
    and inside: "\<forall>(off, t, ttl) \<in> set offs. t \<noteq> 41 \<longrightarrow> take 4 (drop off m') = to_be_bytes (g ttl)"
    by blast
  have sub: "in_window i (filter Q offs) \<Longrightarrow> in_window i offs" for i Q
    by (auto simp: in_window_def)
  have early: "\<not> in_window i offs" if "i < p" for i
    using that ok by (fastforce simp: in_window_def windows_ok_def)
  have ag: "agree m m' 0 p"
    unfolding agree_def
  proof (intro conjI allI impI)
    fix i assume "0 \<le> i \<and> i < p"
    with early [of i] sub p outside show "m' ! i = m ! i" by (meson less_le_trans)
  qed (rule m'(2))
  have fields: "take 2 (drop i m') = take 2 (drop i m)" if "i + 2 \<le> 12" for i
    using that p by (intro agree_take_drop [OF ag]) auto
  have opt: "take 4 (drop off m') = to_be_bytes ttl" if "(off, 41, ttl) \<in> set offs" for off ttl
  proof -
    have "\<not> in_window i (filter (\<lambda>(_, t, _). t \<noteq> 41) offs)" if "off \<le> i" "i < off + 4" for i
    proof
      assume "in_window i (filter (\<lambda>(_, t, _). t \<noteq> 41) offs)"
      then obtain o2 t2 ttl2 where o2: "(o2, t2, ttl2) \<in> set offs" "t2 \<noteq> 41" "o2 \<le> i" "i < o2 + 4"
        by (auto simp: in_window_def)
      have srt: "sorted_wrt (\<lambda>(off, _, _) (off', _, _). off + 10 < off') offs"
        using ok by (simp add: windows_ok_def)
      from \<open>(off, 41, ttl) \<in> set offs\<close> o2(1) obtain j k where
        jk: "j < length offs" "k < length offs" "offs ! j = (off, 41, ttl)" "offs ! k = (o2, t2, ttl2)"
        by (metis in_set_conv_nth)
      with o2(2) consider "j < k" | "k < j" by (metis Pair_inject linorder_neqE_nat)
      then show False
        by cases (use sorted_wrt_nth_less [OF srt, of j k] sorted_wrt_nth_less [OF srt, of k j]
            jk o2 that in auto)
    qed
    then have "agree m m' off (off + 4)"
      using outside m'(2) ok \<open>(off, 41, ttl) \<in> set offs\<close> by (fastforce simp: agree_def windows_ok_def)
    then have "take 4 (drop off m') = take 4 (drop off m)"
      using ok that by (intro agree_take_drop) (auto simp: windows_ok_def)
    with ok that show ?thesis by (auto simp: windows_ok_def)
  qed
  have "skip_questions ''truncated DNS question'' m' ?qd 12 = Inr p"
    using ag by (intro skip_questions_agree [OF qs] agree_mono [OF ag]) auto
  moreover have "ttl_records m' ?n p = Inr (map (\<lambda>(off, t, ttl). (off, t, if t = 41 then ttl else g ttl)) offs)"
    using outside sub inside opt
    by (intro ttl_records_patched [OF recs m'(2), where h = "\<lambda>t ttl. if t = 41 then ttl else g ttl"]) auto
  ultimately have "ttl_offsets m' = Inr (map (\<lambda>(off, t, ttl). (off, t, if t = 41 then ttl else g ttl)) offs)"
    using len m'(2) by (simp add: ttl_offsets_def Let_def fields unat_be16_field)
  with m' outside show ?thesis by blast
qed

end
