(* ===== verification/Dns_Message.thy ===== *)
theory Dns_Message
  imports Dns_Wire
begin

unbundle bit_operations_syntax

text \<open>
  Properties of the DNS message codec of \<^verbatim>\<open>src/src/dns/message.rs\<close>: totality on arbitrary
  bytes, the effect of TTL rewriting, and that the queries and the responses the program
  builds are read back by its own parsers.
\<close>

section \<open>Questions\<close>

lemma short_label_bits:
  assumes "n \<le> (63 :: u8)"
  shows "n AND 0xC0 = 0"
proof -
  from assms have "unat n < 2 ^ 6" by (simp add: word_le_nat_alt)
  then have "take_bit 6 n = n"
    by (simp add: word_unat_eq_iff unsigned_take_bit_eq take_bit_nat_eq_self)
  then have "n AND 0xC0 = n AND (mask 6 AND 0xC0)"
    by (metis and.assoc take_bit_eq_mask)
  then show ?thesis by (simp add: mask_eq_exp_minus_1)
qed

lemma parse_labels_Inr_iff:
  "parse_labels r p = Inr (ls, stop) \<longleftrightarrow> p < length r \<and>
    (if r ! p = 0 then ls = [] \<and> stop = Suc p
     else r ! p \<le> 63 \<and> Suc p + unat (r ! p) \<le> length r \<and>
       (\<exists>l ls'. ls = l # ls' \<and> utf8_string l \<and>
         take (unat (r ! p)) (drop (Suc p) r) = as_bytes l \<and>
         parse_labels r (Suc p + unat (r ! p)) = Inr (ls', stop)))"
  by (subst parse_labels.simps)
    (auto simp: bindr_Inr_iff with_context_Inr_iff get_Some_iff get_range_Some_iff from_utf8_Inr_iff
      word_le_nat_alt unat_eq_0 split: if_splits)

lemma parse_labels_NilE:
  assumes "parse_labels r p = Inr ([], stop)"
  shows "p < length r" "r ! p = 0" "stop = Suc p"
  using assms [unfolded parse_labels_Inr_iff [of r p]] by (auto split: if_splits)

lemma parse_labels_ConsE:
  assumes "parse_labels r p = Inr (l # ls, stop)"
  shows "p < length r" "r ! p \<noteq> 0" "r ! p \<le> 63" "Suc (p + unat (r ! p)) \<le> length r" "utf8_string l"
    "take (unat (r ! p)) (drop (Suc p) r) = as_bytes l"
    "parse_labels r (Suc (p + unat (r ! p))) = Inr (ls, stop)"
  using assms [unfolded parse_labels_Inr_iff [of r p]] by (auto split: if_splits)

lemma parse_labels_stop: "parse_labels r p = Inr (ls, stop) \<Longrightarrow> p + 2 * length ls < stop \<and> stop \<le> length r"
proof (induction ls arbitrary: p)
  case Nil
  from parse_labels_NilE [OF Nil] show ?case by simp
next
  case (Cons l ls)
  note step = parse_labels_ConsE [OF Cons.prems]
  from step(2) have "0 < unat (r ! p)" by (simp add: unat_gt_0)
  with Cons.IH [OF step(7)] show ?case by simp
qed

lemma parse_labels_skip_name:
  assumes "parse_labels r p = Inr (ls, stop)" and "length ls + c \<le> 127"
    and "stop \<le> length r'" and "\<And>i. p \<le> i \<Longrightarrow> i < stop \<Longrightarrow> r' ! i = r ! i"
  shows "skip_name_from r' p c = Inr stop"
  using assms
proof (induction ls arbitrary: p c)
  case Nil
  from parse_labels_NilE [OF Nil.prems(1)] Nil.prems(3,4) show ?case
    by (subst skip_name_from_unfold) auto
next
  case (Cons l ls)
  note step = parse_labels_ConsE [OF Cons.prems(1)]
  note stop = parse_labels_stop [OF step(7)]
  have rp: "r' ! p = r ! p" using Cons.prems(4) stop by simp
  have "skip_name_from r' (Suc (p + unat (r ! p))) (Suc c) = Inr stop"
    using Cons.IH [OF step(7), of "Suc c"] Cons.prems by simp
  moreover have "r ! p AND 0xC0 = 0" by (rule short_label_bits [OF step(3)])
  ultimately show ?case
    using step stop Cons.prems(2,3)
    by (subst skip_name_from_unfold) (auto simp: rp linorder_not_less)
qed

text \<open>The labels written by \<open>encode_labels\<close> are the labels \<open>parse_labels\<close> reads.\<close>

lemma parse_labels_encode:
  assumes "encode_labels msg ls = Inr enc" and "list_all utf8_string ls"
  shows "parse_labels (pre @ enc @ 0 # rest) (length pre) = Inr (ls, length pre + length enc + 1)"
  using assms
proof (induction ls arbitrary: pre enc)
  case Nil
  then show ?case by (subst parse_labels_Inr_iff) simp
next
  case (Cons l ls)
  then obtain e where l: "l \<noteq> []" "length l \<le> 63" and e: "encode_labels msg ls = Inr e"
    and enc: "enc = word_of_nat (length l) # as_bytes l @ e"
    by (auto simp: bindr_Inr_iff split: if_splits)
  define b where "b = pre @ enc @ 0 # rest"
  have n: "unat (word_of_nat (length l) :: u8) = length l"
    using l by (simp add: unat_of_nat)
  have at: "b ! length pre = word_of_nat (length l)"
    by (simp add: b_def enc)
  have "(word_of_nat (length l) :: u8) \<noteq> 0"
    using l n by (metis length_0_conv unsigned_0)
  moreover have "(word_of_nat (length l) :: u8) \<le> 63"
    using l n by (simp add: word_le_nat_alt)
  moreover have "parse_labels b (Suc (length pre + length l)) = Inr (ls, length pre + length enc + 1)"
    using Cons.IH [of e "pre @ word_of_nat (length l) # as_bytes l"] e Cons.prems(2)
    by (simp add: b_def enc)
  ultimately have "parse_labels b (length pre) = Inr (l # ls, length pre + length enc + 1)"
    using Cons.prems(2)
    by (subst parse_labels_Inr_iff) (auto simp: at n, auto simp: b_def enc)
  then show ?case by (simp add: b_def)
qed

lemma length_encode_labels: "encode_labels msg ls = Inr e \<Longrightarrow> length e = length (concat ls) + length ls"
  by (induction ls arbitrary: e) (auto simp: bindr_Inr_iff split: if_splits)

lemma length_join: "ls \<noteq> [] \<Longrightarrow> Suc (length (join [c] ls)) = length (concat ls) + length ls"
  by (induction "[c]" ls rule: join.induct) auto

lemma append_client_subnet_opt_extends:
  "append_client_subnet_opt parse_net b subnet = Inr q \<Longrightarrow> \<exists>x. q = b @ x"
  unfolding append_client_subnet_opt_def
  by (cases "parse_net subnet"; cases "fst (projr (parse_net subnet))")
    (auto simp: bindr_Inr_iff Let_def split: if_splits)

text \<open>Reading a 16-bit field at the position where it was appended.\<close>

lemma be16_at_field:
  "i = length pre \<Longrightarrow> be16_at (pre @ to_be_bytes (w :: u16) @ rest) i = Inr w"
  by simp

text \<open>
  C7. A query that \<open>build_query_with_subnet\<close> builds is read back by \<open>parse_question\<close>: the name is
  the requested one in normal form, the type is the requested type, the question ends right
  after its fixed fields whatever EDNS option follows, and the transaction identifier is kept.
\<close>

theorem dns_query_roundtrip:
  assumes "build_query_with_subnet parse_net qid name qtype subnet = Inr q" and "utf8_string name"
  shows "parse_question q = Inr (normalize name, qtype, 18 + length name) \<and> dns_id q = Inr qid"
proof -
  let ?ls = "split_on CHR ''.'' name"
  let ?flags = "[1, 0, 0, 1, 0, 0, 0, 0, 0, if subnet = None then 0 else 1] :: bytes"
  from assms(1) obtain enc x where enc: "encode_labels ''invalid DNS name'' ?ls = Inr enc"
    and q: "q = (to_be_bytes qid @ ?flags) @ enc @ 0 # (to_be_bytes qtype @ to_be_bytes (1 :: u16) @ x)"
    by (auto simp: build_query_with_subnet_def bindr_Inr_iff Let_def split: option.splits
        dest!: append_client_subnet_opt_extends)
  have len: "length enc = Suc (length name)"
    using length_encode_labels [OF enc] length_join [of ?ls "CHR ''.''"] by (simp add: join_split_on)
  have "list_all utf8_string ?ls"
    using utf8_split_on [OF assms(2), of "CHR ''.''"]
    by (auto simp: list_all_iff is_ascii_def byte_of_char_def)
  from parse_labels_encode [OF enc this, of "to_be_bytes qid @ ?flags"] len
  have labels: "parse_labels q 12 = Inr (?ls, 14 + length name)"
    unfolding q by simp
  have fields: "get_range q (14 + length name) (18 + length name) = Some (to_be_bytes qtype @ to_be_bytes (1 :: u16))"
    using len get_range_field [of "14 + length name" "to_be_bytes qid @ ?flags @ enc @ [0]" "18 + length name"
        "to_be_bytes qtype @ to_be_bytes (1 :: u16)" x]
    unfolding q by simp
  have "be16_at q 4 = Inr 1"
    by (simp add: q from_be_bytes_def be_val_two)
  then have "parse_question q = Inr (normalize name, qtype, 18 + length name)"
    using labels fields len by (simp add: parse_question_def q join_split_on)
  moreover have "dns_id q = Inr qid"
    by (simp add: dns_id_def q get_range_def)
  ultimately show ?thesis ..
qed

theorem dns_query_roundtrip_witness:
  "\<exists>q. build_query 7 ''a.Example'' 28 = Inr q \<and> parse_question q = Inr (''a.example'', 28, 27)"
proof -
  define q where "q = (case build_query 7 ''a.Example'' 28 of Inr q \<Rightarrow> q | Inl _ \<Rightarrow> [])"
  have q: "build_query 7 ''a.Example'' 28 = Inr q"
    by (simp add: q_def build_query_def build_query_with_subnet_def)
  moreover have "utf8_string ''a.Example''"
    by (rule utf8_string_ascii) (simp add: is_ascii_def byte_of_char_def)
  ultimately have "parse_question q = Inr (normalize ''a.Example'', 28, 18 + length ''a.Example'')"
    unfolding build_query_def by (rule conjunct1 [OF dns_query_roundtrip])
  moreover have "normalize ''a.Example'' = ''a.example''"
    by code_simp
  ultimately show ?thesis using q by auto
qed

section \<open>Responses\<close>

lemma skip_name_pointer:
  "skip_name (pre @ 0xC0 # c # rest) (length pre) = Inr (length pre + 2)"
  by (simp add: skip_name_def skip_name_from_unfold [of _ "length pre"])

lemma from_be_fields [simp]:
  "from_be_bytes (to_be_bytes (x :: u16)) = x" "from_be_bytes (to_be_bytes (y :: u32)) = y"
  by simp_all

lemma parse_answers_record:
  assumes "address_matches qtype a"
  shows "parse_answers qtype (pre @ answer_record qtype a @ rest) (Suc n) (length pre) out ttl =
    parse_answers qtype (pre @ answer_record qtype a @ rest) n (length (pre @ answer_record qtype a))
      (out @ [a]) (min ttl 30)"
proof -
  obtain data where rec: "answer_record qtype a = [0xC0, 0x0C] @ to_be_bytes qtype @ to_be_bytes (1 :: u16) @
      to_be_bytes (30 :: u32) @ to_be_bytes (word_of_nat (length data) :: u16) @ data"
    and data: "(qtype = 1 \<and> (\<exists>x. a = V4 x \<and> data = ipv4_octets x)) \<or>
      (qtype = 28 \<and> (\<exists>x. a = V6 x \<and> data = ipv6_octets x))"
    using assms by (cases a) (auto simp: answer_record_def address_matches_def)
  define b where "b = pre @ answer_record qtype a @ rest"
  define p where "p = length pre + 2"
  have skip: "skip_name b (length pre) = Inr p"
    using skip_name_pointer [of pre] by (simp add: b_def rec p_def)
  have fields: "be16_at b p = Inr qtype" "be32_at b (p + 4) = Inr 30"
      "be16_at b (p + 8) = Inr (word_of_nat (length data))"
      "slice b (p + 10) (p + 10 + length data) = Inr data"
    by (simp_all add: b_def rec p_def)
  have "unat (word_of_nat (length data) :: u16) = length data" "p + (10 + length data) \<le> length b"
    using data by (auto simp: b_def rec p_def)
  moreover have "length (pre @ answer_record qtype a) = p + 10 + length data"
    by (simp add: rec p_def)
  ultimately have "parse_answers qtype b (Suc n) (length pre) out ttl =
      parse_answers qtype b n (length (pre @ answer_record qtype a)) (out @ [a]) (min ttl 30)"
    using data fields skip by (auto simp: Let_def simp del: be16_at_Inr be32_at_Inr slice_Inr length_append)
  then show ?thesis by (simp add: b_def)
qed

lemma parse_answers_records:
  assumes "list_all (address_matches qtype) as"
  shows "parse_answers qtype (pre @ concat (map (answer_record qtype) as)) (length as) (length pre) out ttl =
    Inr (out @ as, if as = [] then ttl else min ttl 30)"
  using assms
proof (induction as arbitrary: pre out ttl)
  case (Cons a as)
  then show ?case
    using Cons.IH [of "pre @ answer_record qtype a" "out @ [a]" "min ttl 30"]
    by (simp add: parse_answers_record min.assoc del: parse_answers.simps)
qed simp

lemma parse_question_Inr:
  assumes "parse_question r = Inr (name, qtype, stop)"
  obtains ls p where "parse_labels r 12 = Inr (ls, p)" "stop = p + 4" "stop \<le> length r"
  using assms
  by (auto simp: parse_question_def bindr_Inr_iff with_context_Inr_iff get_range_Some_iff split: if_splits)

lemma take_two: "i + 2 \<le> length b \<Longrightarrow> take 2 (drop i b) = [b ! i, b ! Suc i]"
  by (rule nth_equalityI) (auto simp: less_Suc_eq nth_Cons' numeral_eq_Suc)

text \<open>
  C8. The answer \<open>local_response\<close> builds from resolved addresses is one the program's own
  checks accept: for a request with one question whose name respects the 255-byte limit, it
  passes \<open>validate_response\<close> for the identifier of the request, and \<open>parse_response\<close> returns
  exactly the addresses of the requested family, in order, with the TTL of 30 seconds.
\<close>

theorem local_response_roundtrip:
  assumes q: "parse_question request = Inr (name, qtype, question_end)"
    and one: "be16_at request 4 = Inr 1" and qid: "dns_id request = Inr qid"
    and short: "question_end \<le> 12 + 255 + 4"
    and few: "length (filter (address_matches qtype) addrs) < 65536"
  shows "\<exists>r. local_response (Inr addrs) request qtype question_end = Inr r \<and>
    validate_response qid r = Inr () \<and>
    parse_response qid qtype r = Inr (filter (address_matches qtype) addrs, 30)"
proof -
  let ?as = "filter (address_matches qtype) addrs"
  let ?recs = "concat (map (answer_record qtype) ?as)"
  obtain ls p where ls: "parse_labels request 12 = Inr (ls, p)" and stop: "question_end = p + 4"
    and le: "question_end \<le> length request"
    using parse_question_Inr [OF q] .
  from parse_labels_stop [OF ls] have p: "12 + 2 * length ls < p" by simp
  define r0 where "r0 = take question_end request"
  define r1 where "r1 = overwrite (overwrite r0 2 [0x81]) 3 [0x80]"
  define r where "r = overwrite (overwrite r1 6 (to_be_bytes (word_of_nat (length ?as) :: u16))) 8 [0, 0, 0, 0]"
  have l0: "length r0 = question_end" and l1: "length r1 = question_end" and l: "length r = question_end"
    using le stop p by (simp_all add: r0_def r1_def r_def)
  have loc: "local_response (Inr addrs) request qtype question_end = Inr (r @ ?recs)"
    using le stop p l0 l1 by (simp add: local_response_def Let_def r_def r1_def r0_def)
  have nth: "r ! i = request ! i" if "i < question_end" "i < 2 \<or> i = 4 \<or> i = 5 \<or> 12 \<le> i" for i
    using that l0 l1 stop p by (auto simp: r_def r1_def nth_overwrite) (auto simp: r0_def)
  have flags: "take 2 (drop 2 (r @ ?recs)) = [0x81, 0x80]"
    using l0 l1 l stop p by (simp add: take_two) (simp add: r_def r1_def nth_overwrite)
  have count: "take 2 (drop 6 (r @ ?recs)) = to_be_bytes (word_of_nat (length ?as) :: u16)"
    using l1 l stop p by (simp add: r_def overwrite_def)
  have idf: "take 2 (r @ ?recs) = take 2 request" and qd: "take 2 (drop 4 (r @ ?recs)) = take 2 (drop 4 request)"
    using l le stop p nth take_two [of 0 request] take_two [of 0 r]
    by (simp_all add: take_two)
  have q1: "from_be_bytes (take 2 (drop 4 request)) = (1 :: u16)" and i1: "from_be_bytes (take 2 request) = qid"
    using one qid le stop p by (simp_all add: dns_id_def get_range_def)
  define b where "b = r @ ?recs"
  have len: "16 < length b"
    using l stop p by (simp add: b_def)
  have fields: "be16_at b 0 = Inr qid" "be16_at b 2 = Inr 0x8180" "be16_at b 4 = Inr 1"
      "be16_at b 6 = Inr (word_of_nat (length ?as))" "dns_id b = Inr qid" "b ! 2 = 0x81"
    using len le stop p flags count idf qd q1 i1 take_two [of 2 b]
    unfolding b_def [symmetric] by (simp_all add: dns_id_def get_range_def from_be_bytes_def [of "[129, 128]"] be_val_two)
  have "skip_name_from b 12 0 = Inr p"
    using ls short stop p l nth by (intro parse_labels_skip_name) (auto simp: nth_append b_def)
  then have qs: "skip_questions msg b (Suc 0) 12 = Inr question_end" for msg
    using stop l by (simp add: skip_name_def b_def)
  have as: "parse_answers qtype b (length ?as) question_end [] u32_max =
      Inr (?as, if ?as = [] then u32_max else 30)"
    using parse_answers_records [of qtype ?as r "[]" u32_max] l by (simp add: list_all_iff b_def)
  have "validate_response qid b = Inr ()"
    using len fields by (simp add: validate_response_def)
  moreover have "parse_response qid qtype b = Inr (?as, 30)"
    using len fields qs as few
    by (simp add: parse_response_def unat_of_nat del: be16_at_Inr skip_questions.simps)
  ultimately show ?thesis using loc unfolding b_def by blast
qed

theorem local_response_roundtrip_witness:
  "\<exists>r. local_response (Inr [V4 0x7F000001, V6 1]) [0, 7, 1, 0, 0, 1, 0, 0, 0, 0, 0, 0, 1, 97, 0, 0, 1, 0, 1] 1 19 = Inr r \<and>
    validate_response 7 r = Inr () \<and> parse_response 7 1 r = Inr ([V4 0x7F000001], 30)"
proof -
  let ?request = "[0, 7, 1, 0, 0, 1, 0, 0, 0, 0, 0, 0, 1, 97, 0, 0, 1, 0, 1] :: bytes"
  have "parse_question ?request = Inr (''a'', 1, 19)" by code_simp
  moreover have "be16_at ?request 4 = Inr 1" "dns_id ?request = Inr 7" by code_simp+
  moreover have "filter (address_matches 1) [V4 0x7F000001, V6 1] = [V4 0x7F000001]"
    by (simp add: address_matches_def)
  ultimately show ?thesis
    using local_response_roundtrip [of ?request "''a''" 1 19 7 "[V4 0x7F000001, V6 1]"] by simp
qed

section \<open>Totality\<close>

lemma no_panic_patched: "no_panic (age_response_ttls m e)" "no_panic (rewrite_response_ttls m e)"
proof -
  have "no_panic (patch_ttls g offs m)" if "ttl_offsets m = Inr offs" for g offs
    using patch_ttls_offsets [OF that, of g] by auto
  then show "no_panic (age_response_ttls m e)" "no_panic (rewrite_response_ttls m e)"
    by (simp_all add: age_response_ttls_def rewrite_response_ttls_def split: sum.split)
qed

lemma no_panic_built_response:
  assumes "parse_question m = Inr (name, qtype, question_end)"
  shows "no_panic (refused_response m question_end)"
    "no_panic (local_response (Inr addrs) m qtype' question_end)"
proof -
  obtain ls p where ls: "parse_labels m 12 = Inr (ls, p)" and stop: "question_end = p + 4"
    and le: "question_end \<le> length m"
    using parse_question_Inr [OF assms] .
  from parse_labels_stop [OF ls] have p: "12 < p" by simp
  with stop le show "no_panic (refused_response m question_end)"
      "no_panic (local_response (Inr addrs) m qtype' question_end)"
    by (simp_all add: refused_response_def local_response_def Let_def get_range_def)
qed

text \<open>
  C9. No function of the message codec can panic, whatever bytes arrive: every index and slice
  of the parsers, of the TTL rewriting and of the response builders that follow a successful
  \<open>parse_question\<close> is in range.
\<close>

theorem dns_messages_never_panic:
  "no_panic (parse_question m) \<and> no_panic (parse_response qid qtype m) \<and> no_panic (parse_https_ech qid m) \<and>
   no_panic (validate_response qid m) \<and> no_panic (ttl_offsets m) \<and> no_panic (age_response_ttls m elapsed) \<and>
   no_panic (rewrite_response_ttls m ttl) \<and>
   (case parse_question m of Inl _ \<Rightarrow> True | Inr (name, qtype', question_end) \<Rightarrow>
      no_panic (refused_response m question_end) \<and> no_panic (local_response (Inr addrs) m qtype' question_end))"
  using no_panic_parse_question no_panic_parse_response no_panic_parse_https_ech
    no_panic_validate_response no_panic_ttl_offsets no_panic_patched no_panic_built_response
  by (simp split: sum.splits)

section \<open>TTLs\<close>

lemma age_response_ttls_succeeds: "\<exists>r. age_response_ttls m e = Inr r"
proof (cases "ttl_offsets m")
  case (Inr offs)
  from patch_ttls_offsets [OF this, of "\<lambda>ttl. saturating_sub ttl e"] Inr show ?thesis
    by (auto simp: age_response_ttls_def)
qed (simp add: age_response_ttls_def)

abbreviation patched_ttls :: "(u32 \<Rightarrow> u32) \<Rightarrow> ttl_offset list \<Rightarrow> ttl_offset list" where
  "patched_ttls g \<equiv> map (\<lambda>(off, t, ttl). (off, t, if t = 41 then ttl else g ttl))"

text \<open>
  C10. Serving a cached response ages it and nothing else: on a message whose records can be
  walked, \<open>age_response_ttls\<close> succeeds, keeps the length, lowers the TTL of every record but the
  OPT pseudo-records by the elapsed seconds (stopping at zero), keeps the position and the type
  of every record, and changes no byte outside those TTL fields.
\<close>

theorem age_response_ttls_effect:
  assumes "ttl_offsets response = Inr offs"
  shows "\<exists>r. age_response_ttls response elapsed = Inr r \<and> length r = length response \<and>
    ttl_offsets r = Inr (patched_ttls (\<lambda>ttl. saturating_sub ttl elapsed) offs) \<and>
    (\<forall>i < length response. \<not> in_window i (filter (\<lambda>(_, t, _). t \<noteq> 41) offs) \<longrightarrow> r ! i = response ! i)"
  using patch_ttls_offsets [OF assms, of "\<lambda>ttl. saturating_sub ttl elapsed"]
  by (simp add: age_response_ttls_def assms)

theorem age_response_ttls_effect_witness:
  "\<exists>r. age_response_ttls [0, 7, 0x81, 0x80, 0, 0, 0, 1, 0, 0, 0, 0, 0, 0, 1, 0, 1, 0, 0, 0, 50, 0, 1, 9] 20 = Inr r \<and>
    ttl_offsets r = Inr [(17, 1, 30)]"
proof -
  let ?m = "[0, 7, 0x81, 0x80, 0, 0, 0, 1, 0, 0, 0, 0, 0, 0, 1, 0, 1, 0, 0, 0, 50, 0, 1, 9] :: bytes"
  have "ttl_offsets ?m = Inr [(17, 1, 50)]" by code_simp
  from age_response_ttls_effect [OF this, of 20] show ?thesis
    by (auto simp: saturating_sub_def)
qed

abbreviation aging_ttls :: "ttl_offset list \<Rightarrow> u32 list" where
  "aging_ttls offs \<equiv> map (\<lambda>(_, _, ttl). ttl) (filter (\<lambda>(_, t, _). t \<noteq> 41) offs)"

lemma aging_ttls_patched: "aging_ttls (patched_ttls g offs) = map g (aging_ttls offs)"
  by (induction offs) auto

lemma fold_min_mono: "mono (g :: 'b :: linorder \<Rightarrow> _) \<Longrightarrow> fold min (map g xs) (g x) = (g (fold min xs x) :: 'a :: linorder)"
  by (induction xs arbitrary: x) (simp_all add: min_of_mono)

lemma mono_saturating_sub: "mono (\<lambda>ttl. saturating_sub ttl (e :: u32))"
  by (intro monoI) (simp add: word_le_nat_alt unat_saturating_sub diff_le_mono)

lemma response_ttl_patched:
  assumes "ttl_offsets m = Inr offs" and "ttl_offsets r = Inr (patched_ttls g offs)"
    and "aging_ttls offs \<noteq> []" and "mono g"
  shows "response_ttl r = g (response_ttl m)"
proof -
  obtain x xs where xs: "aging_ttls offs = x # xs" using assms(3) by (cases "aging_ttls offs") auto
  then have "aging_ttls (patched_ttls g offs) = g x # map g xs" by (subst aging_ttls_patched) simp
  with xs assms show ?thesis by (simp add: response_ttl_def fold_min_mono)
qed

text \<open>
  The lifetime of a response follows its records: when a record other than OPT is present,
  rewriting makes the replacement the value \<open>response_ttl\<close> computes, and aging lowers that value
  by exactly the elapsed seconds, stopping at zero.
\<close>

theorem response_ttl_rewritten:
  assumes "ttl_offsets response = Inr offs" and "aging_ttls offs \<noteq> []"
  shows "(\<exists>r. rewrite_response_ttls response replacement = Inr r \<and> response_ttl r = replacement) \<and>
    (\<exists>r. age_response_ttls response elapsed = Inr r \<and>
       response_ttl r = saturating_sub (response_ttl response) elapsed)"
proof -
  from patch_ttls_offsets [OF assms(1), of "\<lambda>_. replacement"]
    response_ttl_patched [OF assms(1) _ assms(2), of _ "\<lambda>_. replacement"]
  have "\<exists>r. rewrite_response_ttls response replacement = Inr r \<and> response_ttl r = replacement"
    by (auto simp: rewrite_response_ttls_def assms(1) monoI)
  moreover from patch_ttls_offsets [OF assms(1), of "\<lambda>ttl. saturating_sub ttl elapsed"]
    response_ttl_patched [OF assms(1) _ assms(2) mono_saturating_sub, of _ elapsed]
  have "\<exists>r. age_response_ttls response elapsed = Inr r \<and>
       response_ttl r = saturating_sub (response_ttl response) elapsed"
    by (auto simp: age_response_ttls_def assms(1))
  ultimately show ?thesis ..
qed

theorem response_ttl_rewritten_witness:
  "\<exists>r. rewrite_response_ttls [0, 7, 0x81, 0x80, 0, 0, 0, 1, 0, 0, 0, 0, 0, 0, 1, 0, 1, 0, 0, 0, 50, 0, 1, 9] 600 = Inr r \<and>
    response_ttl r = 600"
proof -
  let ?m = "[0, 7, 0x81, 0x80, 0, 0, 0, 1, 0, 0, 0, 0, 0, 0, 1, 0, 1, 0, 0, 0, 50, 0, 1, 9] :: bytes"
  have "ttl_offsets ?m = Inr [(17, 1, 50)]" by code_simp
  from response_ttl_rewritten [OF this, of 600] show ?thesis by simp
qed

end
