(* ===== verification/Dns_Cache.thy ===== *)
theory Dns_Cache
  imports Dns_Message "HOL-Library.List_Lexorder" "HOL-Library.Char_ord" "HOL-Library.Product_Lexorder"
    "HOL-Library.Option_ord"
begin

text \<open>
  The DNS cache of \<^verbatim>\<open>src/src/dns/cache.rs\<close>: a hash map of entries, a heap of expiry times and a
  queue of accesses, both lazily cleaned (stale items are recognised by the version and the
  access stamp they carry). The reading of the clock is an argument of every operation. The
  contract a client relies on is the locale \<open>ttl_cache\<close>, interpreted on these operations.
\<close>

section \<open>Data\<close>

datatype cache_key =
  KLookup string u16 "string option" "string option"
| KWire bytes string
| KEch string

datatype cache_value = Addresses "ip_addr list" | Wire bytes

text \<open>The derived order of \<open>CacheKey\<close>: variants in declaration order, then the fields.\<close>

fun key_rank :: "cache_key \<Rightarrow> nat \<times> (string \<times> u16 \<times> string option \<times> string option) \<times> bytes \<times> string" where
  "key_rank (KLookup name qtype server subnet) = (0, (name, qtype, server, subnet), [], [])"
| "key_rank (KWire query server) = (1, ([], 0, None, None), query, server)"
| "key_rank (KEch name) = (2, (name, 0, None, None), [], [])"

lemma key_rank_inj: "key_rank a = key_rank b \<longleftrightarrow> a = b"
  by (cases a; cases b) auto

instantiation cache_key :: linorder
begin

definition less_eq_cache_key :: "cache_key \<Rightarrow> cache_key \<Rightarrow> bool" where
  "less_eq_cache_key a b \<longleftrightarrow> key_rank a \<le> key_rank b"

definition less_cache_key :: "cache_key \<Rightarrow> cache_key \<Rightarrow> bool" where
  "less_cache_key a b \<longleftrightarrow> key_rank a < key_rank b"

instance
  by standard (auto simp: less_eq_cache_key_def less_cache_key_def less_le key_rank_inj)

end

record cache_entry =
  ce_value :: cache_value
  ce_expires :: instant
  ce_inserted :: instant
  ce_version :: u64
  ce_last_access :: u64

text \<open>
  \<open>BinaryHeap<Reverse<(Instant, u64, CacheKey)>>\<close> is the ascending list of its elements:
  \<open>push\<close> is \<open>insort\<close>, \<open>peek\<close> and \<open>pop\<close> take the head. \<open>VecDeque\<close> is a list.
\<close>

record dns_cache =
  dc_entries :: "(cache_key, cache_entry) hashmap"
  dc_expiry :: "(instant \<times> u64 \<times> cache_key) list"
  dc_lru :: "(u64 \<times> u64 \<times> cache_key) list"
  dc_capacity :: nat
  dc_clock :: u64
  dc_disable_expire :: bool

section \<open>Operations\<close>

definition new_cache :: "nat \<Rightarrow> bool \<Rightarrow> dns_cache" where
  "new_cache capacity disable_expire =
    \<lparr>dc_entries = [], dc_expiry = [], dc_lru = [], dc_capacity = capacity, dc_clock = 0,
     dc_disable_expire = disable_expire\<rparr>"

definition usize_max :: nat where
  "usize_max = 2 ^ 64 - 1"

definition lru_limit :: "nat \<Rightarrow> nat" where
  "lru_limit capacity = max (min (capacity * 8) usize_max) 64"

definition compact_lru :: "dns_cache \<Rightarrow> dns_cache" where
  "compact_lru c =
    (if length (dc_lru c) \<le> lru_limit (dc_capacity c) then c
     else c\<lparr>dc_lru := sort_key fst
            (map (\<lambda>(key, entry). (ce_last_access entry, ce_version entry, key)) (dc_entries c))\<rparr>)"

text \<open>
  \<open>age_response_ttls\<close> works in place; it cannot panic (\<open>age_response_ttls_succeeds\<close>), so its
  result is always the first case.
\<close>

definition age_value :: "nat \<Rightarrow> cache_value \<Rightarrow> cache_value" where
  "age_value elapsed v =
    (case v of
       Addresses a \<Rightarrow> Addresses a
     | Wire response \<Rightarrow>
        (case age_response_ttls response (word_of_nat (min elapsed (2 ^ 32 - 1))) of
           Inr aged \<Rightarrow> Wire aged
         | Inl _ \<Rightarrow> Wire response))"

definition cache_get :: "instant \<Rightarrow> cache_key \<Rightarrow> dns_cache \<Rightarrow> cache_value option \<times> dns_cache" where
  "cache_get now key c =
    (case hm_get (dc_entries c) key of
       None \<Rightarrow> (None, c)
     | Some entry \<Rightarrow>
        if \<not> dc_disable_expire c \<and> ce_expires entry \<le> now
        then (None, c\<lparr>dc_entries := hm_remove key (dc_entries c)\<rparr>)
        else
          let clock = dc_clock c + 1 in
          (Some (age_value (as_secs (now - ce_inserted entry)) (ce_value entry)),
           compact_lru
             (c\<lparr>dc_clock := clock,
                dc_entries := hm_insert key (entry\<lparr>ce_last_access := clock\<rparr>) (dc_entries c),
                dc_lru := dc_lru c @ [(clock, ce_version entry, key)]\<rparr>)))"

fun purge_loop ::
  "instant \<Rightarrow> (instant \<times> u64 \<times> cache_key) list \<Rightarrow> (cache_key, cache_entry) hashmap \<Rightarrow>
   (instant \<times> u64 \<times> cache_key) list \<times> (cache_key, cache_entry) hashmap" where
  "purge_loop now [] es = ([], es)"
| "purge_loop now ((expires, version, key) # heap) es =
    (if expires \<le> now then
       purge_loop now heap
         (hm_remove_if key (\<lambda>entry. ce_version entry = version \<and> ce_expires entry \<le> now) es)
     else ((expires, version, key) # heap, es))"

definition purge_expired :: "instant \<Rightarrow> dns_cache \<Rightarrow> dns_cache" where
  "purge_expired now c =
    (if dc_disable_expire c then c
     else let (heap, es) = purge_loop now (dc_expiry c) (dc_entries c) in
       c\<lparr>dc_expiry := heap, dc_entries := es\<rparr>)"

fun evict_loop ::
  "nat \<Rightarrow> (u64 \<times> u64 \<times> cache_key) list \<Rightarrow> (cache_key, cache_entry) hashmap \<Rightarrow>
   (u64 \<times> u64 \<times> cache_key) list \<times> (cache_key, cache_entry) hashmap" where
  "evict_loop capacity [] es = ([], es)"
| "evict_loop capacity ((access, version, key) # queue) es =
    (if length es > capacity then
       evict_loop capacity queue
         (hm_remove_if key (\<lambda>entry. ce_version entry = version \<and> ce_last_access entry = access) es)
     else ((access, version, key) # queue, es))"

definition evict_lru :: "dns_cache \<Rightarrow> dns_cache" where
  "evict_lru c =
    (let (queue, es) = evict_loop (dc_capacity c) (dc_lru c) (dc_entries c) in
     c\<lparr>dc_lru := queue, dc_entries := es\<rparr>)"

definition cache_insert ::
  "instant \<Rightarrow> cache_key \<Rightarrow> cache_value \<Rightarrow> duration \<Rightarrow> dns_cache \<Rightarrow> dns_cache" where
  "cache_insert now key v ttl c0 =
    (let c = purge_expired now c0;
         clock = dc_clock c + 1;
         expires = now + ttl in
     compact_lru (evict_lru
       (c\<lparr>dc_clock := clock,
          dc_entries := hm_insert key
            \<lparr>ce_value = v, ce_expires = expires, ce_inserted = now, ce_version = clock,
             ce_last_access = clock\<rparr> (dc_entries c),
          dc_expiry := insort (expires, clock, key) (dc_expiry c),
          dc_lru := dc_lru c @ [(clock, clock, key)]\<rparr>)))"

section \<open>Persistence\<close>

text \<open>
  \<open>PersistentKey\<close> and \<open>PersistentValue\<close> have the constructors and fields of \<open>CacheKey\<close> and
  \<open>CacheValue\<close> with owned strings, so the same types serve for both.
\<close>

record persistent_entry =
  pe_key :: cache_key
  pe_value :: cache_value
  pe_expires_at :: nat

text \<open>
  \<open>snapshot\<close>: \<open>unix_now\<close> is the system clock in seconds, \<open>instant_now key\<close> the monotonic clock
  as read while the entry of \<open>key\<close> is visited.
\<close>

fun persist ::
  "nat \<Rightarrow> (cache_key \<Rightarrow> instant) \<Rightarrow> cache_key \<times> cache_entry \<Rightarrow> persistent_entry option" where
  "persist unix_now instant_now (key, entry) =
    (let remaining = as_secs (ce_expires entry - instant_now key) in
     if remaining = 0 then None
     else Some \<lparr>pe_key = key, pe_value = ce_value entry, pe_expires_at = unix_now + remaining\<rparr>)"

definition snapshot :: "nat \<Rightarrow> (cache_key \<Rightarrow> instant) \<Rightarrow> dns_cache \<Rightarrow> persistent_entry list" where
  "snapshot unix_now instant_now c = List.map_filter (persist unix_now instant_now) (dc_entries c)"

fun restore :: "nat \<Rightarrow> (cache_key \<Rightarrow> instant) \<Rightarrow> persistent_entry list \<Rightarrow> dns_cache \<Rightarrow> dns_cache" where
  "restore unix_now instant_now [] c = c"
| "restore unix_now instant_now (e # es) c =
    (let remaining = pe_expires_at e - unix_now in
     restore unix_now instant_now es
       (if remaining = 0 then c
        else cache_insert (instant_now (pe_key e)) (pe_key e) (pe_value e) (from_secs remaining) c))"

section \<open>The invariant\<close>

text \<open>Every entry has its current stamp in the access queue and its expiry in the heap.\<close>

definition queued :: "(cache_key, cache_entry) hashmap \<Rightarrow> (u64 \<times> u64 \<times> cache_key) list \<Rightarrow> bool" where
  "queued es q \<longleftrightarrow>
    (\<forall>k e. hm_get es k = Some e \<longrightarrow> (ce_last_access e, ce_version e, k) \<in> set q)"

definition heaped :: "(cache_key, cache_entry) hashmap \<Rightarrow> (instant \<times> u64 \<times> cache_key) list \<Rightarrow> bool" where
  "heaped es h \<longleftrightarrow>
    (\<forall>k e. hm_get es k = Some e \<longrightarrow> (ce_expires e, ce_version e, k) \<in> set h)"

definition cache_inv :: "dns_cache \<Rightarrow> bool" where
  "cache_inv c \<longleftrightarrow>
    hm_ok (dc_entries c) \<and> queued (dc_entries c) (dc_lru c) \<and>
    heaped (dc_entries c) (dc_expiry c) \<and> sorted (dc_expiry c) \<and>
    length (dc_entries c) \<le> dc_capacity c \<and> dc_capacity c \<le> usize_max \<and>
    length (dc_lru c) \<le> lru_limit (dc_capacity c)"

lemma queued_sub:
  "queued es q \<Longrightarrow> (\<And>k e. hm_get es' k = Some e \<Longrightarrow> hm_get es k = Some e) \<Longrightarrow> queued es' q"
  by (auto simp: queued_def)

lemma heaped_sub:
  "heaped es h \<Longrightarrow> (\<And>k e. hm_get es' k = Some e \<Longrightarrow> hm_get es k = Some e) \<Longrightarrow> heaped es' h"
  by (auto simp: heaped_def)

lemma hm_get_remove_sub: "hm_get (hm_remove key es) k = Some e \<Longrightarrow> hm_get es k = Some e"
  by (simp add: hm_get_remove split: if_splits)

lemma queued_Nil: "queued es [] \<Longrightarrow> es = []"
proof (rule ccontr)
  assume "queued es []" "es \<noteq> []"
  then obtain k v es' where es: "es = (k, v) # es'" by (cases es) auto
  then have "hm_get es k = Some v" by simp
  with \<open>queued es []\<close> show False by (auto simp: queued_def)
qed

lemma evict_step_queued:
  "queued es ((access, version, key) # q) \<Longrightarrow>
   queued (hm_remove_if key (\<lambda>e. ce_version e = version \<and> ce_last_access e = access) es) q"
  by (auto simp: queued_def hm_get_remove_if_Some)

lemma evict_loop_spec:
  assumes "hm_ok es" and "queued es q" and "evict_loop cap q es = (q', es')"
  shows "hm_ok es' \<and> queued es' q' \<and> length es' \<le> cap \<and> length q' \<le> length q \<and>
    (\<forall>k e. hm_get es' k = Some e \<longrightarrow> hm_get es k = Some e)"
  using assms
proof (induction cap q es rule: evict_loop.induct)
  case (1 cap es)
  then show ?case using queued_Nil [of es] by auto
next
  case (2 cap access version key q es)
  show ?case
  proof (cases "length es > cap")
    case True
    let ?es = "hm_remove_if key (\<lambda>e. ce_version e = version \<and> ce_last_access e = access) es"
    have "hm_ok ?es" using 2(2) by simp
    from 2(1) [OF True this evict_step_queued [OF 2(3)]] 2(4) True show ?thesis
      by (auto simp: hm_get_remove_if_Some)
  next
    case False
    with 2 show ?thesis by auto
  qed
qed

lemma purge_loop_spec:
  assumes "hm_ok es" and "heaped es h" and "sorted h" and "purge_loop now h es = (h', es')"
  shows "hm_ok es' \<and> heaped es' h' \<and> sorted h' \<and> length es' \<le> length es \<and>
    (\<forall>k e. hm_get es' k = Some e \<longleftrightarrow> hm_get es k = Some e \<and> now < ce_expires e)"
  using assms
proof (induction now h es rule: purge_loop.induct)
  case (1 now es)
  then have "hm_get es k = None" for k by (cases "hm_get es k") (auto simp: heaped_def)
  with 1 show ?case by simp
next
  case (2 now expires version key h es)
  show ?case
  proof (cases "expires \<le> now")
    case True
    let ?es = "hm_remove_if key (\<lambda>e. ce_version e = version \<and> ce_expires e \<le> now) es"
    have ok: "hm_ok ?es" "heaped ?es h" "sorted h"
      using 2 True by (auto simp: heaped_def hm_get_remove_if_Some)
    from 2(1) [OF True this] 2(5) True show ?thesis
      by (auto simp: hm_get_remove_if_Some intro: le_trans [OF _ length_hm_remove_if_le])
  next
    case False
    have "now < ce_expires e" if "hm_get es k = Some e" for k e
      using 2(3,4) False that by (fastforce simp: heaped_def less_eq_prod_def)
    then show ?thesis
      using 2 False by auto
  qed
qed

text \<open>The parts of the invariant that hold between the steps of an operation.\<close>

definition cache_core :: "dns_cache \<Rightarrow> bool" where
  "cache_core c \<longleftrightarrow>
    hm_ok (dc_entries c) \<and> queued (dc_entries c) (dc_lru c) \<and>
    heaped (dc_entries c) (dc_expiry c) \<and> sorted (dc_expiry c) \<and> dc_capacity c \<le> usize_max"

lemma cache_inv_core:
  "cache_inv c \<longleftrightarrow> cache_core c \<and> length (dc_entries c) \<le> dc_capacity c \<and>
    length (dc_lru c) \<le> lru_limit (dc_capacity c)"
  by (auto simp: cache_inv_def cache_core_def)

lemma purge_expired_core:
  assumes "cache_core c"
  shows "cache_core (purge_expired now c)" "length (dc_entries (purge_expired now c)) \<le> length (dc_entries c)"
    "hm_get (dc_entries (purge_expired now c)) k = Some e \<longleftrightarrow>
      hm_get (dc_entries c) k = Some e \<and> (dc_disable_expire c \<or> now < ce_expires e)"
    "dc_lru (purge_expired now c) = dc_lru c" "dc_capacity (purge_expired now c) = dc_capacity c"
    "dc_clock (purge_expired now c) = dc_clock c" "dc_disable_expire (purge_expired now c) = dc_disable_expire c"
proof -
  obtain h es where l: "purge_loop now (dc_expiry c) (dc_entries c) = (h, es)" by force
  from assms purge_loop_spec [OF _ _ _ l] have spec: "hm_ok es" "heaped es h" "sorted h"
    "length es \<le> length (dc_entries c)"
    "hm_get es k = Some e \<longleftrightarrow> hm_get (dc_entries c) k = Some e \<and> now < ce_expires e" for k e
    by (auto simp: cache_core_def)
  then have "queued es (dc_lru c)"
    using assms by (auto simp: cache_core_def queued_def)
  with spec assms show "cache_core (purge_expired now c)"
      "length (dc_entries (purge_expired now c)) \<le> length (dc_entries c)"
      "hm_get (dc_entries (purge_expired now c)) k = Some e \<longleftrightarrow>
      hm_get (dc_entries c) k = Some e \<and> (dc_disable_expire c \<or> now < ce_expires e)"
      "dc_lru (purge_expired now c) = dc_lru c" "dc_capacity (purge_expired now c) = dc_capacity c"
      "dc_clock (purge_expired now c) = dc_clock c" "dc_disable_expire (purge_expired now c) = dc_disable_expire c"
    by (auto simp: purge_expired_def l cache_core_def)
qed

lemma evict_lru_core:
  assumes "cache_core c"
  shows "cache_core (evict_lru c)" "length (dc_entries (evict_lru c)) \<le> dc_capacity c"
    "length (dc_lru (evict_lru c)) \<le> length (dc_lru c)"
    "hm_get (dc_entries (evict_lru c)) k = Some e \<Longrightarrow> hm_get (dc_entries c) k = Some e"
    "dc_expiry (evict_lru c) = dc_expiry c" "dc_capacity (evict_lru c) = dc_capacity c"
    "dc_clock (evict_lru c) = dc_clock c" "dc_disable_expire (evict_lru c) = dc_disable_expire c"
proof -
  obtain q es where l: "evict_loop (dc_capacity c) (dc_lru c) (dc_entries c) = (q, es)" by force
  from assms evict_loop_spec [OF _ _ l] have spec: "hm_ok es" "queued es q"
    "length es \<le> dc_capacity c" "length q \<le> length (dc_lru c)"
    "hm_get es k = Some e \<Longrightarrow> hm_get (dc_entries c) k = Some e" for k e
    by (auto simp: cache_core_def)
  then have "heaped es (dc_expiry c)"
    using assms by (auto simp: cache_core_def heaped_def)
  with spec assms show "cache_core (evict_lru c)" "length (dc_entries (evict_lru c)) \<le> dc_capacity c"
    "length (dc_lru (evict_lru c)) \<le> length (dc_lru c)"
    "hm_get (dc_entries (evict_lru c)) k = Some e \<Longrightarrow> hm_get (dc_entries c) k = Some e"
    "dc_expiry (evict_lru c) = dc_expiry c" "dc_capacity (evict_lru c) = dc_capacity c"
    "dc_clock (evict_lru c) = dc_clock c" "dc_disable_expire (evict_lru c) = dc_disable_expire c"
    by (auto simp: evict_lru_def l cache_core_def)
qed

lemma compact_lru_fields [simp]:
  "dc_entries (compact_lru c) = dc_entries c" "dc_expiry (compact_lru c) = dc_expiry c"
  "dc_capacity (compact_lru c) = dc_capacity c" "dc_clock (compact_lru c) = dc_clock c"
  "dc_disable_expire (compact_lru c) = dc_disable_expire c"
  by (simp_all add: compact_lru_def)

lemma compact_lru_inv:
  assumes "cache_core c" and "length (dc_entries c) \<le> dc_capacity c"
  shows "cache_inv (compact_lru c)"
proof -
  have "dc_capacity c \<le> lru_limit (dc_capacity c)"
    using assms(1) by (auto simp: lru_limit_def cache_core_def max_def min_def)
  moreover have "queued (dc_entries c)
      (sort_key fst (map (\<lambda>(key, entry). (ce_last_access entry, ce_version entry, key)) (dc_entries c)))"
    by (force simp: queued_def dest: hm_get_set)
  ultimately show ?thesis
    using assms by (auto simp: cache_inv_core cache_core_def compact_lru_def)
qed

lemma cache_inv_new: "capacity \<le> usize_max \<Longrightarrow> cache_inv (new_cache capacity disable)"
  by (simp add: cache_inv_def new_cache_def queued_def heaped_def)

lemma cache_core_remove:
  assumes "cache_core c"
  shows "cache_core (c\<lparr>dc_entries := hm_remove key (dc_entries c)\<rparr>)"
  using assms
  by (auto simp: cache_core_def intro: queued_sub heaped_sub dest: hm_get_remove_sub)

lemma cache_core_touch:
  assumes "cache_core c" and "hm_get (dc_entries c) key = Some e"
  shows "cache_core (c\<lparr>dc_clock := t, dc_entries := hm_insert key (e\<lparr>ce_last_access := t\<rparr>) (dc_entries c),
      dc_lru := dc_lru c @ [(t, ce_version e, key)]\<rparr>)"
  using assms by (auto simp: cache_core_def queued_def heaped_def hm_get_insert)

lemma cache_get_inv:
  assumes "cache_inv c"
  shows "cache_inv (snd (cache_get now key c))"
proof (cases "hm_get (dc_entries c) key")
  case None
  with assms show ?thesis by (simp add: cache_get_def)
next
  case (Some e)
  then have "hm_contains (dc_entries c) key" by (simp add: hm_contains_def)
  then have len: "length (hm_insert key v (dc_entries c)) = length (dc_entries c)" for v
    using assms by (simp add: length_hm_insert cache_inv_def)
  from assms have core: "cache_core c" and "length (dc_entries c) \<le> dc_capacity c"
      and "length (dc_lru c) \<le> lru_limit (dc_capacity c)"
    by (auto simp: cache_inv_core)
  moreover from this(1,2) have "cache_inv (compact_lru (c\<lparr>dc_clock := t,
      dc_entries := hm_insert key (e\<lparr>ce_last_access := t\<rparr>) (dc_entries c),
      dc_lru := dc_lru c @ [(t, ce_version e, key)]\<rparr>))" for t
    by (intro compact_lru_inv cache_core_touch Some) (simp_all add: len)
  moreover from calculation have "cache_inv (c\<lparr>dc_entries := hm_remove key (dc_entries c)\<rparr>)"
    using cache_core_remove [OF core] le_trans [OF length_hm_remove_le] by (simp add: cache_inv_core)
  ultimately show ?thesis
    using Some by (simp add: cache_get_def Let_def)
qed

definition inserted_cache ::
  "instant \<Rightarrow> cache_key \<Rightarrow> cache_value \<Rightarrow> duration \<Rightarrow> dns_cache \<Rightarrow> dns_cache" where
  "inserted_cache now key v ttl c =
    c\<lparr>dc_clock := dc_clock c + 1,
      dc_entries := hm_insert key
        \<lparr>ce_value = v, ce_expires = now + ttl, ce_inserted = now, ce_version = dc_clock c + 1,
         ce_last_access = dc_clock c + 1\<rparr> (dc_entries c),
      dc_expiry := insort (now + ttl, dc_clock c + 1, key) (dc_expiry c),
      dc_lru := dc_lru c @ [(dc_clock c + 1, dc_clock c + 1, key)]\<rparr>"

lemma cache_insert_steps:
  "cache_insert now key v ttl c = compact_lru (evict_lru (inserted_cache now key v ttl (purge_expired now c)))"
  by (simp add: cache_insert_def inserted_cache_def Let_def)

lemma inserted_cache_core: "cache_core c \<Longrightarrow> cache_core (inserted_cache now key v ttl c)"
  by (auto simp: cache_core_def inserted_cache_def queued_def heaped_def hm_get_insert set_insort_key sorted_insort)

lemma cache_insert_inv:
  assumes "cache_inv c"
  shows "cache_inv (cache_insert now key v ttl c)"
proof -
  from assms have "cache_core (inserted_cache now key v ttl (purge_expired now c))"
    by (intro inserted_cache_core purge_expired_core) (simp add: cache_inv_core)
  with evict_lru_core [OF this] show ?thesis
    by (auto simp: cache_insert_steps intro: compact_lru_inv)
qed

text \<open>What an insertion may leave in the cache.\<close>

lemma cache_insert_entries:
  assumes "cache_inv c" and "hm_get (dc_entries (cache_insert now key v ttl c)) k = Some e"
  shows "if k = key then ce_value e = v \<and> ce_expires e = now + ttl \<and> ce_inserted e = now
    else hm_get (dc_entries c) k = Some e \<and> (dc_disable_expire c \<or> now < ce_expires e)"
proof -
  from assms(1) have core: "cache_core c" by (simp add: cache_inv_core)
  note purged = purge_expired_core [OF core, of now]
  from assms(2) evict_lru_core(4) [OF inserted_cache_core [OF purged(1), of now key v ttl], of k e]
  have "hm_get (dc_entries (inserted_cache now key v ttl (purge_expired now c))) k = Some e"
    by (simp add: cache_insert_steps)
  then show ?thesis
    using purged(3) by (auto simp: inserted_cache_def hm_get_insert split: if_splits)
qed

section \<open>Least recently used\<close>

text \<open>
  The stamps of the access queue increase as long as the 64-bit clock has not wrapped around.
\<close>

definition lru_ordered :: "dns_cache \<Rightarrow> bool" where
  "lru_ordered c \<longleftrightarrow> sorted_wrt (<) (map fst (dc_lru c)) \<and> (\<forall>x \<in> set (dc_lru c). fst x \<le> dc_clock c)"

lemma clock_next:
  assumes "(t :: u64) \<noteq> - 1"
  shows "t < t + 1"
proof -
  from assms have "1 + t \<noteq> 0" by (metis add.inverse_unique)
  then show ?thesis by (simp add: word_less_nat_alt unatSuc add.commute)
qed

lemma evict_loop_one:
  assumes "hm_ok es" and "queued es q" and "sorted_wrt (<) (map fst q)" and "length es = Suc cap"
  shows "\<exists>pre q' v e. evict_loop cap q es = (q', hm_remove v es) \<and> q = pre @ q' \<and>
    hm_get es v = Some e \<and> (\<forall>k e'. hm_get es k = Some e' \<longrightarrow> ce_last_access e \<le> ce_last_access e')"
  using assms
proof (induction q)
  case Nil
  then show ?case using queued_Nil by force
next
  case (Cons x q)
  obtain access version key where x: "x = (access, version, key)" by (cases x)
  show ?case
  proof (cases "\<exists>e. hm_get es key = Some e \<and> ce_version e = version \<and> ce_last_access e = access")
    case True
    then obtain e where e: "hm_get es key = Some e" "ce_version e = version" "ce_last_access e = access"
      by auto
    then have "length (hm_remove key es) = cap"
      using Cons.prems by (simp add: length_hm_remove hm_contains_def)
    then have "evict_loop cap q (hm_remove key es) = (q, hm_remove key es)"
      by (cases q) auto
    moreover have "ce_last_access e \<le> ce_last_access e'" if "hm_get es k = Some e'" for k e'
    proof (cases "k = key")
      case False
      with that Cons.prems(2) have "(ce_last_access e', ce_version e', k) \<in> set q"
        by (auto simp: queued_def x)
      with Cons.prems(3) e show ?thesis by (force simp: x)
    qed (use that e in simp)
    ultimately show ?thesis
      using e Cons.prems(4)
      by (intro exI [of _ "[x]"] exI [of _ q] exI [of _ key] exI [of _ e])
        (simp add: x hm_remove_if_def)
  next
    case False
    then have same: "hm_remove_if key (\<lambda>e. ce_version e = version \<and> ce_last_access e = access) es = es"
      by (auto simp: hm_remove_if_def split: option.splits)
    with evict_step_queued [of es access version key q] Cons.prems(2) have "queued es q"
      by (simp add: x)
    with Cons obtain pre q' v e where "evict_loop cap q es = (q', hm_remove v es)" "q = pre @ q'"
        "hm_get es v = Some e" "\<forall>k e'. hm_get es k = Some e' \<longrightarrow> ce_last_access e \<le> ce_last_access e'"
      by auto
    then show ?thesis
      using Cons.prems(4) same
      by (intro exI [of _ "x # pre"] exI [of _ q'] exI [of _ v] exI [of _ e]) (simp add: x)
  qed
qed

lemma lru_ordered_new: "lru_ordered (new_cache capacity disable)"
  by (simp add: lru_ordered_def new_cache_def)

lemma lru_ordered_push:
  assumes "lru_ordered c" and "dc_clock c \<noteq> - 1"
  shows "sorted_wrt (<) (map fst (dc_lru c @ [(dc_clock c + 1, w, key)]))"
    "\<forall>x \<in> set (dc_lru c @ [(dc_clock c + 1, w, key)]). fst x \<le> dc_clock c + 1"
  using assms clock_next [OF assms(2)]
  by (auto simp: lru_ordered_def sorted_wrt_append intro: order.strict_trans1 less_imp_le order_trans)

text \<open>Entries with distinct keys have distinct stamps, so the rebuilt queue is strictly ordered.\<close>

lemma lru_ordered_compact:
  assumes "cache_core c" and "lru_ordered c"
  shows "lru_ordered (compact_lru c)"
proof (cases "length (dc_lru c) \<le> lru_limit (dc_capacity c)")
  case False
  let ?items = "map (\<lambda>(key, entry). (ce_last_access entry, ce_version entry, key)) (dc_entries c)"
  have sub: "set ?items \<subseteq> set (dc_lru c)"
    using assms(1) by (force simp: cache_core_def queued_def dest: hm_set_get)
  have "inj_on fst (set (dc_lru c))"
    using assms(2) by (auto simp: lru_ordered_def strict_sorted_iff distinct_map)
  then have "inj_on fst (set ?items)" using sub by (rule inj_on_subset)
  moreover have "distinct ?items"
    using assms(1)
    by (auto simp: cache_core_def hm_ok_def distinct_map intro!: inj_onI) (metis fst_conv inj_onD prod.inject)
  ultimately have "distinct (map fst (sort_key fst ?items))"
    by (simp add: distinct_map)
  then have "sorted_wrt (<) (map fst (sort_key fst ?items))"
    by (simp add: strict_sorted_iff)
  moreover have "\<forall>x \<in> set (sort_key fst ?items). fst x \<le> dc_clock c"
    using assms(2) sub by (auto simp: lru_ordered_def)
  ultimately show ?thesis
    using False by (simp add: lru_ordered_def compact_lru_def)
qed (use assms in \<open>simp add: compact_lru_def\<close>)

lemma cache_get_ordered:
  assumes "cache_inv c" and "lru_ordered c" and "dc_clock c \<noteq> - 1"
  shows "lru_ordered (snd (cache_get now key c))"
proof (cases "hm_get (dc_entries c) key")
  case (Some e)
  from assms(1) have core: "cache_core c" by (simp add: cache_inv_core)
  have "lru_ordered (compact_lru (c\<lparr>dc_clock := dc_clock c + 1,
      dc_entries := hm_insert key (e\<lparr>ce_last_access := dc_clock c + 1\<rparr>) (dc_entries c),
      dc_lru := dc_lru c @ [(dc_clock c + 1, ce_version e, key)]\<rparr>))"
    using lru_ordered_push [OF assms(2,3)]
    by (intro lru_ordered_compact cache_core_touch core Some) (simp add: lru_ordered_def)
  with Some assms(2) show ?thesis
    by (simp add: cache_get_def Let_def lru_ordered_def)
qed (use assms in \<open>simp add: cache_get_def\<close>)

lemma evict_loop_suffix: "evict_loop cap q es = (q', es') \<Longrightarrow> \<exists>pre. q = pre @ q'"
proof (induction cap q es rule: evict_loop.induct)
  case (2 cap access version key q es)
  show ?case
  proof (cases "length es > cap")
    case True
    with 2 obtain pre where "q = pre @ q'" by auto
    then show ?thesis by (intro exI [of _ "(access, version, key) # pre"]) simp
  qed (use 2 in auto)
qed auto

lemma cache_insert_ordered:
  assumes "cache_inv c" and "lru_ordered c" and "dc_clock c \<noteq> - 1"
  shows "lru_ordered (cache_insert now key v ttl c)"
proof -
  from assms(1) have core: "cache_core c" by (simp add: cache_inv_core)
  note purged = purge_expired_core [OF core, of now]
  let ?c = "inserted_cache now key v ttl (purge_expired now c)"
  have "lru_ordered ?c"
    using lru_ordered_push [OF assms(2,3)] purged by (simp add: inserted_cache_def lru_ordered_def)
  moreover obtain q es where l: "evict_loop (dc_capacity ?c) (dc_lru ?c) (dc_entries ?c) = (q, es)" by force
  moreover obtain pre where "dc_lru ?c = pre @ q" using evict_loop_suffix [OF l] by auto
  ultimately have "lru_ordered (evict_lru ?c)"
    by (auto simp: lru_ordered_def evict_lru_def sorted_wrt_append)
  with evict_lru_core(1) [OF inserted_cache_core [OF purged(1)]] show ?thesis
    by (auto simp: cache_insert_steps intro: lru_ordered_compact)
qed

definition new_entry :: "instant \<Rightarrow> cache_value \<Rightarrow> duration \<Rightarrow> u64 \<Rightarrow> cache_entry" where
  "new_entry now v ttl t =
    \<lparr>ce_value = v, ce_expires = now + ttl, ce_inserted = now, ce_version = t, ce_last_access = t\<rparr>"

lemma new_entry_fields [simp]:
  "ce_value (new_entry now v ttl t) = v" "ce_expires (new_entry now v ttl t) = now + ttl"
  "ce_inserted (new_entry now v ttl t) = now" "ce_last_access (new_entry now v ttl t) = t"
  by (simp_all add: new_entry_def)

lemma evict_loop_room: "length es \<le> cap \<Longrightarrow> evict_loop cap q es = (q, es)"
  by (cases q) auto

text \<open>An insertion for which there is room, or which replaces an entry, evicts nothing.\<close>

lemma cache_insert_room:
  assumes "cache_inv c"
    and "hm_contains (dc_entries (purge_expired now c)) key \<or>
      length (dc_entries (purge_expired now c)) < dc_capacity c"
  shows "dc_entries (cache_insert now key v ttl c) =
    hm_insert key (new_entry now v ttl (dc_clock c + 1)) (dc_entries (purge_expired now c))"
proof -
  from assms(1) have core: "cache_core c" and len: "length (dc_entries c) \<le> dc_capacity c"
    by (simp_all add: cache_inv_core)
  note purged = purge_expired_core [OF core, of now]
  have "hm_ok (dc_entries (purge_expired now c))" using purged(1) by (simp add: cache_core_def)
  then have "length (dc_entries (inserted_cache now key v ttl (purge_expired now c))) \<le> dc_capacity c"
    using assms(2) purged(2) len by (auto simp: inserted_cache_def length_hm_insert)
  then show ?thesis
    using purged by (simp add: cache_insert_steps evict_lru_def evict_loop_room) (simp add: inserted_cache_def new_entry_def evict_loop_room)
qed

lemma cache_insert_full:
  assumes "cache_inv c" and "lru_ordered c" and "dc_clock c \<noteq> - 1" and "0 < dc_capacity c"
    and "\<not> hm_contains (dc_entries (purge_expired now c)) key"
    and "length (dc_entries (purge_expired now c)) = dc_capacity c"
  defines "es \<equiv> dc_entries (purge_expired now c)"
  shows "\<exists>victim e. victim \<noteq> key \<and> hm_get es victim = Some e \<and>
    (\<forall>k e'. hm_get es k = Some e' \<longrightarrow> ce_last_access e \<le> ce_last_access e') \<and>
    dc_entries (cache_insert now key v ttl c) =
      hm_remove victim (hm_insert key (new_entry now v ttl (dc_clock c + 1)) es)"
proof -
  from assms(1) have core: "cache_core c" by (simp add: cache_inv_core)
  note purged = purge_expired_core [OF core, of now]
  let ?new = "new_entry now v ttl (dc_clock c + 1)"
  let ?c = "inserted_cache now key v ttl (purge_expired now c)"
  have ok: "hm_ok es" and q: "queued es (dc_lru c)"
    using purged(1,4) by (simp_all add: cache_core_def es_def)
  have entries: "dc_entries ?c = hm_insert key ?new es" "dc_capacity ?c = dc_capacity c"
    using purged by (simp_all add: inserted_cache_def new_entry_def es_def)
  have core': "cache_core ?c" by (rule inserted_cache_core [OF purged(1)])
  have "lru_ordered ?c"
    using lru_ordered_push [OF assms(2,3)] purged by (simp add: inserted_cache_def lru_ordered_def)
  then obtain q' victim e where ev: "evict_loop (dc_capacity c) (dc_lru ?c) (hm_insert key ?new es) =
        (q', hm_remove victim (hm_insert key ?new es))"
    and victim: "hm_get (hm_insert key ?new es) victim = Some e"
    and least: "\<forall>k e'. hm_get (hm_insert key ?new es) k = Some e' \<longrightarrow> ce_last_access e \<le> ce_last_access e'"
    using evict_loop_one [of "hm_insert key ?new es" "dc_lru ?c" "dc_capacity c"] core' ok assms(5,6)
    by (auto simp: cache_core_def lru_ordered_def entries length_hm_insert es_def)
  have older: "ce_last_access e' < dc_clock c + 1" if "hm_get es k = Some e'" for k e'
    using that q assms(2) clock_next [OF assms(3)]
    by (force simp: queued_def lru_ordered_def intro: order.strict_trans1)
  have "victim \<noteq> key"
  proof
    assume "victim = key"
    then have "e = ?new" using victim by (simp add: hm_get_insert)
    obtain k e' es' where "es = (k, e') # es'"
      using assms(4,6) unfolding es_def by (cases "dc_entries (purge_expired now c)") auto
    then have "hm_get es k = Some e'" "k \<noteq> key"
      using assms(5) by (auto simp: es_def hm_contains_def)
    with least older [of k e'] \<open>e = ?new\<close> show False
      by (fastforce simp: hm_get_insert split: if_splits)
  qed
  moreover from this victim have "hm_get es victim = Some e" by (simp add: hm_get_insert)
  moreover have "ce_last_access e \<le> ce_last_access e'" if "hm_get es k = Some e'" for k e'
    using that least [rule_format, of k e'] assms(5)
    by (cases "k = key") (auto simp: hm_get_insert hm_contains_def es_def)
  moreover have "dc_entries (cache_insert now key v ttl c) = hm_remove victim (hm_insert key ?new es)"
    by (simp add: cache_insert_steps evict_lru_def entries ev)
  ultimately show ?thesis by blast
qed

section \<open>Properties of the cache\<close>

text \<open>A run of the cache: any sequence of the operations on a fresh cache.\<close>

datatype cache_op =
  OpGet instant cache_key
| OpInsert instant cache_key cache_value duration
| OpRestore nat "cache_key \<Rightarrow> instant" "persistent_entry list"

fun apply_op :: "cache_op \<Rightarrow> dns_cache \<Rightarrow> dns_cache" where
  "apply_op (OpGet now key) c = snd (cache_get now key c)"
| "apply_op (OpInsert now key v ttl) c = cache_insert now key v ttl c"
| "apply_op (OpRestore unix_now instant_now es) c = restore unix_now instant_now es c"

lemma cache_insert_capacity [simp]: "dc_capacity (cache_insert now key v ttl c) = dc_capacity c"
  by (simp add: cache_insert_def Let_def evict_lru_def purge_expired_def split: prod.splits)

lemma cache_get_capacity [simp]: "dc_capacity (snd (cache_get now key c)) = dc_capacity c"
  by (simp add: cache_get_def Let_def split: option.splits)

lemma restore_inv:
  "cache_inv c \<Longrightarrow> cache_inv (restore unix_now instant_now es c) \<and>
    dc_capacity (restore unix_now instant_now es c) = dc_capacity c"
  by (induction es arbitrary: c) (auto simp: Let_def cache_insert_inv)

lemma run_inv:
  "cache_inv c \<Longrightarrow> cache_inv (fold apply_op ops c) \<and> dc_capacity (fold apply_op ops c) = dc_capacity c"
proof (induction ops arbitrary: c)
  case (Cons op ops)
  have "cache_inv (apply_op op c) \<and> dc_capacity (apply_op op c) = dc_capacity c"
    using Cons.prems by (cases op) (simp_all add: cache_get_inv cache_insert_inv restore_inv)
  with Cons.IH show ?case by simp
qed simp

text \<open>
  C13. The cache is bounded: after any sequence of lookups, insertions and restored snapshots the
  number of entries is at most the capacity, and the access queue, which is only cleaned
  lazily, is at most eight times the capacity (or 64) long.
\<close>

theorem dns_cache_bounded:
  assumes "capacity \<le> usize_max"
  shows "length (dc_entries (fold apply_op ops (new_cache capacity disable))) \<le> capacity \<and>
    length (dc_lru (fold apply_op ops (new_cache capacity disable))) \<le> max (8 * capacity) 64"
proof -
  have "cache_inv (fold apply_op ops (new_cache capacity disable))"
      "dc_capacity (fold apply_op ops (new_cache capacity disable)) = capacity"
    using run_inv [OF cache_inv_new [OF assms]] by (auto simp: new_cache_def)
  then show ?thesis by (auto simp: cache_inv_def lru_limit_def)
qed

theorem dns_cache_bounded_witness:
  "length (dc_entries (fold apply_op [OpInsert 0 (KEch ''a'') (Wire []) 9, OpInsert 1 (KEch ''b'') (Wire []) 9]
     (new_cache 1 False))) \<le> 1"
  using dns_cache_bounded [of 1 "[OpInsert 0 (KEch ''a'') (Wire []) 9, OpInsert 1 (KEch ''b'') (Wire []) 9]" False]
  by (simp add: usize_max_def)



text \<open>
  C15. An insertion stores its value and makes room fairly: expired entries go first; if the key
  was present or there is room, every other unexpired entry stays; otherwise exactly one entry
  is evicted, one whose last access is the oldest.
\<close>

theorem dns_cache_insert_lru:
  assumes "cache_inv c" and "lru_ordered c" and "dc_clock c \<noteq> - 1" and "0 < dc_capacity c"
  shows "let live = dc_entries (purge_expired now c); es = dc_entries (cache_insert now key v ttl c) in
    hm_get es key = Some (new_entry now v ttl (dc_clock c + 1)) \<and>
    (if hm_contains live key \<or> length live < dc_capacity c
     then \<forall>k. k \<noteq> key \<longrightarrow> hm_get es k = hm_get live k
     else \<exists>victim e. hm_get live victim = Some e \<and>
       (\<forall>k e'. hm_get live k = Some e' \<longrightarrow> ce_last_access e \<le> ce_last_access e') \<and>
       (\<forall>k. k \<noteq> key \<longrightarrow> hm_get es k = (if k = victim then None else hm_get live k)))"
proof (cases "hm_contains (dc_entries (purge_expired now c)) key \<or>
    length (dc_entries (purge_expired now c)) < dc_capacity c")
  case True
  then show ?thesis using cache_insert_room [OF assms(1) True] by (simp add: Let_def hm_get_insert)
next
  case False
  have "length (dc_entries (purge_expired now c)) \<le> dc_capacity c"
    using assms(1) purge_expired_core(2) [of c now] by (simp add: cache_inv_core)
  with False cache_insert_full [OF assms(1-4), of now key v ttl] obtain victim e where
      "victim \<noteq> key" "hm_get (dc_entries (purge_expired now c)) victim = Some e"
      "\<forall>k e'. hm_get (dc_entries (purge_expired now c)) k = Some e' \<longrightarrow> ce_last_access e \<le> ce_last_access e'"
      "dc_entries (cache_insert now key v ttl c) =
        hm_remove victim (hm_insert key (new_entry now v ttl (dc_clock c + 1)) (dc_entries (purge_expired now c)))"
    by auto
  with False show ?thesis by (auto simp: Let_def hm_get_insert hm_get_remove)
qed

theorem dns_cache_insert_lru_witness:
  "hm_get (dc_entries (cache_insert 3 (KEch ''b'') (Wire [1]) 9
      (cache_insert 0 (KEch ''a'') (Wire [0]) 9 (new_cache 1 False)))) (KEch ''b'') = Some (new_entry 3 (Wire [1]) 9 2)"
proof -
  let ?c = "cache_insert 0 (KEch ''a'') (Wire [0]) 9 (new_cache 1 False)"
  have "cache_inv ?c" by (intro cache_insert_inv cache_inv_new) (simp add: usize_max_def)
  moreover have "lru_ordered ?c"
    by (intro cache_insert_ordered cache_inv_new lru_ordered_new) (simp_all add: usize_max_def new_cache_def)
  moreover have "dc_clock ?c = 1" "dc_capacity ?c = 1"
    by (simp_all add: cache_insert_def new_cache_def purge_expired_def evict_lru_def Let_def)
  ultimately show ?thesis
    using dns_cache_insert_lru [of ?c 3 "KEch ''b''" "Wire [1]" 9] by (simp add: Let_def)
qed

section \<open>Snapshot and restore\<close>

lemma purge_expired_fresh:
  assumes "cache_inv c" and "\<And>k e. hm_get (dc_entries c) k = Some e \<Longrightarrow> now < ce_expires e"
  shows "hm_get (dc_entries (purge_expired now c)) k = hm_get (dc_entries c) k"
proof -
  from assms(1) have "cache_core c" by (simp add: cache_inv_core)
  from purge_expired_core(3) [OF this, of now k] assms(2) [of k] show ?thesis
    by (cases "hm_get (dc_entries c) k"; cases "hm_get (dc_entries (purge_expired now c)) k") auto
qed

definition contents :: "dns_cache \<Rightarrow> cache_key \<Rightarrow> (cache_value \<times> instant) option" where
  "contents c k = map_option (\<lambda>e. (ce_value e, ce_expires e)) (hm_get (dc_entries c) k)"

lemma restore_contents:
  assumes "cache_inv c" and "distinct (map pe_key es)"
    and "\<And>p. p \<in> set es \<Longrightarrow> hm_get (dc_entries c) (pe_key p) = None"
    and "length (dc_entries c) + length es \<le> dc_capacity c"
    and "\<And>k e. hm_get (dc_entries c) k = Some e \<Longrightarrow> now < ce_expires e"
  shows "contents (restore unix_now (\<lambda>_. now) es c) k =
    (case find (\<lambda>p. pe_key p = k \<and> unix_now < pe_expires_at p) es of
       Some p \<Rightarrow> Some (pe_value p, now + from_secs (pe_expires_at p - unix_now))
     | None \<Rightarrow> contents c k)"
  using assms
proof (induction es arbitrary: c)
  case (Cons p es)
  show ?case
  proof (cases "unix_now < pe_expires_at p")
    case False
    with Cons show ?thesis by simp
  next
    case True
    let ?ttl = "from_secs (pe_expires_at p - unix_now)"
    let ?c = "cache_insert now (pe_key p) (pe_value p) ?ttl c"
    have core: "cache_core c" using Cons.prems(1) by (simp add: cache_inv_core)
    note purged = purge_expired_fresh [OF Cons.prems(1,5)] purge_expired_core(1,2) [OF core, of now]
    have es: "dc_entries ?c = hm_insert (pe_key p) (new_entry now (pe_value p) ?ttl (dc_clock c + 1))
        (dc_entries (purge_expired now c))"
      using Cons.prems(4) purged(3) by (intro cache_insert_room Cons.prems(1)) simp
    then have get: "hm_get (dc_entries ?c) k' = (if k' = pe_key p
        then Some (new_entry now (pe_value p) ?ttl (dc_clock c + 1)) else hm_get (dc_entries c) k')" for k'
      using purged(1) by (simp add: hm_get_insert)
    have "length (dc_entries ?c) \<le> Suc (length (dc_entries c))"
      unfolding es using purged(2,3) by (auto simp: length_hm_insert cache_core_def)
    moreover have "0 < ?ttl" using True by (simp add: from_secs_def)
    ultimately have IH: "contents (restore unix_now (\<lambda>_. now) es ?c) k =
      (case find (\<lambda>p. pe_key p = k \<and> unix_now < pe_expires_at p) es of
         Some p \<Rightarrow> Some (pe_value p, now + from_secs (pe_expires_at p - unix_now))
       | None \<Rightarrow> contents ?c k)"
      using Cons.prems
      by (intro Cons.IH cache_insert_inv) (auto simp: get split: if_splits, metis image_eqI)
    have "find (\<lambda>q. pe_key q = pe_key p \<and> unix_now < pe_expires_at q) es = None"
      using Cons.prems(2) by (auto simp: find_None_iff) (metis image_eqI)
    moreover have "contents ?c k = (if k = pe_key p then Some (pe_value p, now + ?ttl) else contents c k)"
      by (simp add: contents_def get)
    ultimately show ?thesis
      using IH True by (cases "k = pe_key p") (auto split: option.split)
  qed
qed simp

lemma persist_key: "persist unix_now clk x = Some p \<Longrightarrow> pe_key p = fst x"
  by (cases x) (auto simp: Let_def split: if_splits)

lemma find_persist:
  assumes "hm_ok es"
  shows "find (\<lambda>p. pe_key p = k \<and> unix' < pe_expires_at p) (List.map_filter (persist unix_now clk) es) =
    (case hm_get es k of None \<Rightarrow> None | Some e \<Rightarrow>
      (case persist unix_now clk (k, e) of
         Some p \<Rightarrow> if unix' < pe_expires_at p then Some p else None | None \<Rightarrow> None))"
  using assms
proof (induction es)
  case (Cons x es)
  obtain k' e where x: "x = (k', e)" by (cases x)
  from Cons.prems have "hm_ok es" "k' \<notin> fst ` set es" by (auto simp: hm_ok_def x)
  then have "hm_get es k' = None" by (simp add: map_of_eq_None_iff)
  with Cons.IH [OF \<open>hm_ok es\<close>] persist_key [of unix_now clk x] show ?case
    by (cases "persist unix_now clk (k', e)")
      (auto simp: x map_filter_simps simp del: persist.simps split: option.splits)
qed (simp add: map_filter_simps)

lemma persist_keys:
  "hm_ok es \<Longrightarrow> distinct (map pe_key (List.map_filter (persist unix_now clk) es)) \<and>
    length (List.map_filter (persist unix_now clk) es) \<le> length es \<and>
    pe_key ` set (List.map_filter (persist unix_now clk) es) \<subseteq> fst ` set es"
proof (induction es)
  case (Cons x es)
  then have "hm_ok es" "fst x \<notin> fst ` set es" by (auto simp: hm_ok_def)
  with Cons.IH persist_key [of unix_now clk x] show ?case
    by (cases "persist unix_now clk x") (auto simp: map_filter_simps)
qed (simp add: map_filter_simps)

text \<open>
  C16. Persistence keeps the cache: restoring a snapshot into a fresh cache of the same capacity
  gives every entry that had at least one whole second left, and whose time has not passed by
  the system clock, its value and the remaining whole seconds minus the seconds spent on disk;
  it adds nothing else.
\<close>

theorem dns_cache_snapshot_restore:
  assumes "cache_inv c" and "unix_saved \<le> unix_now"
  shows "contents (restore unix_now (\<lambda>_. now) (snapshot unix_saved clk c) (new_cache (dc_capacity c) disable)) k =
    (case hm_get (dc_entries c) k of
       None \<Rightarrow> None
     | Some e \<Rightarrow> let remaining = as_secs (ce_expires e - clk k) in
         if unix_now - unix_saved < remaining
         then Some (ce_value e, now + from_secs (remaining - (unix_now - unix_saved))) else None)"
proof -
  from assms(1) have ok: "hm_ok (dc_entries c)" and cap: "length (dc_entries c) \<le> dc_capacity c" "dc_capacity c \<le> usize_max"
    by (simp_all add: cache_inv_def)
  let ?new = "new_cache (dc_capacity c) disable"
  have new: "dc_entries ?new = []" "dc_capacity ?new = dc_capacity c" by (simp_all add: new_cache_def)
  have "contents (restore unix_now (\<lambda>_. now) (snapshot unix_saved clk c) ?new) k =
    (case find (\<lambda>p. pe_key p = k \<and> unix_now < pe_expires_at p) (snapshot unix_saved clk c) of
       Some p \<Rightarrow> Some (pe_value p, now + from_secs (pe_expires_at p - unix_now))
     | None \<Rightarrow> contents ?new k)"
    using persist_keys [OF ok, of unix_saved clk] cap
    by (intro restore_contents cache_inv_new) (auto simp: new snapshot_def)
  also have "\<dots> = (case hm_get (dc_entries c) k of
       None \<Rightarrow> None
     | Some e \<Rightarrow> let remaining = as_secs (ce_expires e - clk k) in
         if unix_now - unix_saved < remaining
         then Some (ce_value e, now + from_secs (remaining - (unix_now - unix_saved))) else None)"
    using assms(2)
    by (auto simp: snapshot_def find_persist [OF ok] contents_def new Let_def add.commute split: option.splits)
  finally show ?thesis .
qed

theorem dns_cache_snapshot_restore_witness:
  "contents (restore 103 (\<lambda>_. 7) (snapshot 100 (\<lambda>_. 1)
      (cache_insert 1 (KEch ''a'') (Wire [1]) (from_secs 5) (new_cache 4 False))) (new_cache 4 True)) (KEch ''a'') =
    Some (Wire [1], 7 + from_secs 2)"
proof -
  let ?c = "cache_insert 1 (KEch ''a'') (Wire [1]) (from_secs 5) (new_cache 4 False)"
  have inv: "cache_inv ?c" by (intro cache_insert_inv cache_inv_new) (simp add: usize_max_def)
  have "dc_capacity ?c = 4" by (simp add: new_cache_def)
  moreover have "hm_get (dc_entries ?c) (KEch ''a'') = Some (new_entry 1 (Wire [1]) (from_secs 5) 1)"
    by (simp add: cache_insert_def new_cache_def purge_expired_def evict_lru_def new_entry_def Let_def)
  ultimately show ?thesis
    using dns_cache_snapshot_restore [OF inv, of 100 103 7 "\<lambda>_. 1" True "KEch ''a''"]
    by (simp add: Let_def)
qed

section \<open>The contract of a cache\<close>

text \<open>
  What a client of a cache relies on: the operations keep an invariant, and a cache serves for a
  key only what was inserted for that key, as the relation \<open>view\<close> allows. \<open>holds c k w\<close> says
  that \<open>w\<close> is stored under \<open>k\<close>.
\<close>

locale ttl_cache =
  fixes inv :: "'c \<Rightarrow> bool"
    and get :: "instant \<Rightarrow> 'k \<Rightarrow> 'c \<Rightarrow> 'v option \<times> 'c"
    and put :: "instant \<Rightarrow> 'k \<Rightarrow> 'v \<Rightarrow> duration \<Rightarrow> 'c \<Rightarrow> 'c"
    and holds :: "'c \<Rightarrow> 'k \<Rightarrow> 'v \<Rightarrow> bool"
    and view :: "'v \<Rightarrow> 'v \<Rightarrow> bool"
  assumes inv_get: "inv c \<Longrightarrow> inv (snd (get now k c))"
    and inv_put: "inv c \<Longrightarrow> inv (put now k v ttl c)"
    and get_served: "inv c \<Longrightarrow> get now k c = (Some v, c') \<Longrightarrow> \<exists>w. holds c k w \<and> view w v"
    and get_keeps: "inv c \<Longrightarrow> holds (snd (get now k c)) k' w \<Longrightarrow> holds c k' w"
    and put_keeps: "inv c \<Longrightarrow> holds (put now k v ttl c) k' w \<Longrightarrow> holds c k' w \<or> (k' = k \<and> w = v)"
begin

text \<open>The cache holds only values that satisfy \<open>P\<close>.\<close>

definition sound :: "('k \<Rightarrow> 'v \<Rightarrow> bool) \<Rightarrow> 'c \<Rightarrow> bool" where
  "sound P c \<longleftrightarrow> inv c \<and> (\<forall>k w. holds c k w \<longrightarrow> P k w)"

lemma sound_mono: "sound P c \<Longrightarrow> (\<And>k w. P k w \<Longrightarrow> Q k w) \<Longrightarrow> sound Q c"
  by (auto simp: sound_def)

lemma sound_get: "sound P c \<Longrightarrow> sound P (snd (get now k c))"
  unfolding sound_def using inv_get get_keeps by blast

lemma sound_put: "sound P c \<Longrightarrow> P k v \<Longrightarrow> sound P (put now k v ttl c)"
  unfolding sound_def using inv_put put_keeps by blast

lemma sound_served: "sound P c \<Longrightarrow> get now k c = (Some v, c') \<Longrightarrow> \<exists>w. P k w \<and> view w v"
  unfolding sound_def using get_served by blast

end

definition cache_holds :: "dns_cache \<Rightarrow> cache_key \<Rightarrow> cache_value \<Rightarrow> bool" where
  "cache_holds c k w \<longleftrightarrow> (\<exists>e. hm_get (dc_entries c) k = Some e \<and> ce_value e = w)"

definition cache_view :: "cache_value \<Rightarrow> cache_value \<Rightarrow> bool" where
  "cache_view w v \<longleftrightarrow> (\<exists>elapsed. v = age_value elapsed w)"

interpretation dnsc: ttl_cache cache_inv cache_get cache_insert cache_holds cache_view
proof
  fix c now k v c' k' w and ttl :: duration
  show "cache_inv c \<Longrightarrow> cache_inv (snd (cache_get now k c))" by (rule cache_get_inv)
  show "cache_inv c \<Longrightarrow> cache_inv (cache_insert now k v ttl c)" by (rule cache_insert_inv)
  show "cache_get now k c = (Some v, c') \<Longrightarrow> \<exists>w. cache_holds c k w \<and> cache_view w v"
    by (auto simp: cache_get_def Let_def cache_holds_def cache_view_def split: option.splits if_splits)
  show "cache_holds (snd (cache_get now k c)) k' w \<Longrightarrow> cache_holds c k' w"
    by (auto simp: cache_get_def Let_def cache_holds_def hm_get_insert hm_get_remove split: option.splits if_splits)
  show "cache_inv c \<Longrightarrow> cache_holds (cache_insert now k v ttl c) k' w \<Longrightarrow> cache_holds c k' w \<or> (k' = k \<and> w = v)"
    using cache_insert_entries [of c now k v ttl k'] by (fastforce simp: cache_holds_def split: if_splits)
qed

end
