(* ===== verification/Dns_Flight.thy ===== *)
theory Dns_Flight
  imports Dns_Cache
begin

text \<open>
  The shared queries of the resolver: \<open>Flight\<close> of \<^verbatim>\<open>src/src/dns/cache.rs\<close> and \<open>cached\<close> of
  \<^verbatim>\<open>src/src/dns/mod.rs\<close>. The parts of \<open>cached\<close> that run under a lock are operations on the shared
  state; \<open>flight_step\<close> interleaves any number of callers between them, a future that is dropped
  while it waits or loads is \<open>flight_drop\<close>, and \<open>cached\<close> is one caller running alone.
\<close>

section \<open>Shared state\<close>

text \<open>
  An \<open>Arc<Flight>\<close> is its identity, a number given at allocation; \<open>fs_results\<close> is the \<open>result\<close>
  field of the flights. A shared error is the text of the error.
\<close>

type_synonym flight_result = "string + cache_value"

record flight_state =
  fs_cache :: dns_cache
  fs_flights :: "(cache_key, nat) hashmap"
  fs_results :: "nat \<Rightarrow> flight_result option"
  fs_next :: nat

definition new_flights :: "dns_cache \<Rightarrow> flight_state" where
  "new_flights c = \<lparr>fs_cache = c, fs_flights = [], fs_results = (\<lambda>_. None), fs_next = 0\<rparr>"

definition flight_lookup ::
  "bool \<Rightarrow> instant \<Rightarrow> cache_key \<Rightarrow> flight_state \<Rightarrow> cache_value option \<times> flight_state" where
  "flight_lookup enabled now key s =
    (if enabled then let (v, c) = cache_get now key (fs_cache s) in (v, s\<lparr>fs_cache := c\<rparr>)
     else (None, s))"

definition flight_join :: "cache_key \<Rightarrow> flight_state \<Rightarrow> (nat \<times> bool) \<times> flight_state" where
  "flight_join key s =
    (case hm_get (fs_flights s) key of
       Some f \<Rightarrow> ((f, False), s)
     | None \<Rightarrow>
        ((fs_next s, True),
         s\<lparr>fs_flights := hm_insert key (fs_next s) (fs_flights s),
           fs_results := (fs_results s)(fs_next s := None), fs_next := Suc (fs_next s)\<rparr>))"

definition flight_store ::
  "bool \<Rightarrow> instant \<Rightarrow> cache_key \<Rightarrow> cache_value \<Rightarrow> duration \<Rightarrow> flight_state \<Rightarrow> flight_state" where
  "flight_store enabled now key v ttl s =
    (if enabled \<and> ttl \<noteq> 0 then s\<lparr>fs_cache := cache_insert now key v ttl (fs_cache s)\<rparr> else s)"

definition flight_wait :: "nat \<Rightarrow> flight_state \<Rightarrow> flight_result option" where
  "flight_wait f s = fs_results s f"

definition flight_complete :: "nat \<Rightarrow> flight_result \<Rightarrow> flight_state \<Rightarrow> flight_state" where
  "flight_complete f r s = s\<lparr>fs_results := (fs_results s)(f \<mapsto> r)\<rparr>"

definition flight_remove :: "cache_key \<Rightarrow> flight_state \<Rightarrow> flight_state" where
  "flight_remove key s = s\<lparr>fs_flights := hm_remove key (fs_flights s)\<rparr>"

definition flight_return :: "flight_result \<Rightarrow> cache_value result" where
  "flight_return r = (case r of Inl e \<Rightarrow> Inl (Bail e) | Inr v \<Rightarrow> Inr v)"

text \<open>
  \<open>cached\<close> run by one caller. \<open>None\<close> is a caller that waits for a flight nobody has completed. A
  load that panics unwinds past the completion and leaves its flight in the map.
\<close>

definition cached ::
  "bool \<Rightarrow> instant \<Rightarrow> instant \<Rightarrow> cache_key \<Rightarrow>
   (flight_state \<Rightarrow> ((cache_value \<times> duration) result \<times> flight_state) option) \<Rightarrow>
   flight_state \<Rightarrow> (cache_value result \<times> flight_state) option" where
  "cached enabled now later key load s =
    (case flight_lookup enabled now key s of
       (Some v, s1) \<Rightarrow> Some (Inr v, s1)
     | (None, s1) \<Rightarrow>
        (let ((f, leader), s2) = flight_join key s1 in
         if \<not> leader then (case flight_wait f s2 of None \<Rightarrow> None | Some r \<Rightarrow> Some (flight_return r, s2))
         else (case load s2 of
                 None \<Rightarrow> None
               | Some (Inl Panic, s3) \<Rightarrow> Some (Inl Panic, s3)
               | Some (Inl (Bail e), s3) \<Rightarrow>
                  Some (Inl (Bail e), flight_remove key (flight_complete f (Inl e) s3))
               | Some (Inr (v, ttl), s3) \<Rightarrow>
                  Some (Inr v, flight_remove key (flight_complete f (Inr v)
                    (flight_store enabled later key v ttl s3))))))"

section \<open>Interleaved callers\<close>

datatype caller =
  Idle
| Missed cache_key
| Waiting cache_key nat
| Loading cache_key nat
| Loaded cache_key nat flight_result
| Completed cache_key nat flight_result
| Returned cache_key flight_result
| Dropped

record flight_system =
  fy_shared :: flight_state
  fy_callers :: "caller list"

definition fy_set :: "nat \<Rightarrow> caller \<Rightarrow> flight_state \<Rightarrow> flight_system \<Rightarrow> flight_system" where
  "fy_set i c sh y = y\<lparr>fy_shared := sh, fy_callers := (fy_callers y)[i := c]\<rparr>"

definition at :: "flight_system \<Rightarrow> nat \<Rightarrow> caller \<Rightarrow> bool" where
  "at y i c \<longleftrightarrow> i < length (fy_callers y) \<and> fy_callers y ! i = c"

text \<open>\<open>loads key v ttl\<close> says that the query of \<open>key\<close> may answer \<open>v\<close> with this time to live.\<close>

inductive flight_step ::
  "bool \<Rightarrow> (cache_key \<Rightarrow> cache_value \<Rightarrow> duration \<Rightarrow> bool) \<Rightarrow> flight_system \<Rightarrow> flight_system \<Rightarrow> bool"
  for enabled loads where
  hit: "at y i Idle \<Longrightarrow> flight_lookup enabled now key (fy_shared y) = (Some v, sh) \<Longrightarrow>
    flight_step enabled loads y (fy_set i (Returned key (Inr v)) sh y)"
| miss: "at y i Idle \<Longrightarrow> flight_lookup enabled now key (fy_shared y) = (None, sh) \<Longrightarrow>
    flight_step enabled loads y (fy_set i (Missed key) sh y)"
| follow: "at y i (Missed key) \<Longrightarrow> flight_join key (fy_shared y) = ((f, False), sh) \<Longrightarrow>
    flight_step enabled loads y (fy_set i (Waiting key f) sh y)"
| lead: "at y i (Missed key) \<Longrightarrow> flight_join key (fy_shared y) = ((f, True), sh) \<Longrightarrow>
    flight_step enabled loads y (fy_set i (Loading key f) sh y)"
| loaded: "at y i (Loading key f) \<Longrightarrow> loads key v ttl \<Longrightarrow>
    flight_step enabled loads y
      (fy_set i (Loaded key f (Inr v)) (flight_store enabled now key v ttl (fy_shared y)) y)"
| failed: "at y i (Loading key f) \<Longrightarrow>
    flight_step enabled loads y (fy_set i (Loaded key f (Inl e)) (fy_shared y) y)"
| complete: "at y i (Loaded key f r) \<Longrightarrow>
    flight_step enabled loads y (fy_set i (Completed key f r) (flight_complete f r (fy_shared y)) y)"
| remove: "at y i (Completed key f r) \<Longrightarrow>
    flight_step enabled loads y (fy_set i (Returned key r) (flight_remove key (fy_shared y)) y)"
| wake: "at y i (Waiting key f) \<Longrightarrow> flight_wait f (fy_shared y) = Some r \<Longrightarrow>
    flight_step enabled loads y (fy_set i (Returned key r) (fy_shared y) y)"

text \<open>A future is dropped only where \<open>cached\<close> awaits: in \<open>flight.wait()\<close> and in \<open>load()\<close>.\<close>

inductive flight_drop :: "flight_system \<Rightarrow> flight_system \<Rightarrow> bool" where
  drop_waiting: "at y i (Waiting key f) \<Longrightarrow> flight_drop y (fy_set i Dropped (fy_shared y) y)"
| drop_loading: "at y i (Loading key f) \<Longrightarrow> flight_drop y (fy_set i Dropped (fy_shared y) y)"

definition flight_start :: "dns_cache \<Rightarrow> nat \<Rightarrow> flight_system" where
  "flight_start c n = \<lparr>fy_shared = new_flights c, fy_callers = replicate n Idle\<rparr>"

inductive flight_reach ::
  "bool \<Rightarrow> (cache_key \<Rightarrow> cache_value \<Rightarrow> duration \<Rightarrow> bool) \<Rightarrow> bool \<Rightarrow> flight_system \<Rightarrow> flight_system \<Rightarrow> bool"
  for enabled loads drops y0 where
  start: "flight_reach enabled loads drops y0 y0"
| steps: "flight_reach enabled loads drops y0 y \<Longrightarrow> flight_step enabled loads y y' \<Longrightarrow>
    flight_reach enabled loads drops y0 y'"
| dropped: "flight_reach enabled loads drops y0 y \<Longrightarrow> drops \<Longrightarrow> flight_drop y y' \<Longrightarrow>
    flight_reach enabled loads drops y0 y'"

section \<open>The invariant\<close>

text \<open>The flight a caller leads, and what it may still do to it.\<close>

fun leads :: "caller \<Rightarrow> cache_key \<Rightarrow> nat \<Rightarrow> bool" where
  "leads (Loading k f) k' f' \<longleftrightarrow> k = k' \<and> f = f'"
| "leads (Loaded k f r) k' f' \<longleftrightarrow> k = k' \<and> f = f'"
| "leads (Completed k f r) k' f' \<longleftrightarrow> k = k' \<and> f = f'"
| "leads _ _ _ \<longleftrightarrow> False"

definition from_load :: "(cache_key \<Rightarrow> cache_value \<Rightarrow> duration \<Rightarrow> bool) \<Rightarrow> cache_key \<Rightarrow> flight_result \<Rightarrow> bool" where
  "from_load loads key r \<longleftrightarrow> (\<forall>v. r = Inr v \<longrightarrow> (\<exists>ttl. loads key v ttl))"

definition served :: "(cache_key \<Rightarrow> cache_value \<Rightarrow> duration \<Rightarrow> bool) \<Rightarrow> cache_key \<Rightarrow> flight_result \<Rightarrow> bool" where
  "served loads key r \<longleftrightarrow>
    (\<forall>v. r = Inr v \<longrightarrow> (\<exists>w ttl. loads key w ttl \<and> (v = w \<or> cache_view w v)))"

fun caller_ok ::
  "(cache_key \<Rightarrow> cache_value \<Rightarrow> duration \<Rightarrow> bool) \<Rightarrow> flight_state \<Rightarrow> caller \<Rightarrow> bool" where
  "caller_ok loads sh (Waiting key f) \<longleftrightarrow>
    (case fs_results sh f of
       None \<Rightarrow> hm_get (fs_flights sh) key = Some f
     | Some r \<Rightarrow> from_load loads key r \<and> f < fs_next sh)"
| "caller_ok loads sh (Loading key f) \<longleftrightarrow> hm_get (fs_flights sh) key = Some f \<and> fs_results sh f = None"
| "caller_ok loads sh (Loaded key f r) \<longleftrightarrow>
    hm_get (fs_flights sh) key = Some f \<and> fs_results sh f = None \<and> from_load loads key r"
| "caller_ok loads sh (Completed key f r) \<longleftrightarrow>
    hm_get (fs_flights sh) key = Some f \<and> fs_results sh f = Some r \<and> from_load loads key r"
| "caller_ok loads sh (Returned key r) \<longleftrightarrow> served loads key r"
| "caller_ok loads sh _ \<longleftrightarrow> True"

definition shared_ok :: "(cache_key \<Rightarrow> cache_value \<Rightarrow> duration \<Rightarrow> bool) \<Rightarrow> flight_state \<Rightarrow> bool" where
  "shared_ok loads sh \<longleftrightarrow>
    dnsc.sound (\<lambda>key v. \<exists>ttl. loads key v ttl) (fs_cache sh) \<and>
    (\<forall>key f. hm_get (fs_flights sh) key = Some f \<longrightarrow>
       f < fs_next sh \<and> (\<forall>r. fs_results sh f = Some r \<longrightarrow> from_load loads key r)) \<and>
    (\<forall>key key' f. hm_get (fs_flights sh) key = Some f \<and> hm_get (fs_flights sh) key' = Some f \<longrightarrow> key = key')"

definition one_leader :: "caller list \<Rightarrow> bool" where
  "one_leader cs \<longleftrightarrow>
    (\<forall>i j key f f'. i < length cs \<and> j < length cs \<and> leads (cs ! i) key f \<and> leads (cs ! j) key f' \<longrightarrow> i = j)"

definition flight_inv :: "(cache_key \<Rightarrow> cache_value \<Rightarrow> duration \<Rightarrow> bool) \<Rightarrow> flight_system \<Rightarrow> bool" where
  "flight_inv loads y \<longleftrightarrow>
    shared_ok loads (fy_shared y) \<and> one_leader (fy_callers y) \<and>
    (\<forall>c \<in> set (fy_callers y). caller_ok loads (fy_shared y) c)"

text \<open>Without dropped futures every flight in the map still has its leader.\<close>

definition led :: "flight_system \<Rightarrow> bool" where
  "led y \<longleftrightarrow>
    (\<forall>key f. hm_get (fs_flights (fy_shared y)) key = Some f \<longrightarrow>
       (\<exists>c \<in> set (fy_callers y). leads c key f))"

section \<open>Steps keep the invariant\<close>

lemma fy_set_simps [simp]:
  "fy_shared (fy_set i c sh y) = sh"
  "fy_callers (fy_set i c sh y) = (fy_callers y)[i := c]"
  by (simp_all add: fy_set_def)

lemma leads_flight: "caller_ok loads sh c \<Longrightarrow> leads c key f \<Longrightarrow> hm_get (fs_flights sh) key = Some f"
  by (cases c) auto

lemma flight_inv_at: "flight_inv loads y \<Longrightarrow> at y i c \<Longrightarrow> caller_ok loads (fy_shared y) c"
  by (auto simp: flight_inv_def at_def)

lemma one_leaderD:
  "one_leader cs \<Longrightarrow> i < length cs \<Longrightarrow> j < length cs \<Longrightarrow> leads (cs ! i) key f \<Longrightarrow> leads (cs ! j) key f' \<Longrightarrow> i = j"
  unfolding one_leader_def by (elim allE [of _ i] allE [of _ j] allE [of _ key] allE [of _ f] allE [of _ f']) simp

lemma one_leader_set:
  assumes "one_leader cs" and "i < length cs"
    and "\<And>key f. leads c' key f \<Longrightarrow> (\<exists>f'. leads (cs ! i) key f') \<or> (\<forall>d \<in> set cs. \<forall>f'. \<not> leads d key f')"
  shows "one_leader (cs[i := c'])"
proof -
  have other: "j = i" if "leads c' key f" "j < length cs" "leads (cs ! j) key f'" for j key f f'
    using assms(3) [OF that(1)] one_leaderD [OF assms(1) that(2) assms(2) that(3)] that(2,3) nth_mem by blast
  show ?thesis
    unfolding one_leader_def
  proof (intro allI impI, elim conjE)
    fix j k key f f'
    assume js: "j < length (cs[i := c'])" "k < length (cs[i := c'])"
      "leads (cs[i := c'] ! j) key f" "leads (cs[i := c'] ! k) key f'"
    show "j = k"
    proof (rule ccontr)
      assume "j \<noteq> k"
      then consider "j = i" "k \<noteq> i" | "j \<noteq> i" "k = i" | "j \<noteq> i" "k \<noteq> i" by blast
      then show False
        using js \<open>j \<noteq> k\<close> other [of key f k f'] other [of key f' j f] one_leaderD [OF assms(1), of j k key f f']
        by cases auto
    qed
  qed
qed

lemma flight_inv_set:
  assumes inv: "flight_inv loads y" and i: "at y i c" and sh: "shared_ok loads sh" and new: "caller_ok loads sh c'"
    and others: "\<And>d. caller_ok loads (fy_shared y) d \<Longrightarrow> (\<And>key f f'. leads c key f \<Longrightarrow> \<not> leads d key f') \<Longrightarrow>
      caller_ok loads sh d"
    and leader: "\<And>key f. leads c' key f \<Longrightarrow> leads c key f \<or> hm_get (fs_flights (fy_shared y)) key = None"
  shows "flight_inv loads (fy_set i c' sh y)"
proof -
  let ?cs = "fy_callers y"
  from i have i': "i < length ?cs" "?cs ! i = c" by (simp_all add: at_def)
  have ok: "caller_ok loads (fy_shared y) d" if "d \<in> set ?cs" for d
    using inv that by (simp add: flight_inv_def)
  have lead: "one_leader ?cs" using inv by (simp add: flight_inv_def)
  have "one_leader (?cs[i := c'])"
  proof (rule one_leader_set [OF lead i'(1)])
    fix key f assume "leads c' key f"
    from leader [OF this] show "(\<exists>f'. leads (?cs ! i) key f') \<or> (\<forall>d \<in> set ?cs. \<forall>f'. \<not> leads d key f')"
      using leads_flight [OF ok] i'(2) by fastforce
  qed
  moreover have "caller_ok loads sh (?cs[i := c'] ! j)" if "j < length ?cs" for j
  proof (cases "j = i")
    case False
    then have "\<not> leads (?cs ! j) key f'" if "leads c key f" for key f f'
      using one_leaderD [OF lead i'(1) \<open>j < length ?cs\<close>] i'(2) that by blast
    with False that show ?thesis by (simp add: others ok)
  qed (use new i' in simp)
  ultimately show ?thesis
    using sh by (auto simp: flight_inv_def in_set_conv_nth)
qed

lemma caller_ok_cong:
  "fs_flights sh = fs_flights sh' \<Longrightarrow> fs_results sh = fs_results sh' \<Longrightarrow> fs_next sh = fs_next sh' \<Longrightarrow>
   caller_ok loads sh d \<longleftrightarrow> caller_ok loads sh' d"
  by (cases d) (auto split: option.split)

lemma flight_lookup_keeps:
  assumes "flight_lookup enabled now key sh = (v, sh')"
  shows "fs_flights sh' = fs_flights sh" "fs_results sh' = fs_results sh" "fs_next sh' = fs_next sh"
    and "shared_ok loads sh \<Longrightarrow> shared_ok loads sh'"
    and "shared_ok loads sh \<Longrightarrow> v = Some x \<Longrightarrow> served loads key (Inr x)"
proof -
  show flds: "fs_flights sh' = fs_flights sh" "fs_results sh' = fs_results sh" "fs_next sh' = fs_next sh"
    using assms by (auto simp: flight_lookup_def split: if_splits prod.splits)
  show "shared_ok loads sh'" if "shared_ok loads sh"
  proof -
    have "dnsc.sound (\<lambda>key v. \<exists>ttl. loads key v ttl) (fs_cache sh')"
      using assms that dnsc.sound_get [of "\<lambda>key v. \<exists>ttl. loads key v ttl" "fs_cache sh" now key]
      by (auto simp: flight_lookup_def shared_ok_def split: if_splits prod.splits)
    with that show ?thesis unfolding shared_ok_def flds by blast
  qed
  show "served loads key (Inr x)" if ok: "shared_ok loads sh" and v: "v = Some x"
  proof -
    obtain c where "cache_get now key (fs_cache sh) = (Some x, c)"
      using assms v by (auto simp: flight_lookup_def split: if_splits prod.splits)
    from dnsc.sound_served [OF _ this, of "\<lambda>key v. \<exists>ttl. loads key v ttl"] ok show ?thesis
      by (auto simp: shared_ok_def served_def)
  qed
qed

lemma flight_store_keeps:
  "fs_flights (flight_store enabled now key v ttl sh) = fs_flights sh"
  "fs_results (flight_store enabled now key v ttl sh) = fs_results sh"
  "fs_next (flight_store enabled now key v ttl sh) = fs_next sh"
  by (simp_all add: flight_store_def)

lemma shared_ok_store:
  assumes "shared_ok loads sh" and "loads key v ttl"
  shows "shared_ok loads (flight_store enabled now key v ttl sh)"
proof -
  have "dnsc.sound (\<lambda>key v. \<exists>ttl. loads key v ttl) (fs_cache (flight_store enabled now key v ttl sh))"
    using assms dnsc.sound_put [of "\<lambda>key v. \<exists>ttl. loads key v ttl" "fs_cache sh" key v now ttl]
    by (auto simp: flight_store_def shared_ok_def)
  with assms(1) show ?thesis unfolding shared_ok_def flight_store_keeps by blast
qed

lemma flight_join_leader:
  assumes "flight_join key sh = ((f, True), sh')"
  shows "hm_get (fs_flights sh) key = None" and "f = fs_next sh"
    and "fs_flights sh' = hm_insert key f (fs_flights sh)" and "fs_results sh' = (fs_results sh)(f := None)"
    and "fs_next sh' = Suc f" and "fs_cache sh' = fs_cache sh"
  using assms by (auto simp: flight_join_def split: option.splits)

lemma flight_join_follower:
  "flight_join key sh = ((f, False), sh') \<longleftrightarrow> hm_get (fs_flights sh) key = Some f \<and> sh' = sh"
  by (auto simp: flight_join_def split: option.splits)

lemma shared_ok_join:
  assumes "shared_ok loads sh" and "flight_join key sh = ((f, True), sh')"
  shows "shared_ok loads sh'"
  using assms(1) unfolding shared_ok_def
  by (auto simp: flight_join_leader [OF assms(2)] hm_get_insert less_Suc_eq split: if_splits)

lemma flight_step_inv:
  assumes "flight_step enabled loads y y'" and inv: "flight_inv loads y"
  shows "flight_inv loads y'"
  using assms(1)
proof cases
  case (hit i now key v sh)
  note keeps = flight_lookup_keeps [OF hit(3)]
  from inv have "shared_ok loads (fy_shared y)" by (simp add: flight_inv_def)
  with keeps show ?thesis
    unfolding hit(1) by (intro flight_inv_set [OF inv hit(2)]) (auto simp: caller_ok_cong [OF keeps(1-3)])
next
  case (miss i now key sh)
  note keeps = flight_lookup_keeps [OF miss(3)]
  from inv have "shared_ok loads (fy_shared y)" by (simp add: flight_inv_def)
  with keeps(4) show ?thesis
    unfolding miss(1) by (intro flight_inv_set [OF inv miss(2)]) (auto simp: caller_ok_cong [OF keeps(1-3)])
next
  case (follow i key f sh)
  with inv show ?thesis
    unfolding follow(1)
    by (intro flight_inv_set [OF inv follow(2)])
       (auto simp: flight_join_follower flight_inv_def shared_ok_def split: option.split)
next
  case (lead i key f sh)
  note join = flight_join_leader [OF lead(3)]
  have sh: "shared_ok loads (fy_shared y)" using inv by (simp add: flight_inv_def)
  have below: "g < f" if "hm_get (fs_flights (fy_shared y)) k = Some g" for k g
    using sh that by (simp add: shared_ok_def join(2))
  have "caller_ok loads sh d" if "caller_ok loads (fy_shared y) d" for d
    using that below by (cases d) (auto simp: join hm_get_insert split: option.splits if_splits)
  then show ?thesis
    unfolding lead(1)
    by (intro flight_inv_set [OF inv lead(2)]) (auto simp: join hm_get_insert shared_ok_join [OF sh lead(3)])
next
  case (loaded i key f v ttl now)
  have "shared_ok loads (fy_shared y)" using inv by (simp add: flight_inv_def)
  then show ?thesis
    using flight_inv_at [OF inv loaded(2)] loaded(3) unfolding loaded(1)
    by (intro flight_inv_set [OF inv loaded(2)])
       (auto simp: shared_ok_store flight_store_keeps caller_ok_cong [OF flight_store_keeps] from_load_def)
next
  case (failed i key f e)
  then show ?thesis
    using flight_inv_at [OF inv failed(2)] inv unfolding failed(1)
    by (intro flight_inv_set [OF inv failed(2)]) (auto simp: from_load_def flight_inv_def)
next
  case (wake i key f r)
  then show ?thesis
    using flight_inv_at [OF inv wake(2)] inv unfolding wake(1)
    by (intro flight_inv_set [OF inv wake(2)])
       (auto simp: flight_wait_def flight_inv_def from_load_def served_def)
next
  case (complete i key f r)
  have sh: "shared_ok loads (fy_shared y)" using inv by (simp add: flight_inv_def)
  have own: "hm_get (fs_flights (fy_shared y)) key = Some f" "fs_results (fy_shared y) f = None" "from_load loads key r"
    using flight_inv_at [OF inv complete(2)] by simp_all
  have key: "k = key" if "hm_get (fs_flights (fy_shared y)) k = Some f" for k
    using sh own(1) that by (auto simp: shared_ok_def)
  have "shared_ok loads (flight_complete f r (fy_shared y))"
    using sh own(3) key unfolding shared_ok_def by (auto simp: flight_complete_def)
  moreover have "caller_ok loads (flight_complete f r (fy_shared y)) d"
    if d: "caller_ok loads (fy_shared y) d" and "\<not> leads d key f" for d
  proof -
    have "f < fs_next (fy_shared y)" using sh own(1) by (auto simp: shared_ok_def)
    with d that(2) own show ?thesis
      by (cases d) (auto simp: flight_complete_def split: option.splits dest: key)
  qed
  ultimately show ?thesis
    using own unfolding complete(1)
    by (intro flight_inv_set [OF inv complete(2)]) (auto simp: flight_complete_def)
next
  case (remove i key f r)
  have sh: "shared_ok loads (fy_shared y)" using inv by (simp add: flight_inv_def)
  have own: "hm_get (fs_flights (fy_shared y)) key = Some f" "fs_results (fy_shared y) f = Some r" "from_load loads key r"
    using flight_inv_at [OF inv remove(2)] by simp_all
  have "shared_ok loads (flight_remove key (fy_shared y))"
    using sh unfolding shared_ok_def by (auto simp: flight_remove_def hm_get_remove split: if_splits)
  moreover have "caller_ok loads (flight_remove key (fy_shared y)) d"
    if "caller_ok loads (fy_shared y) d" and "\<And>f'. \<not> leads d key f'" for d
    using that own by (cases d) (auto simp: flight_remove_def hm_get_remove split: option.splits)
  ultimately show ?thesis
    using own unfolding remove(1)
    by (intro flight_inv_set [OF inv remove(2)]) (auto simp: served_def from_load_def)
qed

lemma flight_drop_inv: "flight_drop y y' \<Longrightarrow> flight_inv loads y \<Longrightarrow> flight_inv loads y'"
proof (induction rule: flight_drop.induct)
  case (drop_waiting y i key f)
  then show ?case by (intro flight_inv_set) (auto simp: flight_inv_def)
next
  case (drop_loading y i key f)
  then show ?case by (intro flight_inv_set) (auto simp: flight_inv_def)
qed

lemma flight_start_inv:
  assumes "dnsc.sound (\<lambda>key v. \<exists>ttl. loads key v ttl) c"
  shows "flight_inv loads (flight_start c n)"
  using assms by (auto simp: flight_inv_def flight_start_def new_flights_def shared_ok_def one_leader_def)

lemma flight_reach_inv:
  "flight_reach enabled loads drops y0 y \<Longrightarrow> flight_inv loads y0 \<Longrightarrow> flight_inv loads y"
  by (induction rule: flight_reach.induct) (auto intro: flight_step_inv flight_drop_inv)

lemma sound_new_cache: "capacity \<le> usize_max \<Longrightarrow> dnsc.sound P (new_cache capacity disable_expire)"
  using cache_inv_new [of capacity disable_expire]
  by (auto simp: dnsc.sound_def cache_holds_def new_cache_def)

text \<open>
  C23. Concurrent queries are shared soundly: whatever the interleaving of callers, and whichever
  futures are dropped, no key is ever queried by two callers at the same time, and a caller gets
  for its key only a value that a query of this very key has answered, as answered or aged by
  the cache.
\<close>

theorem flight_shares_soundly:
  assumes "flight_reach enabled loads drops (flight_start (new_cache capacity disable_expire) n) y"
    and "capacity \<le> usize_max"
  shows "(at y i (Loading key f) \<and> at y j (Loading key f') \<longrightarrow> i = j) \<and>
    (at y i (Returned key (Inr v)) \<longrightarrow> (\<exists>w ttl. loads key w ttl \<and> (v = w \<or> cache_view w v)))"
proof -
  have inv: "flight_inv loads y"
    by (rule flight_reach_inv [OF assms(1)]) (rule flight_start_inv [OF sound_new_cache [OF assms(2)]])
  then have "i = j" if "at y i (Loading key f)" "at y j (Loading key f')"
    using one_leaderD [of "fy_callers y" i j key f f'] that by (simp add: flight_inv_def at_def)
  moreover have "\<exists>w ttl. loads key w ttl \<and> (v = w \<or> cache_view w v)" if "at y i (Returned key (Inr v))"
    using flight_inv_at [OF inv that] by (simp add: served_def)
  ultimately show ?thesis by blast
qed

section \<open>Every call returns\<close>

fun rank :: "caller \<Rightarrow> nat" where
  "rank Idle = 5"
| "rank (Missed _) = 4"
| "rank (Loading _ _) = 3"
| "rank (Loaded _ _ _) = 2"
| "rank (Completed _ _ _) = 1"
| "rank (Waiting _ _) = 1"
| "rank _ = 0"

definition work :: "flight_system \<Rightarrow> nat" where
  "work y = sum_list (map rank (fy_callers y))"

lemma work_set:
  assumes "at y i c" and "rank c' < rank c"
  shows "work (fy_set i c' sh y) < work y"
proof -
  from assms(1) have i: "i < length (map rank (fy_callers y))" "map rank (fy_callers y) ! i = rank c"
    by (simp_all add: at_def)
  then have "rank c \<le> sum_list (map rank (fy_callers y))"
    using elem_le_sum_list [of i "map rank (fy_callers y)"] by simp
  with i assms(2) show ?thesis
    by (simp add: work_def map_update sum_list_update)
qed

lemma flight_step_work: "flight_step enabled loads y y' \<Longrightarrow> work y' < work y"
  by (induction rule: flight_step.induct) (erule work_set, simp)+

lemma led_set:
  assumes "led y" and i: "at y i c"
    and flights: "\<And>key f. hm_get (fs_flights sh) key = Some f \<Longrightarrow>
      leads c' key f \<or> (hm_get (fs_flights (fy_shared y)) key = Some f \<and> \<not> leads c key f)"
  shows "led (fy_set i c' sh y)"
  unfolding led_def
proof (intro allI impI)
  fix key f assume "hm_get (fs_flights (fy_shared (fy_set i c' sh y))) key = Some f"
  then consider "leads c' key f" | "hm_get (fs_flights (fy_shared y)) key = Some f" "\<not> leads c key f"
    using flights by auto
  then show "\<exists>d \<in> set (fy_callers (fy_set i c' sh y)). leads d key f"
  proof cases
    case 1
    with i show ?thesis by (auto simp: at_def set_update_memI)
  next
    case 2
    then obtain d where "d \<in> set (fy_callers y)" "leads d key f"
      using assms(1) unfolding led_def by blast
    then obtain j where j: "j < length (fy_callers y)" "leads (fy_callers y ! j) key f"
      by (auto simp: in_set_conv_nth)
    with 2(2) i have "(fy_callers y)[i := c'] ! j = fy_callers y ! j"
      by (cases "j = i") (auto simp: at_def)
    with j show ?thesis by (metis fy_set_simps(2) length_list_update nth_mem)
  qed
qed

lemma flight_step_led:
  assumes "flight_step enabled loads y y'" and inv: "flight_inv loads y" and led: "led y"
  shows "led y'"
  using assms(1)
proof cases
  case (hit i now key v sh)
  with flight_lookup_keeps(1) [OF hit(3)] show ?thesis
    unfolding hit(1) by (intro led_set [OF led hit(2)]) simp
next
  case (miss i now key sh)
  with flight_lookup_keeps(1) [OF miss(3)] show ?thesis
    unfolding miss(1) by (intro led_set [OF led miss(2)]) simp
next
  case (follow i key f sh)
  then show ?thesis
    unfolding follow(1) by (intro led_set [OF led follow(2)]) (auto simp: flight_join_follower)
next
  case (lead i key f sh)
  with flight_join_leader [OF lead(3)] show ?thesis
    unfolding lead(1) by (intro led_set [OF led lead(2)]) (auto simp: hm_get_insert split: if_splits)
next
  case (loaded i key f v ttl now)
  then show ?thesis
    unfolding loaded(1) by (intro led_set [OF led loaded(2)]) (auto simp: flight_store_keeps)
next
  case (failed i key f e)
  then show ?thesis unfolding failed(1) by (intro led_set [OF led failed(2)]) auto
next
  case (complete i key f r)
  then show ?thesis
    unfolding complete(1) by (intro led_set [OF led complete(2)]) (auto simp: flight_complete_def)
next
  case (remove i key f r)
  then show ?thesis
    unfolding remove(1)
    by (intro led_set [OF led remove(2)]) (auto simp: flight_remove_def hm_get_remove split: if_splits)
next
  case (wake i key f r)
  then show ?thesis unfolding wake(1) by (intro led_set [OF led wake(2)]) auto
qed

text \<open>A caller that leads a flight, or has not asked yet, can always go on.\<close>

lemma leader_steps: "at y i c \<Longrightarrow> leads c key f \<Longrightarrow> \<exists>y'. flight_step enabled loads y y'"
  by (cases c) (auto intro: flight_step.failed flight_step.complete flight_step.remove)

lemma asker_steps: "at y i Idle \<Longrightarrow> \<exists>y'. flight_step enabled loads y y'"
  using flight_step.hit flight_step.miss by (metis option.exhaust prod.exhaust)

lemma joiner_steps:
  assumes "at y i (Missed key)"
  shows "\<exists>y'. flight_step enabled loads y y'"
proof -
  obtain f l sh where "flight_join key (fy_shared y) = ((f, l), sh)" by (metis prod.exhaust)
  with assms show ?thesis
    by (cases l) (auto intro: flight_step.lead flight_step.follow)
qed

lemma flight_progress:
  assumes inv: "flight_inv loads y" and led: "led y" and i: "at y i c" and "rank c \<noteq> 0"
  shows "\<exists>y'. flight_step enabled loads y y'"
proof (cases c)
  case (Waiting key f)
  show ?thesis
  proof (cases "fs_results (fy_shared y) f")
    case None
    with flight_inv_at [OF inv i] Waiting have "hm_get (fs_flights (fy_shared y)) key = Some f" by simp
    with led obtain d where "d \<in> set (fy_callers y)" "leads d key f" unfolding led_def by blast
    then show ?thesis by (metis at_def in_set_conv_nth leader_steps)
  next
    case (Some r)
    then show ?thesis using flight_step.wake [of y i key f r] i Waiting by (auto simp: flight_wait_def)
  qed
qed (use assms i asker_steps joiner_steps leader_steps in \<open>auto intro: leader_steps [OF i]\<close>)

lemma flight_step_callers:
  assumes "flight_step enabled loads y y'"
  shows "length (fy_callers y') = length (fy_callers y)"
    and "Dropped \<notin> set (fy_callers y) \<Longrightarrow> Dropped \<notin> set (fy_callers y')"
  using assms
  by (induction rule: flight_step.induct) (auto dest!: set_update_subset_insert [THEN subsetD])

lemma flight_run_keeps:
  assumes "(flight_step enabled loads ^^ m) y0 y" and "flight_inv loads y0" and "led y0"
    and "Dropped \<notin> set (fy_callers y0)"
  shows "m + work y \<le> work y0 \<and> flight_inv loads y \<and> led y \<and> Dropped \<notin> set (fy_callers y) \<and>
    length (fy_callers y) = length (fy_callers y0)"
  using assms
proof (induction m arbitrary: y)
  case (Suc m)
  then obtain x where run: "(flight_step enabled loads ^^ m) y0 x" and step: "flight_step enabled loads x y"
    by (auto elim: relpowp_Suc_E)
  note x = Suc.IH [OF run Suc.prems(2-4)]
  show ?case
    using x flight_step_work [OF step] flight_step_inv [OF step] flight_step_led [OF step]
      flight_step_callers [OF step] by auto
qed simp


section \<open>A dropped leader\<close>

definition orphaned :: "cache_key \<Rightarrow> nat \<Rightarrow> flight_system \<Rightarrow> bool" where
  "orphaned key f y \<longleftrightarrow>
    hm_get (fs_flights (fy_shared y)) key = Some f \<and> fs_results (fy_shared y) f = None \<and>
    (\<forall>c \<in> set (fy_callers y). \<forall>k. \<not> leads c k f)"

lemma orphaned_set:
  assumes "orphaned key f y" and "at y i c" and "hm_get (fs_flights sh) key = Some f" and "fs_results sh f = None"
    and "\<And>k. \<not> leads c' k f"
  shows "orphaned key f (fy_set i c' sh y)"
  using assms by (auto simp: orphaned_def dest!: set_update_subset_insert [THEN subsetD])

lemma orphaned_step:
  assumes "flight_step enabled loads y y'" and inv: "flight_inv loads y" and o: "orphaned key f y"
  shows "orphaned key f y'"
proof -
  have own: "hm_get (fs_flights (fy_shared y)) key = Some f" "fs_results (fy_shared y) f = None"
    using o by (simp_all add: orphaned_def)
  have no_leader: False if "at y i c" "leads c k f" for i c k
    using o that by (auto simp: orphaned_def at_def)
  have old: "f < fs_next (fy_shared y)" using inv own(1) by (auto simp: flight_inv_def shared_ok_def)
  show ?thesis
    using assms(1)
  proof cases
    case (hit i now k v sh)
    then show ?thesis
      using own flight_lookup_keeps(1,2) [OF hit(3)] by (auto intro!: orphaned_set [OF o])
  next
    case (miss i now k sh)
    then show ?thesis
      using own flight_lookup_keeps(1,2) [OF miss(3)] by (auto intro!: orphaned_set [OF o])
  next
    case (follow i k g sh)
    then show ?thesis
      using own by (auto intro!: orphaned_set [OF o] simp: flight_join_follower)
  next
    case (lead i k g sh)
    note join = flight_join_leader [OF lead(3)]
    have "k \<noteq> key" "g \<noteq> f" using own join(1,2) old by auto
    then show ?thesis
      unfolding lead(1) using own by (intro orphaned_set [OF o lead(2)]) (auto simp: join hm_get_insert)
  next
    case (loaded i k g v ttl now)
    then show ?thesis
      using own no_leader [OF loaded(2)] by (auto intro!: orphaned_set [OF o] simp: flight_store_keeps)
  next
    case (failed i k g e)
    then show ?thesis using own no_leader [OF failed(2)] by (auto intro!: orphaned_set [OF o])
  next
    case (complete i k g r)
    then show ?thesis
      using own no_leader [OF complete(2)] by (auto intro!: orphaned_set [OF o] simp: flight_complete_def)
  next
    case (remove i k g r)
    have "k \<noteq> key"
      using flight_inv_at [OF inv remove(2)] own no_leader [OF remove(2)] by auto
    then show ?thesis
      unfolding remove(1) using own
      by (intro orphaned_set [OF o remove(2)]) (auto simp: flight_remove_def hm_get_remove)
  next
    case (wake i k g r)
    then show ?thesis using own by (auto intro!: orphaned_set [OF o])
  qed
qed

lemma orphaned_drop: "flight_drop y y' \<Longrightarrow> orphaned key f y \<Longrightarrow> orphaned key f y'"
proof (induction rule: flight_drop.induct)
  case (drop_waiting y i k g)
  then show ?case by (intro orphaned_set) (assumption+, simp_all add: orphaned_def)
next
  case (drop_loading y i k g)
  then show ?case by (intro orphaned_set) (assumption+, simp_all add: orphaned_def)
qed

lemma orphaned_reach:
  "flight_reach enabled loads drops y0 y \<Longrightarrow> flight_inv loads y0 \<Longrightarrow> orphaned key f y0 \<Longrightarrow> orphaned key f y"
  by (induction rule: flight_reach.induct) (auto intro: orphaned_step orphaned_drop flight_reach_inv)

text \<open>
  C25. A dropped leader blocks its key for good: once the future of the caller that queries a key
  is dropped, in every later state the flight is still in the map without a result, a caller that
  misses the cache joins it as a follower, and no caller waiting for it is ever woken.
\<close>

theorem dropped_leader_blocks_key:
  assumes "flight_reach enabled loads True (flight_start (new_cache capacity disable_expire) n) y"
    and "capacity \<le> usize_max" and i: "at y i (Loading key f)"
    and later: "flight_reach enabled loads True (fy_set i Dropped (fy_shared y) y) y'"
  shows "flight_join key (fy_shared y') = ((f, False), fy_shared y') \<and> flight_wait f (fy_shared y') = None"
proof -
  let ?y = "fy_set i Dropped (fy_shared y) y"
  have inv: "flight_inv loads y"
    by (rule flight_reach_inv [OF assms(1)]) (rule flight_start_inv [OF sound_new_cache [OF assms(2)]])
  have own: "hm_get (fs_flights (fy_shared y)) key = Some f" "fs_results (fy_shared y) f = None"
    using flight_inv_at [OF inv i] by simp_all
  have same: "k = key" if "hm_get (fs_flights (fy_shared y)) k = Some f" for k
    using inv own(1) that by (auto simp: flight_inv_def shared_ok_def)
  have "\<not> leads ((fy_callers y)[i := Dropped] ! j) k f" if "j < length (fy_callers y)" for j k
  proof (cases "j = i")
    case False
    show ?thesis
    proof
      assume "leads ((fy_callers y)[i := Dropped] ! j) k f"
      with False have lead: "leads (fy_callers y ! j) k f" by simp
      have "caller_ok loads (fy_shared y) (fy_callers y ! j)" using inv that by (simp add: flight_inv_def)
      from leads_flight [OF this lead] have "k = key" by (rule same)
      then show False
        using one_leaderD [of "fy_callers y" i j key f f] inv i lead that False
        by (simp add: flight_inv_def at_def)
    qed
  qed (use that in simp)
  then have "orphaned key f ?y"
    using own by (auto simp: orphaned_def in_set_conv_nth)
  with later flight_drop_inv [OF flight_drop.drop_loading [OF i] inv] have "orphaned key f y'"
    using orphaned_reach by blast
  then show ?thesis by (simp add: orphaned_def flight_join_follower flight_wait_def)
qed

section \<open>Examples\<close>

text \<open>One call with the cache disabled, from the miss to the return.\<close>

abbreviation example_key :: cache_key where
  "example_key \<equiv> KEch ''a''"

abbreviation example_start :: flight_system where
  "example_start \<equiv> flight_start (new_cache 1 False) 1"

definition example_leading :: flight_system where
  "example_leading =
    \<lparr>fy_shared = (new_flights (new_cache 1 False))\<lparr>fs_flights := [(example_key, 0)], fs_next := 1\<rparr>,
     fy_callers = [Loading example_key 0]\<rparr>"

definition example_returned :: flight_system where
  "example_returned =
    \<lparr>fy_shared = (new_flights (new_cache 1 False))\<lparr>fs_results := [0 \<mapsto> Inr (Addresses [])], fs_next := 1\<rparr>,
     fy_callers = [Returned example_key (Inr (Addresses []))]\<rparr>"

lemma example_leads: "(flight_step False (\<lambda>k v ttl. v = Addresses []) ^^ 2) example_start example_leading"
proof -
  let ?R = "flight_step False (\<lambda>k v ttl. v = Addresses [])"
  let ?sh = "new_flights (new_cache 1 False)"
  let ?y = "\<lparr>fy_shared = ?sh, fy_callers = [Missed example_key]\<rparr>"
  have "?R example_start (fy_set 0 (Missed example_key) ?sh example_start)"
    by (rule flight_step.miss [where now = 0]) (simp_all add: at_def flight_start_def flight_lookup_def)
  moreover have "fy_set 0 (Missed example_key) ?sh example_start = ?y"
    by (simp add: fy_set_def flight_start_def)
  moreover have "?R ?y (fy_set 0 (Loading example_key 0) (fy_shared example_leading) ?y)"
    by (rule flight_step.lead)
       (simp_all add: at_def flight_join_def new_flights_def example_leading_def fun_upd_idem)
  moreover have "fy_set 0 (Loading example_key 0) (fy_shared example_leading) ?y = example_leading"
    by (simp add: fy_set_def example_leading_def)
  ultimately show ?thesis by (auto simp: numeral_2_eq_2)
qed

lemma example_returns: "(flight_step False (\<lambda>k v ttl. v = Addresses []) ^^ 3) example_leading example_returned"
proof -
  let ?R = "flight_step False (\<lambda>k v ttl. v = Addresses [])"
  let ?r = "Inr (Addresses []) :: flight_result"
  let ?sh = "fy_shared example_leading"
  let ?y1 = "\<lparr>fy_shared = ?sh, fy_callers = [Loaded example_key 0 ?r]\<rparr>"
  let ?y2 = "\<lparr>fy_shared = flight_complete 0 ?r ?sh, fy_callers = [Completed example_key 0 ?r]\<rparr>"
  have "?R example_leading ?y1"
    using flight_step.loaded [of example_leading 0 example_key 0 "\<lambda>k v ttl. v = Addresses []" "Addresses []" 1 False 0]
    by (simp add: at_def fy_set_def flight_store_def example_leading_def)
  moreover have "?R ?y1 ?y2"
    using flight_step.complete [of ?y1 0 example_key 0 ?r False] by (simp add: at_def fy_set_def)
  moreover have "?R ?y2 example_returned"
    using flight_step.remove [of ?y2 0 example_key 0 ?r False]
    by (simp add: at_def fy_set_def flight_remove_def flight_complete_def example_leading_def example_returned_def
        new_flights_def)
  ultimately show ?thesis by (auto simp: numeral_3_eq_3)
qed

lemma flight_run_reach: "(flight_step enabled loads ^^ m) y0 y \<Longrightarrow> flight_reach enabled loads drops y0 y"
  by (induction m arbitrary: y) (auto intro: flight_reach.intros elim!: relpowp_Suc_E)

theorem flight_shares_soundly_witness:
  "at example_returned 0 (Returned example_key (Inr (Addresses []))) \<and>
   (\<exists>w. w = Addresses [] \<and> (Addresses [] = w \<or> cache_view w (Addresses [])))"
proof -
  have "(flight_step False (\<lambda>k v ttl. v = Addresses []) ^^ (2 + 3)) example_start example_returned"
    using example_leads example_returns by (auto simp only: relpowp_add)
  then have reach: "flight_reach False (\<lambda>k v ttl. v = Addresses []) True example_start example_returned"
    by (rule flight_run_reach)
  have "at example_returned 0 (Returned example_key (Inr (Addresses [])))" by (simp add: at_def example_returned_def)
  then show ?thesis
    using flight_shares_soundly [OF reach, of 0 example_key 0 0 0 "Addresses []"] by (auto simp: usize_max_def)
qed


theorem dropped_leader_blocks_key_witness:
  "flight_join example_key (fy_shared (fy_set 0 Dropped (fy_shared example_leading) example_leading)) =
    ((0, False), fy_shared example_leading)"
proof -
  have reach: "flight_reach False (\<lambda>k v ttl. v = Addresses []) True example_start example_leading"
    by (rule flight_run_reach [OF example_leads])
  have "at example_leading 0 (Loading example_key 0)" by (simp add: at_def example_leading_def)
  from dropped_leader_blocks_key [OF reach _ this flight_reach.start] show ?thesis
    by (simp add: usize_max_def)
qed

end
