(* ===== verification/Routing.thy ===== *)
theory Routing
  imports Net_Addr
begin

unbundle bit_operations_syntax

text \<open>
  The rule engine of \<^verbatim>\<open>src/src/routing.rs\<close>: compilation of configured rules, matching of a
  connection against them, the eager and the lazy lookup of the next action, the part of the
  matcher DNS rules use, and the scope of the metadata the rules need. A compiled regular
  expression and a compiled network are the predicates they decide; compiling one is a
  parameter (\<open>regex_new\<close> for \<open>regex::Regex::new\<close>, \<open>parse_net\<close> for \<open>str::parse::<IpNet>\<close>).
\<close>

section \<open>Data\<close>

type_synonym regex = "string \<Rightarrow> bool"
type_synonym network = "ip_addr \<Rightarrow> bool"

record route_context =
  rc_domain :: "string option"
  rc_destination_ip :: "ip_addr option"
  rc_destination_ips :: "ip_addr list"
  rc_destination_port :: "u16 option"
  rc_source_ip :: "ip_addr option"
  rc_source_port :: "u16 option"
  rc_network :: "string option"
  rc_protocol :: "string option"
  rc_client :: "string option"
  rc_inbound :: "string option"
  rc_auth_user :: "string option"
  rc_process_name :: "string option"
  rc_process_path :: "string option"
  rc_package_name :: "string option"
  rc_user :: "string option"
  rc_user_id :: "u32 option"
  rc_clash_mode :: "string option"
  rc_network_type :: "string option"
  rc_network_is_expensive :: bool
  rc_network_is_constrained :: bool
  rc_wifi_ssid :: "string option"
  rc_wifi_bssid :: "string option"
  rc_interface_addresses :: "(string, ip_addr list) hashmap option"
  rc_network_interface_addresses :: "(string, ip_addr list) hashmap option"
  rc_source_mac_address :: "string option"
  rc_source_hostname :: "string option"
  rc_default_interface_addresses :: "ip_addr list"
  rc_preferred_by :: "string list"

definition destination_addresses :: "route_context \<Rightarrow> ip_addr list" where
  "destination_addresses c =
    rc_destination_ips c @ (case rc_destination_ip c of None \<Rightarrow> [] | Some ip \<Rightarrow> [ip])"

datatype route_decision = Outbound string | Reject | HijackDns

record route_options =
  override_address :: "string option"
  override_port :: "u16 option"
  network_strategy :: "string option"
  fallback_delay :: "string option"
  udp_disable_domain_unmapping :: bool
  udp_connect :: bool
  udp_timeout :: "string option"
  tls_fragment :: bool
  tls_fragment_fallback_delay :: "string option"
  tls_record_fragment :: bool
  tls_spoof :: "string option"
  tls_spoof_method :: "string option"
  bind_interface :: "string option"
  inet4_bind_address :: "string option"
  inet6_bind_address :: "string option"
  routing_mark :: "u32 option"
  reuse_addr :: bool
  connect_timeout :: "string option"
  tcp_fast_open :: bool
  tcp_multi_path :: bool
  udp_fragment :: "bool option"
  domain_strategy :: "string option"
  reject_method :: "string option"
  reject_no_drop :: bool

definition default_options :: route_options where
  "default_options =
    \<lparr>override_address = None, override_port = None, network_strategy = None, fallback_delay = None,
     udp_disable_domain_unmapping = False, udp_connect = False, udp_timeout = None,
     tls_fragment = False, tls_fragment_fallback_delay = None, tls_record_fragment = False,
     tls_spoof = None, tls_spoof_method = None, bind_interface = None, inet4_bind_address = None,
     inet6_bind_address = None, routing_mark = None, reuse_addr = False, connect_timeout = None,
     tcp_fast_open = False, tcp_multi_path = False, udp_fragment = None, domain_strategy = None,
     reject_method = None, reject_no_drop = False\<rparr>"

text \<open>\<open>if newer.x.is_some() { self.x = newer.x.clone() }\<close>\<close>

definition newer_or :: "'a option \<Rightarrow> 'a option \<Rightarrow> 'a option" where
  "newer_or newer old = (case newer of None \<Rightarrow> old | Some v \<Rightarrow> Some v)"

definition merge_options :: "route_options \<Rightarrow> route_options \<Rightarrow> route_options" where
  "merge_options old newer =
    \<lparr>override_address = newer_or (override_address newer) (override_address old),
     override_port = newer_or (override_port newer) (override_port old),
     network_strategy = newer_or (network_strategy newer) (network_strategy old),
     fallback_delay = newer_or (fallback_delay newer) (fallback_delay old),
     udp_disable_domain_unmapping = (udp_disable_domain_unmapping old \<or> udp_disable_domain_unmapping newer),
     udp_connect = (udp_connect old \<or> udp_connect newer),
     udp_timeout = newer_or (udp_timeout newer) (udp_timeout old),
     tls_fragment = (tls_fragment old \<or> tls_fragment newer),
     tls_fragment_fallback_delay = newer_or (tls_fragment_fallback_delay newer) (tls_fragment_fallback_delay old),
     tls_record_fragment = (tls_record_fragment old \<or> tls_record_fragment newer),
     tls_spoof = newer_or (tls_spoof newer) (tls_spoof old),
     tls_spoof_method = newer_or (tls_spoof_method newer) (tls_spoof_method old),
     bind_interface = newer_or (bind_interface newer) (bind_interface old),
     inet4_bind_address = newer_or (inet4_bind_address newer) (inet4_bind_address old),
     inet6_bind_address = newer_or (inet6_bind_address newer) (inet6_bind_address old),
     routing_mark = newer_or (routing_mark newer) (routing_mark old),
     reuse_addr = (reuse_addr old \<or> reuse_addr newer),
     connect_timeout = newer_or (connect_timeout newer) (connect_timeout old),
     tcp_fast_open = (tcp_fast_open old \<or> tcp_fast_open newer),
     tcp_multi_path = (tcp_multi_path old \<or> tcp_multi_path newer),
     udp_fragment = newer_or (udp_fragment newer) (udp_fragment old),
     domain_strategy = newer_or (domain_strategy newer) (domain_strategy old),
     reject_method = newer_or (reject_method newer) (reject_method old),
     reject_no_drop = (reject_no_drop old \<or> reject_no_drop newer)\<rparr>"

datatype rule_action =
  ARoute route_decision route_options
| ARouteOptions route_options
| ASniff (sniffers: "string list") (sniff_timeout: "string option")
| AResolve (res_server: "string option") (res_timeout: "string option") (res_strategy: "string option")
    (res_disable_cache: bool) (res_rewrite_ttl: "u32 option") (res_client_subnet: "string option")

datatype logical_mode = LAnd | LOr

text \<open>The fields of \<open>CompiledRule\<close> that describe one connection, without the nested rules.\<close>

record match_fields =
  mf_domains :: "string list"
  mf_suffixes :: "string list"
  mf_keywords :: "string list"
  mf_regexes :: "regex list"
  mf_cidrs :: "network list"
  mf_source_cidrs :: "network list"
  mf_ip_versions :: "u8 list"
  mf_ip_private :: bool
  mf_source_private :: bool
  mf_source_ports :: "(u16 \<times> u16) list"
  mf_ports :: "(u16 \<times> u16) list"
  mf_networks :: "string list"
  mf_protocols :: "string list"
  mf_clients :: "string list"
  mf_inbounds :: "string list"
  mf_auth_users :: "string list"
  mf_process_names :: "string list"
  mf_process_paths :: "string list"
  mf_process_path_regexes :: "regex list"
  mf_package_names :: "string list"
  mf_package_name_regexes :: "regex list"
  mf_users :: "string list"
  mf_user_ids :: "u32 list"
  mf_clash_mode :: "string option"
  mf_network_types :: "string list"
  mf_network_is_expensive :: bool
  mf_network_is_constrained :: bool
  mf_wifi_ssids :: "string list"
  mf_wifi_bssids :: "string list"
  mf_interface_addresses :: "(string, network list) hashmap"
  mf_network_interface_addresses :: "(string, network list) hashmap"
  mf_source_mac_addresses :: "string list"
  mf_source_hostnames :: "string list"
  mf_default_interface_addresses :: "network list"
  mf_preferred_by :: "string list"
  mf_rule_set_ip_cidr_match_source :: bool

datatype compiled_rule =
  CompiledRule (logical_mode: "logical_mode option") (logical_rules: "compiled_rule list")
    (fields: match_fields) (rule_sets: "compiled_rule list list") (cr_action: rule_action)
    (cr_invert: bool) (requires_destination_ip: bool)

section \<open>Matching\<close>

definition is_some_and :: "'a option \<Rightarrow> ('a \<Rightarrow> bool) \<Rightarrow> bool" where
  "is_some_and v P = (case v of None \<Rightarrow> False | Some x \<Rightarrow> P x)"

lemma is_some_and_simps [simp]:
  "is_some_and None P = False"
  "is_some_and (Some x) P = P x"
  by (simp_all add: is_some_and_def)

lemma is_some_and_iff: "is_some_and v P \<longleftrightarrow> (\<exists>x. v = Some x \<and> P x)"
  by (cases v) simp_all

definition eq_ignore_ascii_case :: "string \<Rightarrow> string \<Rightarrow> bool" where
  "eq_ignore_ascii_case a b \<longleftrightarrow> to_ascii_lowercase a = to_ascii_lowercase b"

definition match_field :: "string list \<Rightarrow> string option \<Rightarrow> bool" where
  "match_field expected actual \<longleftrightarrow>
    expected = [] \<or> is_some_and actual (\<lambda>v. list_ex (\<lambda>x. eq_ignore_ascii_case x v) expected)"

definition normalize_domain :: "string \<Rightarrow> string" where
  "normalize_domain s = to_ascii_lowercase (trim_end_matches CHR ''.'' s)"

definition suffix_matches :: "string \<Rightarrow> string \<Rightarrow> bool" where
  "suffix_matches d s \<longleftrightarrow> d = s \<or> is_some_and (strip_suffix d s) (\<lambda>r. ends_with r ''.'')"

definition version_matches :: "u8 \<Rightarrow> ip_addr \<Rightarrow> bool" where
  "version_matches version ip = (case ip of V4 _ \<Rightarrow> version = 4 | V6 _ \<Rightarrow> version = 6)"

definition in_range :: "u16 \<times> u16 \<Rightarrow> u16 \<Rightarrow> bool" where
  "in_range r p \<longleftrightarrow> fst r \<le> p \<and> p \<le> snd r"

text \<open>
  \<open>is_private\<close> with the predicates of \<open>Ipv4Addr\<close> and \<open>Ipv6Addr\<close> it calls, on the octets and on
  the first 16-bit segment.
\<close>

definition is_private :: "ip_addr \<Rightarrow> bool" where
  "is_private ip =
    (case ip of
       V4 value \<Rightarrow>
         (let o0 = drop_bit 24 value; o1 = drop_bit 16 value AND 0xFF in
          o0 = 10 \<or> (o0 = 172 \<and> 16 \<le> o1 \<and> o1 \<le> 31) \<or> (o0 = 192 \<and> o1 = 168) \<or>
          o0 = 127 \<or> (o0 = 169 \<and> o1 = 254) \<or> value = 0)
     | V6 value \<Rightarrow>
         (let s0 = drop_bit 112 value in
          value = 1 \<or> value = 0 \<or> s0 AND 0xFE00 = 0xFC00 \<or> s0 AND 0xFFC0 = 0xFE80))"

definition address_map_matches ::
  "(string, network list) hashmap \<Rightarrow> (string, ip_addr list) hashmap option \<Rightarrow> bool" where
  "address_map_matches expected actual \<longleftrightarrow>
    expected = [] \<or>
    is_some_and actual (\<lambda>actual.
      list_ex (\<lambda>(key, networks).
        is_some_and (hm_get actual key) (\<lambda>addresses.
          list_ex (\<lambda>ip. list_ex (\<lambda>network. network ip) networks) addresses)) expected)"

text \<open>The conditions of \<open>matches\<close> on the fields, in the order of the source.\<close>

definition fields_match :: "match_fields \<Rightarrow> route_context \<Rightarrow> string option \<Rightarrow> bool" where
  "fields_match f c domain \<longleftrightarrow>
    (mf_domains f = [] \<or> is_some_and domain (\<lambda>d. list_ex (\<lambda>s. s = d) (mf_domains f))) \<and>
    (mf_suffixes f = [] \<or> is_some_and domain (\<lambda>d. list_ex (suffix_matches d) (mf_suffixes f))) \<and>
    (mf_keywords f = [] \<or> is_some_and domain (\<lambda>d. list_ex (contains d) (mf_keywords f))) \<and>
    (mf_regexes f = [] \<or> is_some_and domain (\<lambda>d. list_ex (\<lambda>r. r d) (mf_regexes f))) \<and>
    (mf_cidrs f = [] \<or> list_ex (\<lambda>ip. list_ex (\<lambda>n. n ip) (mf_cidrs f)) (destination_addresses c)) \<and>
    (mf_source_cidrs f = [] \<or> is_some_and (rc_source_ip c) (\<lambda>ip. list_ex (\<lambda>n. n ip) (mf_source_cidrs f))) \<and>
    (mf_ip_versions f = [] \<or>
       list_ex (\<lambda>ip. list_ex (\<lambda>v. version_matches v ip) (mf_ip_versions f)) (destination_addresses c)) \<and>
    (\<not> mf_ip_private f \<or> list_ex is_private (destination_addresses c)) \<and>
    (\<not> mf_source_private f \<or> is_some_and (rc_source_ip c) is_private) \<and>
    (mf_source_ports f = [] \<or>
       is_some_and (rc_source_port c) (\<lambda>p. list_ex (\<lambda>r. in_range r p) (mf_source_ports f))) \<and>
    (mf_ports f = [] \<or>
       is_some_and (rc_destination_port c) (\<lambda>p. list_ex (\<lambda>r. in_range r p) (mf_ports f))) \<and>
    match_field (mf_networks f) (rc_network c) \<and>
    match_field (mf_protocols f) (rc_protocol c) \<and>
    match_field (mf_clients f) (rc_client c) \<and>
    (mf_inbounds f = [] \<or> is_some_and (rc_inbound c) (\<lambda>v. list_ex (\<lambda>x. x = v) (mf_inbounds f))) \<and>
    match_field (mf_auth_users f) (rc_auth_user c) \<and>
    match_field (mf_process_names f) (rc_process_name c) \<and>
    (mf_process_paths f = [] \<or>
       is_some_and (rc_process_path c) (\<lambda>v. list_ex (\<lambda>x. x = v) (mf_process_paths f))) \<and>
    (mf_process_path_regexes f = [] \<or>
       is_some_and (rc_process_path c) (\<lambda>v. list_ex (\<lambda>r. r v) (mf_process_path_regexes f))) \<and>
    match_field (mf_package_names f) (rc_package_name c) \<and>
    (mf_package_name_regexes f = [] \<or>
       is_some_and (rc_package_name c) (\<lambda>v. list_ex (\<lambda>r. r v) (mf_package_name_regexes f))) \<and>
    match_field (mf_users f) (rc_user c) \<and>
    (mf_user_ids f = [] \<or> is_some_and (rc_user_id c) (\<lambda>v. v \<in> set (mf_user_ids f))) \<and>
    (mf_clash_mode f = None \<or>
       is_some_and (mf_clash_mode f) (\<lambda>expected.
         is_some_and (rc_clash_mode c) (\<lambda>actual. eq_ignore_ascii_case expected actual))) \<and>
    match_field (mf_network_types f) (rc_network_type c) \<and>
    (\<not> mf_network_is_expensive f \<or> rc_network_is_expensive c) \<and>
    (\<not> mf_network_is_constrained f \<or> rc_network_is_constrained c) \<and>
    match_field (mf_wifi_ssids f) (rc_wifi_ssid c) \<and>
    match_field (mf_wifi_bssids f) (rc_wifi_bssid c) \<and>
    address_map_matches (mf_interface_addresses f) (rc_interface_addresses c) \<and>
    address_map_matches (mf_network_interface_addresses f) (rc_network_interface_addresses c) \<and>
    match_field (mf_source_mac_addresses f) (rc_source_mac_address c) \<and>
    match_field (mf_source_hostnames f) (rc_source_hostname c) \<and>
    (mf_default_interface_addresses f = [] \<or>
       list_ex (\<lambda>address. list_ex (\<lambda>n. n address) (mf_default_interface_addresses f))
         (rc_default_interface_addresses c)) \<and>
    (mf_preferred_by f = [] \<or> list_ex (\<lambda>tag. tag \<in> set (mf_preferred_by f)) (rc_preferred_by c))"

text \<open>\<open>rule_sets.iter().flatten().any(..)\<close> is \<open>list_ex (list_ex ..)\<close>.\<close>

fun matches :: "compiled_rule \<Rightarrow> route_context \<Rightarrow> string option \<Rightarrow> bool" where
  "matches (CompiledRule mode nested f sets act invert req) c domain =
    (case mode of
       Some m \<Rightarrow>
         (let matched = (case m of
               LAnd \<Rightarrow> list_all (\<lambda>rule. matches rule c domain) nested
             | LOr \<Rightarrow> list_ex (\<lambda>rule. matches rule c domain) nested) in
          if invert then \<not> matched else matched)
     | None \<Rightarrow>
         (let matched = fields_match f c domain \<and>
            (sets = [] \<or>
             list_ex (list_ex (\<lambda>rule.
               if mf_rule_set_ip_cidr_match_source f
               then matches rule (c\<lparr>rc_destination_ip := rc_source_ip c\<rparr>) domain
               else matches rule c domain)) sets) in
          if invert then \<not> matched else matched))"

section \<open>Domain fields and DNS rules\<close>

text \<open>The four domain conditions, which \<open>routing.rs\<close> writes out in each of its matchers.\<close>

definition domain_matches :: "match_fields \<Rightarrow> string \<Rightarrow> bool" where
  "domain_matches f d \<longleftrightarrow>
    (mf_domains f = [] \<or> list_ex (\<lambda>s. s = d) (mf_domains f)) \<and>
    (mf_suffixes f = [] \<or> list_ex (suffix_matches d) (mf_suffixes f)) \<and>
    (mf_keywords f = [] \<or> list_ex (contains d) (mf_keywords f)) \<and>
    (mf_regexes f = [] \<or> list_ex (\<lambda>r. r d) (mf_regexes f))"

fun dns_matches_domain :: "compiled_rule \<Rightarrow> string \<Rightarrow> bool" where
  "dns_matches_domain (CompiledRule mode nested f sets act invert req) domain =
    (case mode of
       Some m \<Rightarrow>
         (let matched = (case m of
               LAnd \<Rightarrow> list_all (\<lambda>rule. dns_matches_domain rule domain) nested
             | LOr \<Rightarrow> list_ex (\<lambda>rule. dns_matches_domain rule domain) nested) in
          if invert then \<not> matched else matched)
     | None \<Rightarrow>
         if \<not> domain_matches f domain then invert
         else if sets \<noteq> [] \<and> \<not> list_ex (list_ex (\<lambda>rule. dns_matches_domain rule domain)) sets then invert
         else \<not> invert)"

fun domain_fields_match :: "compiled_rule \<Rightarrow> string option \<Rightarrow> bool" where
  "domain_fields_match (CompiledRule mode nested f sets act invert req) domain =
    (case domain of
       None \<Rightarrow> False
     | Some d \<Rightarrow>
        (case mode of
           Some m \<Rightarrow>
             (let matched = (case m of
                   LAnd \<Rightarrow> list_all (\<lambda>rule. domain_fields_match rule (Some d)) nested
                 | LOr \<Rightarrow> list_ex (\<lambda>rule. domain_fields_match rule (Some d)) nested) in
              if invert then \<not> matched else matched)
         | None \<Rightarrow>
             (let matched = domain_matches f d \<and>
                (sets = [] \<or> list_ex (list_ex (\<lambda>rule. domain_fields_match rule (Some d))) sets) in
              if invert then \<not> matched else matched)))"

fun dns_contains_ip_cidr :: "compiled_rule \<Rightarrow> bool" where
  "dns_contains_ip_cidr (CompiledRule mode nested f sets act invert req) =
    (if mf_cidrs f \<noteq> [] then True
     else if list_ex (list_ex dns_contains_ip_cidr) sets then True
     else list_ex dns_contains_ip_cidr nested)"

fun dns_matches_address :: "compiled_rule \<Rightarrow> ip_addr \<Rightarrow> string option \<Rightarrow> bool" where
  "dns_matches_address (CompiledRule mode nested f sets act invert req) address domain =
    (case mode of
       Some m \<Rightarrow>
         (let matched = (case m of
               LAnd \<Rightarrow> list_all (\<lambda>rule. dns_matches_address rule address domain) nested
             | LOr \<Rightarrow> list_ex (\<lambda>rule. dns_matches_address rule address domain) nested) in
          if invert then \<not> matched else matched)
     | None \<Rightarrow>
         (let domain_ok = (case domain of None \<Rightarrow> True | Some d \<Rightarrow> domain_matches f d);
              address_ok =
                (mf_cidrs f = [] \<or> list_ex (\<lambda>n. n address) (mf_cidrs f)) \<and>
                (mf_ip_versions f = [] \<or> list_ex (\<lambda>v. version_matches v address) (mf_ip_versions f)) \<and>
                (\<not> mf_ip_private f \<or> is_private address) \<and>
                (sets = [] \<or> list_ex (list_ex (\<lambda>rule. dns_matches_address rule address domain)) sets) in
          if invert then \<not> (domain_ok \<and> address_ok) else domain_ok \<and> address_ok))"

section \<open>Metadata scope\<close>

record linux_scope =
  ms_process :: bool
  ms_user :: bool
  ms_interface :: bool
  ms_network :: bool
  ms_mac :: bool
  ms_hostname :: bool

definition scope_default :: linux_scope where
  "scope_default = \<lparr>ms_process = False, ms_user = False, ms_interface = False, ms_network = False,
     ms_mac = False, ms_hostname = False\<rparr>"

definition scope_union :: "linux_scope \<Rightarrow> linux_scope \<Rightarrow> linux_scope" where
  "scope_union a b =
    \<lparr>ms_process = (ms_process a \<or> ms_process b), ms_user = (ms_user a \<or> ms_user b),
     ms_interface = (ms_interface a \<or> ms_interface b), ms_network = (ms_network a \<or> ms_network b),
     ms_mac = (ms_mac a \<or> ms_mac b), ms_hostname = (ms_hostname a \<or> ms_hostname b)\<rparr>"

definition fields_scope :: "match_fields \<Rightarrow> linux_scope" where
  "fields_scope f =
    \<lparr>ms_process = (mf_process_names f \<noteq> [] \<or> mf_process_paths f \<noteq> [] \<or> mf_process_path_regexes f \<noteq> [] \<or>
       mf_package_names f \<noteq> [] \<or> mf_package_name_regexes f \<noteq> []),
     ms_user = (mf_users f \<noteq> [] \<or> mf_user_ids f \<noteq> []),
     ms_interface = (mf_interface_addresses f \<noteq> [] \<or> mf_network_interface_addresses f \<noteq> []),
     ms_network = (mf_network_types f \<noteq> [] \<or> mf_network_is_expensive f \<or> mf_network_is_constrained f \<or>
       mf_wifi_ssids f \<noteq> [] \<or> mf_wifi_bssids f \<noteq> [] \<or> mf_default_interface_addresses f \<noteq> []),
     ms_mac = (mf_source_mac_addresses f \<noteq> []),
     ms_hostname = (mf_source_hostnames f \<noteq> [])\<rparr>"

fun metadata_scope :: "compiled_rule \<Rightarrow> linux_scope" where
  "metadata_scope (CompiledRule mode nested f sets act invert req) =
    (let scope1 = foldl (\<lambda>scope rule. scope_union scope (metadata_scope rule)) (fields_scope f) nested in
     foldl (\<lambda>scope s. foldl (\<lambda>scope rule. scope_union scope (metadata_scope rule)) scope s) scope1 sets)"

definition linux_metadata_scope :: "compiled_rule list \<Rightarrow> linux_scope" where
  "linux_metadata_scope rules =
    foldl (\<lambda>scope rule. scope_union scope (metadata_scope rule)) scope_default rules"

section \<open>The router\<close>

record router =
  rt_rules :: "compiled_rule list"
  rt_rule_sets :: "(string, compiled_rule list) hashmap"
  rt_final_outbound :: string
  rt_default_options :: route_options
  rt_default_domain_resolver :: "string option"

fun find_map :: "('a \<Rightarrow> 'b option) \<Rightarrow> 'a list \<Rightarrow> 'b option" where
  "find_map f [] = None"
| "find_map f (x # xs) = (case f x of Some y \<Rightarrow> Some y | None \<Rightarrow> find_map f xs)"

definition route :: "router \<Rightarrow> route_context \<Rightarrow> route_decision" where
  "route r c =
    (let domain = map_option normalize_domain (rc_domain c) in
     case find_map (\<lambda>rule. case cr_action rule of ARoute decision _ \<Rightarrow> Some decision | _ \<Rightarrow> None)
            (filter (\<lambda>rule. matches rule c domain) (rt_rules r)) of
       Some decision \<Rightarrow> decision
     | None \<Rightarrow> Outbound (rt_final_outbound r))"

definition next_action :: "router \<Rightarrow> route_context \<Rightarrow> nat \<Rightarrow> (nat \<times> rule_action) option" where
  "next_action r c from =
    (let domain = map_option normalize_domain (rc_domain c) in
     map_option (\<lambda>(i, rule). (i, cr_action rule))
       (find (\<lambda>(_, rule). matches rule c domain) (drop from (List.enumerate 0 (rt_rules r)))))"

datatype action_lookup = LAction nat rule_action | LNeedResolve nat | LNone

fun lazy_scan :: "route_context \<Rightarrow> string option \<Rightarrow> bool \<Rightarrow> (nat \<times> compiled_rule) list \<Rightarrow> action_lookup" where
  "lazy_scan c domain needs_ip [] = LNone"
| "lazy_scan c domain needs_ip ((i, rule) # rules) =
    (if matches rule c domain then LAction i (cr_action rule)
     else if needs_ip \<and> requires_destination_ip rule \<and> domain_fields_match rule domain
     then LNeedResolve i
     else lazy_scan c domain needs_ip rules)"

definition next_action_lazy :: "router \<Rightarrow> route_context \<Rightarrow> nat \<Rightarrow> action_lookup" where
  "next_action_lazy r c from =
    (let domain = map_option normalize_domain (rc_domain c);
         needs_ip = (destination_addresses c = [] \<and> rc_domain c \<noteq> None) in
     lazy_scan c domain needs_ip (drop from (List.enumerate 0 (rt_rules r))))"

definition set_final_outbound :: "string \<Rightarrow> router \<Rightarrow> router" where
  "set_final_outbound tag r = r\<lparr>rt_final_outbound := tag\<rparr>"

definition replace_from :: "router \<Rightarrow> router \<Rightarrow> router" where
  "replace_from updated r =
    r\<lparr>rt_rules := rt_rules updated, rt_rule_sets := rt_rule_sets updated,
      rt_default_options := rt_default_options updated\<rparr>"

section \<open>Compilation\<close>

text \<open>
  \<open>RouteRule\<close>, in two parts. The option fields of the rule have the names of \<open>RouteOptions\<close>
  (\<open>method\<close> and \<open>no_drop\<close> are \<open>reject_method\<close> and \<open>reject_no_drop\<close>), so they are kept as one.
\<close>

record raw_match =
  rm_type :: string
  rm_mode :: "string option"
  rm_domain :: "string list"
  rm_domain_suffix :: "string list"
  rm_domain_keyword :: "string list"
  rm_domain_regex :: "string list"
  rm_geosite :: "string list"
  rm_geoip :: "string list"
  rm_source_geoip :: "string list"
  rm_ip_cidr :: "string list"
  rm_source_ip_cidr :: "string list"
  rm_ip_is_private :: bool
  rm_source_ip_is_private :: bool
  rm_port :: "u16 list"
  rm_port_range :: "string list"
  rm_network :: "string list"
  rm_ip_version :: "u8 list"
  rm_auth_user :: "string list"
  rm_protocol :: "string list"
  rm_client :: "string list"
  rm_inbound :: "string list"
  rm_source_port :: "u16 list"
  rm_source_port_range :: "string list"
  rm_process_name :: "string list"
  rm_process_path :: "string list"
  rm_process_path_regex :: "string list"
  rm_package_name :: "string list"
  rm_package_name_regex :: "string list"
  rm_user :: "string list"
  rm_user_id :: "u32 list"
  rm_clash_mode :: "string option"
  rm_network_type :: "string list"
  rm_network_is_expensive :: bool
  rm_network_is_constrained :: bool
  rm_wifi_ssid :: "string list"
  rm_wifi_bssid :: "string list"
  rm_interface_address :: "(string, string list) hashmap"
  rm_network_interface_address :: "(string, string list) hashmap"
  rm_default_interface_address :: "string list"
  rm_source_mac_address :: "string list"
  rm_source_hostname :: "string list"
  rm_preferred_by :: "string list"
  rm_rule_set :: "string list"
  rm_rule_set_ip_cidr_match_source :: bool
  rm_invert :: bool

record raw_action =
  ra_outbound :: "string option"
  ra_action :: "string option"
  ra_options :: route_options
  ra_sniffer :: "string list"
  ra_timeout :: "string option"
  ra_server :: "string option"
  ra_strategy :: "string option"
  ra_disable_cache :: bool
  ra_disable_optimistic_cache :: bool
  ra_rewrite_ttl :: "u32 option"
  ra_client_subnet :: "string option"

datatype route_rule = RouteRule (rr_rules: "route_rule list") (rr_match: raw_match) (rr_act: raw_action)

definition lower :: "string list \<Rightarrow> string list" where
  "lower values = map to_ascii_lowercase values"

definition compile_regexes :: "(string \<Rightarrow> regex option) \<Rightarrow> string \<Rightarrow> string list \<Rightarrow> regex list result" where
  "compile_regexes regex_new msg values = map_result (\<lambda>v. with_context msg (regex_new v)) values"

definition parse_nets :: "(string \<Rightarrow> network option) \<Rightarrow> string \<Rightarrow> string list \<Rightarrow> network list result" where
  "parse_nets parse_net msg values = map_result (\<lambda>v. with_context msg (parse_net v)) values"

definition compile_address_map ::
  "(string \<Rightarrow> network option) \<Rightarrow> string \<Rightarrow> (string, string list) hashmap \<Rightarrow>
   (string, network list) hashmap result" where
  "compile_address_map parse_net msg values =
    bindr (map_result (\<lambda>(key, values).
             bindr (parse_nets parse_net msg values) (\<lambda>nets. Inr (to_ascii_lowercase key, nets))) values)
      (\<lambda>pairs. Inr (fold (\<lambda>(key, nets) m. hm_insert key nets m) pairs []))"

definition parse_port :: "string \<Rightarrow> u16 result" where
  "parse_port s =
    (case parse_uint 16 s of None \<Rightarrow> Inl (Bail ''invalid digit'') | Some n \<Rightarrow> Inr (word_of_nat n))"

definition parse_ports :: "string list \<Rightarrow> (u16 \<times> u16) list result" where
  "parse_ports values =
    map_result (\<lambda>v.
      let (a, b) = (case split_once CHR '':'' v of Some p \<Rightarrow> p | None \<Rightarrow> (v, v)) in
      bindr (parse_port a) (\<lambda>x. bindr (parse_port b) (\<lambda>y. Inr (x, y)))) values"

text \<open>\<open>route_options\<close> on Linux.\<close>

definition rule_options :: "raw_action \<Rightarrow> route_options result" where
  "rule_options r =
    (if tls_fragment (ra_options r) \<and> tls_record_fragment (ra_options r)
     then Inl (Bail ''tls_fragment and tls_record_fragment are mutually exclusive'')
     else if tls_spoof (ra_options r) \<noteq> None
     then Inl (Bail ''tls_spoof is not supported by sing-box or xhttp-rs on Linux'')
     else if tcp_multi_path (ra_options r) then Inl (Bail ''tcp_multi_path is not available on Linux'')
     else if ra_action r = Some ''reject'' \<and>
       reject_method (ra_options r) \<notin> {None, Some '''', Some ''drop'', Some ''reply''}
     then Inl (Bail ''unsupported reject method'')
     else Inr (ra_options r))"

definition compile_action :: "raw_action \<Rightarrow> rule_action result" where
  "compile_action r =
    (case ra_action r of
       None \<Rightarrow> bindr (with_context ''route rule requires outbound'' (ra_outbound r)) (\<lambda>tag.
         bindr (rule_options r) (\<lambda>opts. Inr (ARoute (Outbound tag) opts)))
     | Some act \<Rightarrow>
        if act = ''reject'' then bindr (rule_options r) (\<lambda>opts. Inr (ARoute Reject opts))
        else if act = ''hijack-dns'' then Inr (ARoute HijackDns default_options)
        else if act = ''direct'' then bindr (rule_options r) (\<lambda>opts. Inr (ARoute (Outbound ''direct'') opts))
        else if act = ''bypass'' then bindr (rule_options r) (\<lambda>opts.
          Inr (ARoute (Outbound (case ra_outbound r of None \<Rightarrow> ''direct'' | Some tag \<Rightarrow> tag)) opts))
        else if act = ''route'' then bindr (with_context ''route rule requires outbound'' (ra_outbound r)) (\<lambda>tag.
          bindr (rule_options r) (\<lambda>opts. Inr (ARoute (Outbound tag) opts)))
        else if act = ''route-options'' then bindr (rule_options r) (\<lambda>opts. Inr (ARouteOptions opts))
        else if act = ''sniff'' then Inr (ASniff (lower (ra_sniffer r)) (ra_timeout r))
        else if act = ''resolve'' then
          Inr (AResolve (ra_server r) (ra_timeout r) (ra_strategy r) (ra_disable_cache r)
                 (ra_rewrite_ttl r) (ra_client_subnet r))
        else Inl (Bail ''unsupported route action''))"

definition compile_mode :: "raw_match \<Rightarrow> logical_mode option result" where
  "compile_mode m =
    (if rm_type m = ''logical'' then
       (let mode = (case rm_mode m of None \<Rightarrow> ''and'' | Some v \<Rightarrow> v) in
        if mode = ''and'' then Inr (Some LAnd)
        else if mode = ''or'' then Inr (Some LOr)
        else Inl (Bail ''unsupported logical route mode''))
     else if rm_type m \<noteq> '''' \<and> rm_type m \<noteq> ''default'' then Inl (Bail ''unsupported route rule type'')
     else Inr None)"

definition compile_fields ::
  "(string \<Rightarrow> regex option) \<Rightarrow> (string \<Rightarrow> network option) \<Rightarrow> raw_match \<Rightarrow> match_fields result" where
  "compile_fields regex_new parse_net m =
    bindr (compile_regexes regex_new ''invalid domain regex'' (rm_domain_regex m)) (\<lambda>regexes.
    bindr (parse_nets parse_net ''invalid CIDR'' (rm_ip_cidr m)) (\<lambda>cidrs.
    bindr (parse_nets parse_net ''invalid CIDR'' (rm_source_ip_cidr m)) (\<lambda>source_cidrs.
    bindr (parse_ports (rm_source_port_range m)) (\<lambda>source_ranges.
    bindr (parse_ports (rm_port_range m)) (\<lambda>ranges.
    bindr (compile_regexes regex_new ''invalid process path regular expression'' (rm_process_path_regex m)) (\<lambda>path_regexes.
    bindr (compile_regexes regex_new ''invalid package name regular expression'' (rm_package_name_regex m)) (\<lambda>package_regexes.
    bindr (compile_address_map parse_net ''invalid interface_address prefix'' (rm_interface_address m)) (\<lambda>interfaces.
    bindr (compile_address_map parse_net ''invalid network_interface_address prefix'' (rm_network_interface_address m)) (\<lambda>network_interfaces.
    bindr (parse_nets parse_net ''invalid CIDR'' (rm_default_interface_address m)) (\<lambda>default_interfaces.
    Inr \<lparr>mf_domains = map normalize_domain (rm_domain m),
         mf_suffixes = map normalize_domain (rm_domain_suffix m),
         mf_keywords = lower (rm_domain_keyword m), mf_regexes = regexes, mf_cidrs = cidrs,
         mf_source_cidrs = source_cidrs, mf_ip_versions = rm_ip_version m,
         mf_ip_private = rm_ip_is_private m, mf_source_private = rm_source_ip_is_private m,
         mf_source_ports = map (\<lambda>p. (p, p)) (rm_source_port m) @ source_ranges,
         mf_ports = map (\<lambda>p. (p, p)) (rm_port m) @ ranges,
         mf_networks = lower (rm_network m), mf_protocols = lower (rm_protocol m),
         mf_clients = lower (rm_client m), mf_inbounds = rm_inbound m, mf_auth_users = rm_auth_user m,
         mf_process_names = lower (rm_process_name m), mf_process_paths = rm_process_path m,
         mf_process_path_regexes = path_regexes, mf_package_names = lower (rm_package_name m),
         mf_package_name_regexes = package_regexes, mf_users = rm_user m, mf_user_ids = rm_user_id m,
         mf_clash_mode = map_option to_ascii_lowercase (rm_clash_mode m),
         mf_network_types = lower (rm_network_type m),
         mf_network_is_expensive = rm_network_is_expensive m,
         mf_network_is_constrained = rm_network_is_constrained m, mf_wifi_ssids = rm_wifi_ssid m,
         mf_wifi_bssids = lower (rm_wifi_bssid m), mf_interface_addresses = interfaces,
         mf_network_interface_addresses = network_interfaces,
         mf_source_mac_addresses = lower (rm_source_mac_address m),
         mf_source_hostnames = lower (rm_source_hostname m),
         mf_default_interface_addresses = default_interfaces, mf_preferred_by = rm_preferred_by m,
         mf_rule_set_ip_cidr_match_source = rm_rule_set_ip_cidr_match_source m\<rparr>))))))))))"

fun compile_rule ::
  "(string \<Rightarrow> regex option) \<Rightarrow> (string \<Rightarrow> network option) \<Rightarrow> (string, compiled_rule list) hashmap \<Rightarrow>
   bool \<Rightarrow> route_rule \<Rightarrow> compiled_rule result" where
  "compile_rule regex_new parse_net available_sets require_decision (RouteRule nested m a) =
    (if rm_geosite m \<noteq> [] \<or> rm_geoip m \<noteq> [] \<or> rm_source_geoip m \<noteq> []
     then Inl (Bail ''legacy geosite/geoip fields require external databases; use source or SRS rule-sets'')
     else if rm_preferred_by m \<noteq> []
     then Inl (Bail ''preferred_by requires an outbound with preferred-route support'')
     else bindr (compile_mode m) (\<lambda>mode.
       if mode \<noteq> None \<and> nested = [] then Inl (Bail ''logical route rule requires nested rules'')
       else bindr (if require_decision then compile_action a else Inr (ARoute Reject default_options)) (\<lambda>act.
       bindr (map_result (\<lambda>tag. with_context ''unknown route rule-set'' (hm_get available_sets tag))
                (rm_rule_set m)) (\<lambda>sets.
       bindr (map_result (compile_rule regex_new parse_net available_sets False) nested) (\<lambda>logical.
       let req = (rm_ip_cidr m \<noteq> [] \<or> rm_ip_version m \<noteq> [] \<or> rm_ip_is_private m \<or>
                  list_ex (list_ex requires_destination_ip) sets) \<or>
                 list_ex requires_destination_ip logical in
       bindr (compile_fields regex_new parse_net m) (\<lambda>f.
         Inr (CompiledRule mode logical f sets act (rm_invert m) req)))))))"

section \<open>Rule sets and the compiled router\<close>

record rule_set_config =
  rsc_type :: string
  rsc_tag :: string
  rsc_format :: "string option"
  rsc_path :: "string option"
  rsc_url :: "string option"
  rsc_rules :: "route_rule list"

record route_config =
  cfg_rules :: "route_rule list"
  cfg_rule_set :: "rule_set_config list"
  cfg_final_outbound :: "string option"
  cfg_default_interface :: "string option"
  cfg_default_mark :: "u32 option"
  cfg_default_network_strategy :: "string option"
  cfg_default_fallback_delay :: "string option"
  cfg_default_domain_resolver :: "string option"

definition rule_set_format_for :: "rule_set_config \<Rightarrow> string \<Rightarrow> string result" where
  "rule_set_format_for s location =
    (let format = (case rsc_format s of
            Some f \<Rightarrow> f
          | None \<Rightarrow> if ends_with (takeWhile (\<lambda>c. c \<noteq> CHR ''?'' \<and> c \<noteq> CHR ''#'') location) ''.srs''
                    then ''binary'' else ''source'') in
     if format = ''source'' \<or> format = ''binary'' then Inr format
     else Inl (Bail ''unsupported route rule-set format''))"

text \<open>
  The rules of one configured set. \<open>read_local path\<close> and \<open>fetch set\<close> return the bytes of the file
  and of the prefetched, cached or downloaded set; \<open>decode\<close> stands for \<open>decode_rule_set\<close>.
\<close>

definition rule_set_rules ::
  "(string \<Rightarrow> bytes result) \<Rightarrow> (rule_set_config \<Rightarrow> bytes result) \<Rightarrow>
   (string \<Rightarrow> bytes \<Rightarrow> route_rule list result) \<Rightarrow> bool \<Rightarrow> rule_set_config \<Rightarrow> route_rule list result" where
  "rule_set_rules read_local fetch decode fetch_remote s =
    (if rsc_type s = ''inline'' then Inr (rsc_rules s)
     else if rsc_type s = ''local'' \<or> rsc_type s = '''' then
       bindr (with_context ''local rule-set requires path'' (rsc_path s)) (\<lambda>path.
       bindr (read_local path) (\<lambda>data.
       bindr (rule_set_format_for s path) (\<lambda>format. decode format data)))
     else if rsc_type s = ''remote'' then
       if \<not> fetch_remote then Inr []
       else bindr (fetch s) (\<lambda>data.
         bindr (rule_set_format_for s (case rsc_url s of None \<Rightarrow> '''' | Some u \<Rightarrow> u)) (\<lambda>format.
           decode format data))
     else Inl (Bail ''unsupported route rule-set type''))"

fun load_rule_sets ::
  "(string \<Rightarrow> regex option) \<Rightarrow> (string \<Rightarrow> network option) \<Rightarrow> (rule_set_config \<Rightarrow> route_rule list result) \<Rightarrow>
   rule_set_config list \<Rightarrow> (string, compiled_rule list) hashmap \<Rightarrow>
   (string, compiled_rule list) hashmap result" where
  "load_rule_sets regex_new parse_net rules_of [] acc = Inr acc"
| "load_rule_sets regex_new parse_net rules_of (s # rest) acc =
    (if rsc_tag s = '''' then Inl (Bail ''route rule-set tag must not be empty'')
     else bindr (rules_of s) (\<lambda>rules.
       bindr (map_result (compile_rule regex_new parse_net [] False) rules) (\<lambda>compiled.
         if hm_contains acc (rsc_tag s) then Inl (Bail ''duplicate route rule-set tag'')
         else load_rule_sets regex_new parse_net rules_of rest (hm_insert (rsc_tag s) compiled acc))))"

definition compile_router ::
  "(string \<Rightarrow> regex option) \<Rightarrow> (string \<Rightarrow> network option) \<Rightarrow> (rule_set_config \<Rightarrow> route_rule list result) \<Rightarrow>
   route_config \<Rightarrow> string \<Rightarrow> router result" where
  "compile_router regex_new parse_net rules_of config default_outbound =
    (let final = (case cfg_final_outbound config of None \<Rightarrow> default_outbound | Some t \<Rightarrow> t) in
     bindr (load_rule_sets regex_new parse_net rules_of (cfg_rule_set config) []) (\<lambda>sets.
     bindr (map_result (compile_rule regex_new parse_net sets True) (cfg_rules config)) (\<lambda>rules.
       Inr \<lparr>rt_rules = rules, rt_rule_sets = sets, rt_final_outbound = final,
            rt_default_options = default_options\<lparr>bind_interface := cfg_default_interface config,
              routing_mark := cfg_default_mark config,
              network_strategy := cfg_default_network_strategy config,
              fallback_delay := cfg_default_fallback_delay config\<rparr>,
            rt_default_domain_resolver =
              (case cfg_default_domain_resolver config of
                 None \<Rightarrow> None | Some tag \<Rightarrow> if tag = '''' then None else Some tag)\<rparr>)))"

end
