(* ===== verification/Route_Engine.thy ===== *)
theory Route_Engine
  imports Routing
begin

unbundle bit_operations_syntax

text \<open>
  Properties of the rule engine of \<^verbatim>\<open>src/src/routing.rs\<close>: the lazy lookup agrees with resolving
  first, rules do not look at metadata outside their scope, the two domain matchers agree,
  option merging is a monoid, and compilation computes the flags the lazy lookup relies on.
\<close>

section \<open>Which rules look at the destination address\<close>

fun needs_destination :: "compiled_rule \<Rightarrow> bool" where
  "needs_destination (CompiledRule mode nested f sets act invert req) \<longleftrightarrow>
    mf_cidrs f \<noteq> [] \<or> mf_ip_versions f \<noteq> [] \<or> mf_ip_private f \<or>
    list_ex (list_ex needs_destination) sets \<or> list_ex needs_destination nested"

fun flags_ok :: "compiled_rule \<Rightarrow> bool" where
  "flags_ok (CompiledRule mode nested f sets act invert req) \<longleftrightarrow>
    (req \<longleftrightarrow> needs_destination (CompiledRule mode nested f sets act invert req)) \<and>
    list_all (list_all flags_ok) sets \<and> list_all flags_ok nested"

fun invert_free :: "compiled_rule \<Rightarrow> bool" where
  "invert_free (CompiledRule mode nested f sets act invert req) \<longleftrightarrow>
    \<not> invert \<and> list_all (list_all invert_free) sets \<and> list_all invert_free nested"

lemma flags_ok_requires: "flags_ok r \<Longrightarrow> requires_destination_ip r = needs_destination r"
  by (cases r) simp

abbreviation readdress :: "ip_addr option \<Rightarrow> ip_addr list \<Rightarrow> route_context \<Rightarrow> route_context" where
  "readdress ip ips c \<equiv> c\<lparr>rc_destination_ips := ips, rc_destination_ip := ip\<rparr>"

lemma fields_match_readdress:
  assumes "mf_cidrs f = []" and "mf_ip_versions f = []" and "\<not> mf_ip_private f"
  shows "fields_match f (readdress ip ips c) d = fields_match f c d"
  using assms by (simp add: fields_match_def)

section \<open>Unfolding the matcher\<close>

text \<open>The context in which the rules of a rule's rule sets are matched.\<close>

definition set_context :: "match_fields \<Rightarrow> route_context \<Rightarrow> route_context" where
  "set_context f c =
    (if mf_rule_set_ip_cidr_match_source f then c\<lparr>rc_destination_ip := rc_source_ip c\<rparr> else c)"

lemma matches_default:
  "matches (CompiledRule None nested f sets act invert req) c d \<longleftrightarrow>
    (fields_match f c d \<and>
     (sets = [] \<or> (\<exists>s \<in> set sets. \<exists>r \<in> set s. matches r (set_context f c) d))) \<noteq> invert"
  by (auto simp: Let_def list_ex_iff set_context_def)

lemma matches_logical:
  "matches (CompiledRule (Some LAnd) nested f sets act invert req) c d \<longleftrightarrow>
    (\<forall>r \<in> set nested. matches r c d) \<noteq> invert"
  "matches (CompiledRule (Some LOr) nested f sets act invert req) c d \<longleftrightarrow>
    (\<exists>r \<in> set nested. matches r c d) \<noteq> invert"
  by (auto simp: Let_def list_ex_iff list_all_iff)

lemma domain_fields_default:
  "domain_fields_match (CompiledRule None nested f sets act invert req) (Some d) \<longleftrightarrow>
    (domain_matches f d \<and>
     (sets = [] \<or> (\<exists>s \<in> set sets. \<exists>r \<in> set s. domain_fields_match r (Some d)))) \<noteq> invert"
  by (auto simp: Let_def list_ex_iff)

lemma domain_fields_logical:
  "domain_fields_match (CompiledRule (Some LAnd) nested f sets act invert req) (Some d) \<longleftrightarrow>
    (\<forall>r \<in> set nested. domain_fields_match r (Some d)) \<noteq> invert"
  "domain_fields_match (CompiledRule (Some LOr) nested f sets act invert req) (Some d) \<longleftrightarrow>
    (\<exists>r \<in> set nested. domain_fields_match r (Some d)) \<noteq> invert"
  by (auto simp: Let_def list_ex_iff list_all_iff)

lemmas matches_unfold = matches_default matches_logical domain_fields_default domain_fields_logical

declare matches.simps [simp del] domain_fields_match.simps [simp del]

lemma logical_mode_cases [case_names default land lor]:
  obtains "mode = None" | "mode = Some LAnd" | "mode = Some LOr"
  by (metis logical_mode.exhaust option.exhaust)

text \<open>Induction over the nesting of rules.\<close>

lemma rule_induct [case_names rule]:
  assumes "\<And>mode nested f sets act invert req.
      (\<And>r. r \<in> set nested \<Longrightarrow> P r) \<Longrightarrow> (\<And>s r. s \<in> set sets \<Longrightarrow> r \<in> set s \<Longrightarrow> P r) \<Longrightarrow>
      P (CompiledRule mode nested f sets act invert req)"
  shows "P r"
  by (induction r) (auto intro: assms)

lemma set_context_readdress:
  "\<exists>ip'. set_context f (readdress ip ips c) = readdress ip' ips (set_context f c) \<and>
    (rc_destination_ip c = None \<or> rc_destination_ip c = ip \<longrightarrow>
     rc_destination_ip (set_context f c) = None \<or> rc_destination_ip (set_context f c) = ip') \<and>
    rc_destination_ips (set_context f c) = rc_destination_ips c"
  by (cases "mf_rule_set_ip_cidr_match_source f") (auto simp: set_context_def)

lemma matches_readdress:
  "\<not> needs_destination r \<Longrightarrow> matches r (readdress ip ips c) d = matches r c d"
proof (induction r arbitrary: ip c rule: rule_induct)
  case (rule mode nested f sets act invert req)
  have nested: "matches r (readdress ip ips c) d = matches r c d" if "r \<in> set nested" for r
    using rule.IH(1) rule.prems that by (auto simp: list_ex_iff)
  have sets: "matches r (readdress ip ips c) d = matches r c d"
    if "s \<in> set sets" "r \<in> set s" for s r ip c
    using rule.IH(2) [OF that, of ip c] rule.prems that by (auto simp: list_ex_iff)
  obtain ip' where "set_context f (readdress ip ips c) = readdress ip' ips (set_context f c)"
    using set_context_readdress by blast
  moreover have "mode = None \<Longrightarrow> fields_match f (readdress ip ips c) d = fields_match f c d"
    using rule.prems by (intro fields_match_readdress) auto
  ultimately show ?case
    using nested sets by (cases mode rule: logical_mode_cases) (simp_all add: matches_unfold)
qed

text \<open>Without inverted rules, more destination addresses can only make more rules match.\<close>

lemma fields_match_mono:
  assumes "fields_match f c d" and "set (destination_addresses c) \<subseteq> set (destination_addresses (readdress ip ips c))"
  shows "fields_match f (readdress ip ips c) d"
proof -
  have "A \<or> list_ex P (destination_addresses c) \<Longrightarrow> A \<or> list_ex P (destination_addresses (readdress ip ips c))" for A P
    using assms(2) by (auto simp: list_ex_iff)
  from this [of "mf_cidrs f = []"] this [of "mf_ip_versions f = []"] this [of "\<not> mf_ip_private f" is_private] assms(1)
  show ?thesis unfolding fields_match_def by simp
qed

lemma matches_mono:
  assumes "invert_free r" and "matches r c d" and "rc_destination_ip c = None \<or> rc_destination_ip c = ip"
    and "set (rc_destination_ips c) \<subseteq> set ips"
  shows "matches r (readdress ip ips c) d"
  using assms
proof (induction r arbitrary: ip c rule: rule_induct)
  case (rule mode nested f sets act invert req)
  have inv: "\<not> invert" "\<And>r. r \<in> set nested \<Longrightarrow> invert_free r" "\<And>s r. s \<in> set sets \<Longrightarrow> r \<in> set s \<Longrightarrow> invert_free r"
    using rule.prems(1) by (auto simp: list_all_iff)
  have nested: "matches r (readdress ip ips c) d" if "r \<in> set nested" "matches r c d" for r
    using rule.IH(1) [OF that(1) inv(2) [OF that(1)] that(2) rule.prems(3,4)] .
  obtain ip' where ip': "set_context f (readdress ip ips c) = readdress ip' ips (set_context f c)"
      "rc_destination_ip (set_context f c) = None \<or> rc_destination_ip (set_context f c) = ip'"
      "rc_destination_ips (set_context f c) = rc_destination_ips c"
    using set_context_readdress [of f ip ips c] rule.prems(3) by blast
  have sets: "matches r (readdress ip' ips (set_context f c)) d"
    if "s \<in> set sets" "r \<in> set s" "matches r (set_context f c) d" for s r
    using rule.IH(2) [OF that(1,2) inv(3) [OF that(1,2)] that(3) ip'(2)] rule.prems(4) ip'(3) by simp
  have "set (destination_addresses c) \<subseteq> set (destination_addresses (readdress ip ips c))"
    using rule.prems(3,4) by (auto simp: destination_addresses_def split: option.splits)
  then have fields: "fields_match f c d \<Longrightarrow> fields_match f (readdress ip ips c) d"
    by (rule fields_match_mono [rotated])
  show ?case
  proof (cases mode rule: logical_mode_cases)
    case default
    with fields sets rule.prems(2) inv(1) show ?thesis by (auto simp: matches_unfold ip'(1))
  qed (use nested rule.prems(2) inv(1) in \<open>auto simp: matches_unfold\<close>)
qed

lemma matches_domain_fields:
  "invert_free r \<Longrightarrow> matches r c (Some d) \<Longrightarrow> domain_fields_match r (Some d)"
proof (induction r arbitrary: c rule: rule_induct)
  case (rule mode nested f sets act invert req)
  have inv: "\<not> invert" "\<And>r. r \<in> set nested \<Longrightarrow> invert_free r" "\<And>s r. s \<in> set sets \<Longrightarrow> r \<in> set s \<Longrightarrow> invert_free r"
    using rule.prems(1) by (auto simp: list_all_iff)
  have "fields_match f c (Some d) \<Longrightarrow> domain_matches f d"
    by (simp add: fields_match_def domain_matches_def)
  then show ?case
    using rule.prems(2) inv rule.IH
    by (cases mode rule: logical_mode_cases) (simp_all add: matches_unfold, blast+)
qed

section \<open>Lazy resolution\<close>

lemma find_enumerate_drop:
  assumes "n \<le> i" and "\<And>j. n \<le> j \<Longrightarrow> j < i \<Longrightarrow> j < length xs \<Longrightarrow> \<not> P (xs ! j)"
  shows "find (\<lambda>(_, x). P x) (drop n (List.enumerate 0 xs)) = find (\<lambda>(_, x). P x) (drop i (List.enumerate 0 xs))"
  using assms
proof (induction "i - n" arbitrary: n)
  case (Suc k)
  show ?case
  proof (cases "n < length xs")
    case True
    then have "drop n (List.enumerate 0 xs) = (n, xs ! n) # drop (Suc n) (List.enumerate 0 xs)"
      by (subst Cons_nth_drop_Suc [symmetric]) (auto simp: nth_enumerate_eq)
    moreover have "\<not> P (xs ! n)" using Suc.prems Suc.hyps(2) True by auto
    moreover have "find (\<lambda>(_, x). P x) (drop (Suc n) (List.enumerate 0 xs)) =
        find (\<lambda>(_, x). P x) (drop i (List.enumerate 0 xs))"
      using Suc.hyps(2) Suc.prems by (intro Suc.hyps(1)) auto
    ultimately show ?thesis by simp
  qed (use Suc.prems in simp)
qed simp

text \<open>What the scan says about the rules it passed.\<close>

lemma lazy_scan_spec:
  assumes "rules = drop n (List.enumerate 0 rs)"
  shows "case lazy_scan c d needs rules of
      LAction i a \<Rightarrow> n \<le> i \<and> i < length rs \<and> matches (rs ! i) c d \<and> a = cr_action (rs ! i) \<and>
        (\<forall>j. n \<le> j \<and> j < i \<longrightarrow> \<not> matches (rs ! j) c d \<and>
          \<not> (needs \<and> requires_destination_ip (rs ! j) \<and> domain_fields_match (rs ! j) d))
    | LNeedResolve i \<Rightarrow> n \<le> i \<and> i < length rs \<and> needs \<and> \<not> matches (rs ! i) c d \<and>
        (\<forall>j. n \<le> j \<and> j < i \<longrightarrow> \<not> matches (rs ! j) c d \<and>
          \<not> (needs \<and> requires_destination_ip (rs ! j) \<and> domain_fields_match (rs ! j) d))
    | LNone \<Rightarrow>
        (\<forall>j. n \<le> j \<and> j < length rs \<longrightarrow> \<not> matches (rs ! j) c d \<and>
          \<not> (needs \<and> requires_destination_ip (rs ! j) \<and> domain_fields_match (rs ! j) d))"
  using assms
proof (induction c d needs rules arbitrary: n rule: lazy_scan.induct)
  case (1 c d needs)
  then show ?case by auto
next
  case (2 c d needs i rule rules)
  then have n: "n < length rs" by (metis drop_all length_enumerate list.distinct(1) not_le)
  then have "drop n (List.enumerate 0 rs) = (n, rs ! n) # drop (Suc n) (List.enumerate 0 rs)"
    by (subst Cons_nth_drop_Suc [symmetric]) (auto simp: nth_enumerate_eq)
  with 2(2) have eq: "i = n" "rule = rs ! n" "rules = drop (Suc n) (List.enumerate 0 rs)" by auto
  have split: "(\<forall>j. n \<le> j \<and> j < m \<longrightarrow> Q j) \<longleftrightarrow> (n < m \<longrightarrow> Q n) \<and> (\<forall>j. Suc n \<le> j \<and> j < m \<longrightarrow> Q j)" for m Q
    by (metis Suc_le_eq le_neq_implies_less le_refl less_imp_le order.strict_trans1)
  show ?case
  proof (cases "matches rule c d \<or> (needs \<and> requires_destination_ip rule \<and> domain_fields_match rule d)")
    case True
    then show ?thesis using n eq by auto
  next
    case False
    with 2(1) [OF _ _ eq(3)] show ?thesis
      using eq n by (auto simp: split split: action_lookup.splits)
  qed
qed

lemma next_action_skip:
  assumes "from \<le> i" and "\<And>j. from \<le> j \<Longrightarrow> j < i \<Longrightarrow> j < length (rt_rules r) \<Longrightarrow>
      \<not> matches (rt_rules r ! j) c (map_option normalize_domain (rc_domain c))"
  shows "next_action r c from = next_action r c i"
  unfolding next_action_def Let_def
  by (subst find_enumerate_drop [OF assms(1), of "rt_rules r"]) (auto simp: assms(2))

lemma next_action_hit:
  assumes "i < length (rt_rules r)" and "matches (rt_rules r ! i) c (map_option normalize_domain (rc_domain c))"
  shows "next_action r c i = Some (i, cr_action (rt_rules r ! i))"
proof -
  have "drop i (List.enumerate 0 (rt_rules r)) = (i, rt_rules r ! i) # drop (Suc i) (List.enumerate 0 (rt_rules r))"
    using assms(1) by (subst Cons_nth_drop_Suc [symmetric]) (auto simp: nth_enumerate_eq)
  with assms(2) show ?thesis by (simp add: next_action_def)
qed

lemma passed_rule:
  assumes "invert_free rule" and "flags_ok rule" and "\<not> matches rule c (Some d)"
    and "\<not> (requires_destination_ip rule \<and> domain_fields_match rule (Some d))"
  shows "\<not> matches rule (readdress ip ips c) (Some d)"
proof (cases "requires_destination_ip rule")
  case True
  with assms(4) matches_domain_fields [OF assms(1)] show ?thesis by blast
next
  case False
  then have "\<not> needs_destination rule" using flags_ok_requires [OF assms(2)] by simp
  from matches_readdress [OF this] assms(3) show ?thesis by blast
qed

lemma lazy_lookup_split:
  assumes "list_all invert_free (rt_rules r)" and "list_all flags_ok (rt_rules r)"
    and "rc_domain c = Some name" and "destination_addresses c = []"
  shows "next_action r (c\<lparr>rc_destination_ips := ips, rc_destination_ip := ip\<rparr>) from =
    (case next_action_lazy r c from of
       LAction i act \<Rightarrow> Some (i, act)
     | LNeedResolve i \<Rightarrow> next_action r (c\<lparr>rc_destination_ips := ips, rc_destination_ip := ip\<rparr>) i
     | LNone \<Rightarrow> None)"
proof -
  let ?d = "Some (normalize_domain name)"
  let ?c = "readdress ip ips c"
  let ?rs = "rt_rules r"
  have empty: "rc_destination_ip c = None" "rc_destination_ips c = []"
    using assms(4) by (auto simp: destination_addresses_def split: option.splits)
  have pass: "\<not> matches (?rs ! j) ?c ?d"
    if "j < length ?rs" "\<not> matches (?rs ! j) c ?d"
      "\<not> (requires_destination_ip (?rs ! j) \<and> domain_fields_match (?rs ! j) ?d)" for j
    using assms(1,2) that by (intro passed_rule) (auto simp: list_all_length)
  have hit: "matches (?rs ! i) ?c ?d" if "i < length ?rs" "matches (?rs ! i) c ?d" for i
    using assms(1) that empty by (intro matches_mono) (auto simp: list_all_length)
  have lazy: "next_action_lazy r c from = lazy_scan c ?d True (drop from (List.enumerate 0 ?rs))"
    using assms(3,4) by (simp add: next_action_lazy_def)
  note spec = lazy_scan_spec [OF refl, where c = c and d = ?d and needs = True and n = "from" and rs = ?rs,
      folded lazy]
  show ?thesis
  proof (cases "next_action_lazy r c from")
    case (LAction i act)
    with spec have i: "from \<le> i" "i < length ?rs" "matches (?rs ! i) c ?d" "act = cr_action (?rs ! i)"
      and skip: "\<And>j. from \<le> j \<Longrightarrow> j < i \<Longrightarrow> j < length ?rs \<Longrightarrow> \<not> matches (?rs ! j) ?c ?d"
      using pass by auto
    have "next_action r ?c from = next_action r ?c i"
      using skip assms(3) by (intro next_action_skip i(1)) simp
    with next_action_hit [OF i(2), of ?c] hit [OF i(2,3)] assms(3) LAction i(4) show ?thesis by simp
  next
    case (LNeedResolve i)
    with spec have "from \<le> i"
      and "\<And>j. from \<le> j \<Longrightarrow> j < i \<Longrightarrow> j < length ?rs \<Longrightarrow> \<not> matches (?rs ! j) ?c ?d"
      using pass by auto
    with assms(3) have "next_action r ?c from = next_action r ?c i"
      by (intro next_action_skip) simp_all
    with LNeedResolve show ?thesis by simp
  next
    case LNone
    with spec have "\<And>j. from \<le> j \<Longrightarrow> j < length ?rs \<Longrightarrow> \<not> matches (?rs ! j) ?c ?d"
      using pass by auto
    with assms(3) have "next_action r ?c from = next_action r ?c (max from (length ?rs))"
      by (intro next_action_skip) auto
    with LNone show ?thesis by (simp add: next_action_def)
  qed
qed

text \<open>
  Lazy resolution loses nothing: for a domain destination without addresses and rules without
  \<open>invert\<close>, \<open>next_action_lazy\<close> followed by resolution gives the action that resolving first and
  then using \<open>next_action\<close> gives. When it answers without resolving, the answer is the one the
  resolved addresses would give, whatever they are; when it asks to resolve at a rule, no
  earlier rule matches the resolved destination.
\<close>

theorem lazy_lookup_exact:
  assumes "list_all invert_free (rt_rules r)" and "list_all flags_ok (rt_rules r)"
    and "rc_domain c = Some name" and "destination_addresses c = []"
  shows "next_action r (c\<lparr>rc_destination_ips := ips, rc_destination_ip := ip\<rparr>) from =
    (case next_action_lazy r c from of
       LAction i act \<Rightarrow> Some (i, act)
     | LNeedResolve i \<Rightarrow> next_action r (c\<lparr>rc_destination_ips := ips, rc_destination_ip := ip\<rparr>) i
     | LNone \<Rightarrow> None)"
  by (rule lazy_lookup_split [OF assms])

text \<open>A rule with the given fields that routes to an outbound, used in examples.\<close>

definition no_fields :: match_fields where
  "no_fields =
    \<lparr>mf_domains = [], mf_suffixes = [], mf_keywords = [], mf_regexes = [], mf_cidrs = [],
     mf_source_cidrs = [], mf_ip_versions = [], mf_ip_private = False, mf_source_private = False,
     mf_source_ports = [], mf_ports = [], mf_networks = [], mf_protocols = [], mf_clients = [],
     mf_inbounds = [], mf_auth_users = [], mf_process_names = [], mf_process_paths = [],
     mf_process_path_regexes = [], mf_package_names = [], mf_package_name_regexes = [], mf_users = [],
     mf_user_ids = [], mf_clash_mode = None, mf_network_types = [], mf_network_is_expensive = False,
     mf_network_is_constrained = False, mf_wifi_ssids = [], mf_wifi_bssids = [],
     mf_interface_addresses = [], mf_network_interface_addresses = [], mf_source_mac_addresses = [],
     mf_source_hostnames = [], mf_default_interface_addresses = [], mf_preferred_by = [],
     mf_rule_set_ip_cidr_match_source = False\<rparr>"

definition no_context :: route_context where
  "no_context =
    \<lparr>rc_domain = None, rc_destination_ip = None, rc_destination_ips = [], rc_destination_port = None,
     rc_source_ip = None, rc_source_port = None, rc_network = None, rc_protocol = None, rc_client = None,
     rc_inbound = None, rc_auth_user = None, rc_process_name = None, rc_process_path = None,
     rc_package_name = None, rc_user = None, rc_user_id = None, rc_clash_mode = None,
     rc_network_type = None, rc_network_is_expensive = False, rc_network_is_constrained = False,
     rc_wifi_ssid = None, rc_wifi_bssid = None, rc_interface_addresses = None,
     rc_network_interface_addresses = None, rc_source_mac_address = None, rc_source_hostname = None,
     rc_default_interface_addresses = [], rc_preferred_by = []\<rparr>"

definition simple_router :: "compiled_rule list \<Rightarrow> router" where
  "simple_router rules =
    \<lparr>rt_rules = rules, rt_rule_sets = [], rt_final_outbound = ''direct'',
     rt_default_options = default_options, rt_default_domain_resolver = None\<rparr>"

lemmas example_simps = no_fields_def no_context_def simple_router_def next_action_def next_action_lazy_def
  fields_match_def match_field_def address_map_matches_def destination_addresses_def matches_unfold
  domain_matches_def enumerate_simps set_context_def

theorem lazy_lookup_exact_witness:
  "next_action (simple_router [CompiledRule None [] (no_fields\<lparr>mf_cidrs := [\<lambda>ip. ip = V4 9]\<rparr>) []
      (ARoute Reject default_options) False True])
    (no_context\<lparr>rc_domain := Some ''a'', rc_destination_ips := [V4 9], rc_destination_ip := None\<rparr>) 0 =
    Some (0, ARoute Reject default_options)"
proof -
  let ?r = "simple_router [CompiledRule None [] (no_fields\<lparr>mf_cidrs := [\<lambda>ip. ip = V4 9]\<rparr>) []
      (ARoute Reject default_options) False True]"
  let ?c = "no_context\<lparr>rc_domain := Some ''a''\<rparr>"
  have "next_action_lazy ?r ?c 0 = LNeedResolve 0" by (simp add: example_simps)
  moreover have "next_action ?r (?c\<lparr>rc_destination_ips := [V4 9], rc_destination_ip := None\<rparr>) 0 =
      Some (0, ARoute Reject default_options)" by (simp add: example_simps)
  ultimately show ?thesis
    using lazy_lookup_exact [of ?r ?c "''a''" None "[V4 9]" 0]
    by (simp add: simple_router_def no_context_def no_fields_def destination_addresses_def)
qed

text \<open>
  With \<open>invert\<close> the lookup answers too early: an inverted CIDR rule is taken for every domain
  whose addresses are not known yet, although it does not match once the address is known.
\<close>

lemma lazy_lookup_inverted:
  defines "rule \<equiv> CompiledRule None [] (no_fields\<lparr>mf_cidrs := [\<lambda>ip. ip = V4 9]\<rparr>) []
      (ARoute (Outbound ''proxy'') default_options) True True"
  defines "c \<equiv> no_context\<lparr>rc_domain := Some ''a''\<rparr>"
  shows "next_action_lazy (simple_router [rule]) c 0 = LAction 0 (ARoute (Outbound ''proxy'') default_options)"
    "next_action (simple_router [rule]) (c\<lparr>rc_destination_ips := [V4 9], rc_destination_ip := Some (V4 9)\<rparr>) 0 = None"
  by (simp_all add: rule_def c_def example_simps)

text \<open>
  \<open>rule_set_ip_cidr_match_source\<close> replaces \<open>destination_ip\<close> only: once the destination has been
  resolved, its addresses are still compared with the networks meant for the source.
\<close>

lemma match_source_uses_destination:
  defines "inner \<equiv> CompiledRule None [] (no_fields\<lparr>mf_cidrs := [\<lambda>ip. ip = V4 9]\<rparr>) []
      (ARoute Reject default_options) False True"
  defines "rule \<equiv> CompiledRule None [] (no_fields\<lparr>mf_rule_set_ip_cidr_match_source := True\<rparr>) [[inner]]
      (ARoute Reject default_options) False True"
  shows "matches rule (no_context\<lparr>rc_source_ip := Some (V4 1), rc_destination_ips := [V4 9]\<rparr>) None"
    "\<not> matches rule (no_context\<lparr>rc_source_ip := Some (V4 1)\<rparr>) None"
  by (simp_all add: rule_def inner_def example_simps)

section \<open>Compilation\<close>

lemma parse_nets_nonempty: "parse_nets parse_net msg vs = Inr ns \<Longrightarrow> ns = [] \<longleftrightarrow> vs = []"
  by (auto simp: parse_nets_def map_result_Inr_iff)

lemma compile_fields_destination:
  assumes "compile_fields regex_new parse_net m = Inr f"
  shows "mf_cidrs f = [] \<longleftrightarrow> rm_ip_cidr m = []" "mf_ip_versions f = rm_ip_version m"
    "mf_ip_private f = rm_ip_is_private m"
  using assms by (auto simp: compile_fields_def bindr_Inr_iff dest: parse_nets_nonempty)

lemma compile_rule_flags:
  assumes "compile_rule regex_new parse_net sets decide rule = Inr r"
    and "\<And>tag rs. hm_get sets tag = Some rs \<Longrightarrow> list_all flags_ok rs"
  shows "flags_ok r"
  using assms
proof (induction rule arbitrary: decide r)
  case (RouteRule nested m a)
  from RouteRule.prems(1) obtain mode act rule_sets logical f req where
      sets: "map_result (\<lambda>tag. with_context ''unknown route rule-set'' (hm_get sets tag)) (rm_rule_set m) = Inr rule_sets"
    and logical: "map_result (compile_rule regex_new parse_net sets False) nested = Inr logical"
    and f: "compile_fields regex_new parse_net m = Inr f"
    and r: "r = CompiledRule mode logical f rule_sets act (rm_invert m) req"
    and req: "req = ((rm_ip_cidr m \<noteq> [] \<or> rm_ip_version m \<noteq> [] \<or> rm_ip_is_private m \<or>
        list_ex (list_ex requires_destination_ip) rule_sets) \<or> list_ex requires_destination_ip logical)"
    by (auto simp: bindr_Inr_iff Let_def split: if_splits)
  have nested_ok: "list_all flags_ok logical"
    using map_result_in_set [OF logical] RouteRule.IH assms(2) unfolding list_all_iff by blast
  have sets_ok: "list_all (list_all flags_ok) rule_sets"
    using map_result_in_set [OF sets] assms(2) by (auto simp: with_context_Inr_iff list_all_iff)
  have "list_ex requires_destination_ip rs = list_ex needs_destination rs" if "list_all flags_ok rs" for rs
    using that by (induction rs) (auto simp: flags_ok_requires)
  with nested_ok sets_ok show ?case
    using compile_fields_destination [OF f] unfolding r req
    by (auto simp: list_ex_iff list_all_iff)
qed

lemma load_rule_sets_flags:
  assumes "load_rule_sets regex_new parse_net rules_of cfgs acc = Inr sets"
    and "\<And>tag rs. hm_get acc tag = Some rs \<Longrightarrow> list_all flags_ok rs"
    and "hm_get sets tag = Some rs"
  shows "list_all flags_ok rs"
  using assms
proof (induction cfgs arbitrary: acc)
  case (Cons s cfgs)
  then obtain rules compiled where
      compiled: "map_result (compile_rule regex_new parse_net [] False) rules = Inr compiled"
    and rest: "load_rule_sets regex_new parse_net rules_of cfgs (hm_insert (rsc_tag s) compiled acc) = Inr sets"
    by (auto simp: bindr_Inr_iff split: if_splits)
  have "list_all flags_ok compiled"
    using map_result_in_set [OF compiled] compile_rule_flags [of regex_new parse_net "[]"]
    by (fastforce simp: list_all_iff)
  then show ?case
    using Cons.prems(2)
    by (intro Cons.IH [OF rest _ Cons.prems(3)]) (auto simp: hm_get_insert split: if_splits)
qed simp



section \<open>The scope of the metadata\<close>

text \<open>Contexts that agree on everything a router may look at when its metadata scope is \<open>s\<close>.\<close>

definition scope_agree :: "linux_scope \<Rightarrow> route_context \<Rightarrow> route_context \<Rightarrow> bool" where
  "scope_agree s a b \<longleftrightarrow>
    rc_domain a = rc_domain b \<and> rc_destination_ip a = rc_destination_ip b \<and>
    rc_destination_ips a = rc_destination_ips b \<and> rc_destination_port a = rc_destination_port b \<and>
    rc_source_ip a = rc_source_ip b \<and> rc_source_port a = rc_source_port b \<and>
    rc_network a = rc_network b \<and> rc_protocol a = rc_protocol b \<and> rc_client a = rc_client b \<and>
    rc_inbound a = rc_inbound b \<and> rc_auth_user a = rc_auth_user b \<and>
    rc_clash_mode a = rc_clash_mode b \<and> rc_preferred_by a = rc_preferred_by b \<and>
    (ms_process s \<longrightarrow> rc_process_name a = rc_process_name b \<and> rc_process_path a = rc_process_path b \<and>
      rc_package_name a = rc_package_name b) \<and>
    (ms_user s \<longrightarrow> rc_user a = rc_user b \<and> rc_user_id a = rc_user_id b) \<and>
    (ms_interface s \<longrightarrow> rc_interface_addresses a = rc_interface_addresses b \<and>
      rc_network_interface_addresses a = rc_network_interface_addresses b) \<and>
    (ms_network s \<longrightarrow> rc_network_type a = rc_network_type b \<and>
      rc_network_is_expensive a = rc_network_is_expensive b \<and>
      rc_network_is_constrained a = rc_network_is_constrained b \<and> rc_wifi_ssid a = rc_wifi_ssid b \<and>
      rc_wifi_bssid a = rc_wifi_bssid b \<and>
      rc_default_interface_addresses a = rc_default_interface_addresses b) \<and>
    (ms_mac s \<longrightarrow> rc_source_mac_address a = rc_source_mac_address b) \<and>
    (ms_hostname s \<longrightarrow> rc_source_hostname a = rc_source_hostname b)"

definition scope_le :: "linux_scope \<Rightarrow> linux_scope \<Rightarrow> bool" where
  "scope_le s t \<longleftrightarrow> (ms_process s \<longrightarrow> ms_process t) \<and> (ms_user s \<longrightarrow> ms_user t) \<and>
    (ms_interface s \<longrightarrow> ms_interface t) \<and> (ms_network s \<longrightarrow> ms_network t) \<and>
    (ms_mac s \<longrightarrow> ms_mac t) \<and> (ms_hostname s \<longrightarrow> ms_hostname t)"

lemma scope_le_refl: "scope_le s s"
  by (simp add: scope_le_def)

lemma scope_le_trans: "scope_le s t \<Longrightarrow> scope_le t u \<Longrightarrow> scope_le s u"
  by (auto simp: scope_le_def)

lemma scope_le_union: "scope_le s (scope_union s t)" "scope_le t (scope_union s t)"
  by (auto simp: scope_le_def scope_union_def)

lemma scope_agree_mono: "scope_agree t a b \<Longrightarrow> scope_le s t \<Longrightarrow> scope_agree s a b"
  by (simp add: scope_agree_def scope_le_def)

lemma scope_fold:
  "scope_le s (foldl (\<lambda>s x. scope_union s (g x)) s xs)"
  "x \<in> set xs \<Longrightarrow> scope_le (g x) (foldl (\<lambda>s x. scope_union s (g x)) s xs)"
proof -
  have le: "scope_le s (foldl (\<lambda>s x. scope_union s (g x)) s xs)" for s xs
    by (induction xs arbitrary: s) (auto simp: scope_le_refl intro: scope_le_trans [OF scope_le_union(1)])
  then show "scope_le s (foldl (\<lambda>s x. scope_union s (g x)) s xs)" .
  show "x \<in> set xs \<Longrightarrow> scope_le (g x) (foldl (\<lambda>s x. scope_union s (g x)) s xs)"
    by (induction xs arbitrary: s) (auto intro: scope_le_trans [OF scope_le_union(2) le])
qed

lemma metadata_scope_parts:
  "scope_le (fields_scope f) (metadata_scope (CompiledRule mode nested f sets act invert req))"
  "r \<in> set nested \<Longrightarrow> scope_le (metadata_scope r) (metadata_scope (CompiledRule mode nested f sets act invert req))"
  "s \<in> set sets \<Longrightarrow> q \<in> set s \<Longrightarrow>
    scope_le (metadata_scope q) (metadata_scope (CompiledRule mode nested f sets act invert req))"
proof -
  let ?s1 = "foldl (\<lambda>scope rule. scope_union scope (metadata_scope rule)) (fields_scope f) nested"
  have flat: "foldl (\<lambda>scope s. foldl (\<lambda>scope rule. scope_union scope (metadata_scope rule)) scope s) t sets =
      foldl (\<lambda>scope rule. scope_union scope (metadata_scope rule)) t (concat sets)" for t sets
    by (induction sets arbitrary: t) (simp_all add: foldl_append)
  have all: "metadata_scope (CompiledRule mode nested f sets act invert req) =
      foldl (\<lambda>scope rule. scope_union scope (metadata_scope rule)) ?s1 (concat sets)"
    by (simp add: flat Let_def)
  show "scope_le (fields_scope f) (metadata_scope (CompiledRule mode nested f sets act invert req))"
    unfolding all by (rule scope_le_trans [OF scope_fold(1) scope_fold(1)])
  show "r \<in> set nested \<Longrightarrow> scope_le (metadata_scope r) (metadata_scope (CompiledRule mode nested f sets act invert req))"
    unfolding all by (rule scope_le_trans [OF scope_fold(2) scope_fold(1)])
  show "s \<in> set sets \<Longrightarrow> q \<in> set s \<Longrightarrow>
      scope_le (metadata_scope q) (metadata_scope (CompiledRule mode nested f sets act invert req))"
    unfolding all by (intro scope_fold(2)) auto
qed

declare metadata_scope.simps [simp del]

lemma condition_eqs:
  "A = A' \<Longrightarrow> B = B' \<Longrightarrow> (A \<and> B) = (A' \<and> B')"
  "(xs \<noteq> [] \<Longrightarrow> u = v) \<Longrightarrow> match_field xs u = match_field xs v"
  "(m \<noteq> [] \<Longrightarrow> u' = v') \<Longrightarrow> address_map_matches m u' = address_map_matches m v'"
  "(ys \<noteq> [] \<Longrightarrow> P = Q) \<Longrightarrow> (ys = [] \<or> P) = (ys = [] \<or> Q)"
  "(x \<Longrightarrow> P = Q) \<Longrightarrow> (\<not> x \<or> P) = (\<not> x \<or> Q)"
  by (auto simp: match_field_def address_map_matches_def)

lemma fields_match_scope:
  assumes "scope_agree (fields_scope f) a b"
  shows "fields_match f a d = fields_match f b d"
proof -
  have "destination_addresses a = destination_addresses b"
    using assms by (simp add: scope_agree_def destination_addresses_def)
  then show ?thesis
    using assms unfolding fields_match_def scope_agree_def fields_scope_def
    by (intro condition_eqs) simp_all
qed

lemma matches_scope:
  "scope_agree (metadata_scope r) a b \<Longrightarrow> matches r a d = matches r b d"
proof (induction r arbitrary: a b rule: rule_induct)
  case (rule mode nested f sets act invert req)
  have ctx: "scope_agree s (set_context f a) (set_context f b)" if "scope_agree s a b" for s
    using that by (auto simp: set_context_def scope_agree_def)
  have "fields_match f a d = fields_match f b d"
    by (rule fields_match_scope [OF scope_agree_mono [OF rule.prems metadata_scope_parts(1)]])
  moreover have "matches r a d = matches r b d" if "r \<in> set nested" for r
    using rule.IH(1) [OF that] scope_agree_mono [OF rule.prems metadata_scope_parts(2) [OF that]] by blast
  moreover have "matches r (set_context f a) d = matches r (set_context f b) d"
    if "s \<in> set sets" "r \<in> set s" for s r
    using rule.IH(2) [OF that] ctx [OF scope_agree_mono [OF rule.prems metadata_scope_parts(3) [OF that]]] by blast
  ultimately show ?case
    by (cases mode rule: logical_mode_cases) (simp_all add: matches_unfold)
qed

lemma lazy_scan_cong:
  "list_all (\<lambda>x. matches (snd x) a d = matches (snd x) b d) xs \<Longrightarrow>
   lazy_scan a d needs xs = lazy_scan b d needs xs"
  by (induction xs) auto

text \<open>
  C19. Collecting only the metadata of \<open>linux_metadata_scope\<close> is enough: two connections that agree
  on the addresses, names and tags of the request and on the metadata in the scope of the rules
  get the same next action and the same decision, whatever the rest of their metadata is.
\<close>

theorem metadata_scope_sound:
  assumes "scope_agree (linux_metadata_scope (rt_rules r)) a b"
  shows "next_action r a from = next_action r b from \<and>
    next_action_lazy r a from = next_action_lazy r b from \<and> route r a = route r b"
proof -
  have dom: "rc_domain a = rc_domain b" "destination_addresses a = destination_addresses b"
    using assms by (simp_all add: scope_agree_def destination_addresses_def)
  have rule: "matches rule a d = matches rule b d" if "rule \<in> set (rt_rules r)" for rule d
    by (rule matches_scope [OF scope_agree_mono [OF assms [unfolded linux_metadata_scope_def] scope_fold(2) [OF that]]])
  have enum: "snd x \<in> set (rt_rules r)" if "x \<in> set (drop from (List.enumerate 0 (rt_rules r)))" for x
    using in_set_dropD [OF that] nth_mem [of "fst x" "rt_rules r"] by (auto simp: in_set_enumerate_eq)
  have "lazy_scan a d needs xs = lazy_scan b d needs xs" if "\<And>x. x \<in> set xs \<Longrightarrow> snd x \<in> set (rt_rules r)" for xs d needs
    using that rule by (intro lazy_scan_cong) (auto simp: list_all_iff)
  moreover have "find (\<lambda>(_, rule). matches rule a d) xs = find (\<lambda>(_, rule). matches rule b d) xs"
    if "\<And>x. x \<in> set xs \<Longrightarrow> snd x \<in> set (rt_rules r)" for xs :: "(nat \<times> compiled_rule) list" and d
    using that rule by (intro find_cong) auto
  moreover have "filter (\<lambda>rule. matches rule a d) (rt_rules r) = filter (\<lambda>rule. matches rule b d) (rt_rules r)" for d
    using rule by (intro filter_cong) auto
  ultimately show ?thesis
    using enum unfolding next_action_def next_action_lazy_def route_def Let_def dom by simp
qed

theorem metadata_scope_sound_witness:
  "next_action (simple_router [CompiledRule None [] (no_fields\<lparr>mf_users := [''root'']\<rparr>) []
      (ARoute Reject default_options) False False])
    (no_context\<lparr>rc_user := Some ''root'', rc_source_hostname := Some ''laptop''\<rparr>) 0 =
    next_action (simple_router [CompiledRule None [] (no_fields\<lparr>mf_users := [''root'']\<rparr>) []
      (ARoute Reject default_options) False False]) (no_context\<lparr>rc_user := Some ''root''\<rparr>) 0"
proof -
  let ?r = "simple_router [CompiledRule None [] (no_fields\<lparr>mf_users := [''root'']\<rparr>) []
      (ARoute Reject default_options) False False]"
  have "scope_agree (linux_metadata_scope (rt_rules ?r))
      (no_context\<lparr>rc_user := Some ''root'', rc_source_hostname := Some ''laptop''\<rparr>) (no_context\<lparr>rc_user := Some ''root''\<rparr>)"
    by (simp add: scope_agree_def linux_metadata_scope_def metadata_scope.simps fields_scope_def scope_union_def
        scope_default_def simple_router_def no_fields_def)
  from metadata_scope_sound [OF this] show ?thesis by blast
qed

section \<open>Two matchers for domains\<close>

text \<open>
  C20. The matcher DNS rules use on the rules of a rule set and the one the lazy lookup uses decide
  the same: \<open>dns_matches_domain\<close>, written with early returns, equals \<open>domain_fields_match\<close> on a
  known domain, through logical rules, nested rule sets and inversion.
\<close>

theorem dns_matcher_agrees: "dns_matches_domain r d = domain_fields_match r (Some d)"
proof (induction r rule: rule_induct)
  case (rule mode nested f sets act invert req)
  have "list_ex (list_ex (\<lambda>r. dns_matches_domain r d)) sets \<longleftrightarrow>
      (\<exists>s \<in> set sets. \<exists>r \<in> set s. domain_fields_match r (Some d))"
    using rule.IH(2) by (auto simp: list_ex_iff)
  with rule.IH(1) show ?case
    by (cases mode rule: logical_mode_cases)
      (auto simp: Let_def list_ex_iff list_all_iff domain_fields_default domain_fields_logical)
qed

section \<open>Merging options\<close>

lemma newer_or_simps:
  "newer_or (newer_or x y) z = newer_or x (newer_or y z)" "newer_or None x = x" "newer_or x None = x"
  "newer_or x x = x"
  by (simp_all add: newer_or_def split: option.splits)

text \<open>
  Options accumulate like a log: merging is associative, the default options are neutral, and
  a later merge wins exactly where it sets an option, so that the order in which route-options
  rules are met is all that matters.
\<close>

theorem merge_options_monoid:
  "merge_options (merge_options a b) c = merge_options a (merge_options b c) \<and>
   merge_options default_options a = a \<and> merge_options a default_options = a \<and>
   merge_options a a = a \<and>
   override_port (merge_options a b) = (if override_port b = None then override_port a else override_port b)"
  by (simp add: merge_options_def default_options_def newer_or_simps disj_assoc)
    (simp add: newer_or_def split: option.splits)

section \<open>Decisions\<close>

text \<open>Following \<open>next_action\<close> from rule to rule until one routes.\<close>

fun follow :: "router \<Rightarrow> route_context \<Rightarrow> nat \<Rightarrow> nat \<Rightarrow> route_decision" where
  "follow r c 0 n = Outbound (rt_final_outbound r)"
| "follow r c (Suc fuel) n =
    (case next_action r c n of
       None \<Rightarrow> Outbound (rt_final_outbound r)
     | Some (i, ARoute decision _) \<Rightarrow> decision
     | Some (i, _) \<Rightarrow> follow r c fuel (Suc i))"

lemma find_enumerate:
  "find (\<lambda>(_, x). P x) (List.enumerate k ys) =
    (case filter P ys of [] \<Rightarrow> None | x # _ \<Rightarrow> Some (k + length (takeWhile (Not \<circ> P) ys), x))"
  by (induction ys arbitrary: k) (auto split: list.splits)

lemma filter_drop_takeWhile:
  "filter P ys = x # xs \<Longrightarrow> filter P (drop (Suc (length (takeWhile (Not \<circ> P) ys))) ys) = xs"
  by (induction ys) (auto split: if_splits)

lemma drop_enumerate: "drop n (List.enumerate m xs) = List.enumerate (m + n) (drop n xs)"
proof (induction xs arbitrary: m n)
  case (Cons x xs)
  then show ?case by (cases n) simp_all
qed simp

abbreviation rule_hit :: "route_context \<Rightarrow> compiled_rule \<Rightarrow> bool" where
  "rule_hit c \<equiv> \<lambda>rule. matches rule c (map_option normalize_domain (rc_domain c))"

lemma next_action_filter:
  "next_action r c n =
    (case filter (rule_hit c) (drop n (rt_rules r)) of
       [] \<Rightarrow> None
     | rule # _ \<Rightarrow> Some (n + length (takeWhile (Not \<circ> rule_hit c) (drop n (rt_rules r))), cr_action rule))"
  by (simp add: next_action_def Let_def drop_enumerate find_enumerate split: list.split)

lemma follow_spec:
  assumes "length (rt_rules r) < n + fuel"
  shows "follow r c fuel n =
    (case find_map (\<lambda>rule. case cr_action rule of ARoute decision _ \<Rightarrow> Some decision | _ \<Rightarrow> None)
       (filter (rule_hit c) (drop n (rt_rules r))) of
       Some decision \<Rightarrow> decision
     | None \<Rightarrow> Outbound (rt_final_outbound r))"
  using assms
proof (induction fuel arbitrary: n)
  case (Suc fuel)
  show ?case
  proof (cases "filter (rule_hit c) (drop n (rt_rules r))")
    case Nil
    then show ?thesis by (simp add: next_action_filter)
  next
    case (Cons rule rest)
    let ?k = "length (takeWhile (Not \<circ> rule_hit c) (drop n (rt_rules r)))"
    have rest: "filter (rule_hit c) (drop (Suc (n + ?k)) (rt_rules r)) = rest"
      using filter_drop_takeWhile [OF Cons] by (simp add: add.commute)
    have "follow r c fuel (Suc (n + ?k)) =
      (case find_map (\<lambda>rule. case cr_action rule of ARoute decision _ \<Rightarrow> Some decision | _ \<Rightarrow> None) rest of
         Some decision \<Rightarrow> decision
       | None \<Rightarrow> Outbound (rt_final_outbound r))"
      using Suc.IH [of "Suc (n + ?k)"] Suc.prems by (simp add: rest)
    then show ?thesis
      using Cons by (simp add: next_action_filter split: rule_action.split)
  qed
qed simp

text \<open>
  The two ways to evaluate the rules agree: \<open>route\<close>, which scans for the first matching rule
  that decides, equals following \<open>next_action\<close> rule by rule, skipping the actions that do not
  decide, with one step per rule; without a decision both give the final outbound.
\<close>

theorem route_follows_next_action: "route r c = follow r c (Suc (length (rt_rules r))) 0"
  using follow_spec [of r 0 "Suc (length (rt_rules r))" c]
  by (simp add: route_def Let_def del: follow.simps)

end
