(* ===== verification/Dns_Rules.thy ===== *)
theory Dns_Rules
  imports Dns_Message Route_Engine
begin

unbundle bit_operations_syntax

text \<open>
  The DNS rules of \<^verbatim>\<open>src/src/dns/message.rs\<close>: their validation and compilation, matching of a
  question, the address limits of rule sets, and the response of \<open>predefined\<close> rules. The rules
  of rule sets are those of the router (theory \<open>Routing\<close>).
\<close>

section \<open>Rules\<close>

text \<open>A \<open>serde_json::Value\<close> as the rules read it: \<open>as_u64\<close>, \<open>as_str\<close>, or neither.\<close>

datatype json_scalar = JNum nat | JStr string | JOther

record dns_rule_fields =
  dr_type :: string
  dr_mode :: "string option"
  dr_query_type :: "json_scalar list"
  dr_domain :: "string list"
  dr_domain_suffix :: "string list"
  dr_domain_keyword :: "string list"
  dr_domain_regex :: "string list"
  dr_rule_set :: "string list"
  dr_server :: "string option"
  dr_action :: "string option"
  dr_invert :: bool
  dr_strategy :: "string option"
  dr_disable_cache :: bool
  dr_rewrite_ttl :: "u32 option"
  dr_timeout :: "string option"
  dr_client_subnet :: "string option"
  dr_method :: "string option"
  dr_rcode :: "json_scalar option"
  dr_answer :: "string list"
  dr_ns :: "string list"
  dr_extra :: "string list"

datatype dns_rule = DnsRule (dr_rules: "dns_rule list") (dr_fields: dns_rule_fields)

datatype compiled_dns_rule =
  CompiledDnsRule (cd_raw: dns_rule_fields) (cd_query_type: "u16 list") (cd_domains: "string list")
    (cd_suffixes: "string list") (cd_keywords: "string list") (cd_regexes: "regex list")
    (cd_logical: "(logical_mode \<times> compiled_dns_rule list) option")

definition parse_query_type :: "json_scalar \<Rightarrow> u16 result" where
  "parse_query_type v =
    (case v of
       JNum n \<Rightarrow> if n < 65536 then Inr (word_of_nat n) else Inl (Bail ''DNS query_type number exceeds 65535'')
     | JOther \<Rightarrow> Inl (Bail ''DNS query_type must be a number or string'')
     | JStr s \<Rightarrow>
        (case parse_uint 16 s of
           Some n \<Rightarrow> Inr (word_of_nat n)
         | None \<Rightarrow>
            (case map_of [(''A'', 1), (''NS'', 2), (''CNAME'', 5), (''SOA'', 6), (''PTR'', 12), (''MX'', 15),
                (''TXT'', 16), (''AAAA'', 28), (''SRV'', 33), (''OPT'', 41), (''SVCB'', 64), (''HTTPS'', 65),
                (''CAA'', 257)] (to_ascii_uppercase s) of
               Some q \<Rightarrow> Inr q
             | None \<Rightarrow> Inl (Bail ''unsupported DNS query_type name''))))"

definition parse_rcode :: "json_scalar option \<Rightarrow> u8 result" where
  "parse_rcode v =
    (case v of
       None \<Rightarrow> Inr 0
     | Some (JNum n) \<Rightarrow> if n < 256 then Inr (word_of_nat n) else Inl (Bail ''DNS rcode exceeds 255'')
     | Some JOther \<Rightarrow> Inl (Bail ''DNS rcode must be a number or string'')
     | Some (JStr s) \<Rightarrow>
        (case map_of [(''NOERROR'', 0), (''FORMERR'', 1), (''SERVFAIL'', 2), (''NXDOMAIN'', 3),
            (''NOTIMP'', 4), (''REFUSED'', 5)] s of
           Some r \<Rightarrow> Inr r
         | None \<Rightarrow> Inl (Bail ''unsupported DNS rcode'')))"

definition validate_strategy :: "string option \<Rightarrow> unit result" where
  "validate_strategy s =
    (if s \<in> {None, Some '''', Some ''prefer_ipv4'', Some ''prefer_ipv6'', Some ''ipv4_only'', Some ''ipv6_only''}
     then Inr () else Inl (Bail ''unsupported DNS strategy''))"

fun compile_dns_rule :: "(string \<Rightarrow> regex option) \<Rightarrow> dns_rule \<Rightarrow> compiled_dns_rule result" where
  "compile_dns_rule regex_new (DnsRule nested f) =
    bindr (map_result parse_query_type (dr_query_type f)) (\<lambda>query_type.
    bindr (map_result (\<lambda>v. with_context ''invalid DNS domain_regex'' (regex_new v)) (dr_domain_regex f)) (\<lambda>regexes.
    bindr (if dr_type f = ''logical'' then
             let mode = (case dr_mode f of None \<Rightarrow> ''and'' | Some m \<Rightarrow> m) in
             bindr (if mode = ''and'' then Inr LAnd else if mode = ''or'' then Inr LOr
                    else Inl (Bail ''unsupported logical DNS mode'')) (\<lambda>m.
             bindr (map_result (compile_dns_rule regex_new) nested) (\<lambda>rules. Inr (Some (m, rules))))
           else Inr None) (\<lambda>logical.
      Inr (CompiledDnsRule f query_type (map normalize (dr_domain f)) (map normalize (dr_domain_suffix f))
             (map to_ascii_lowercase (dr_domain_keyword f)) regexes logical))))"

type_synonym rule_set_map = "(string, compiled_rule list) hashmap"

fun dns_rule_matches :: "compiled_dns_rule \<Rightarrow> string \<Rightarrow> u16 \<Rightarrow> rule_set_map option \<Rightarrow> bool" where
  "dns_rule_matches (CompiledDnsRule raw qts domains sfxs keywords regexes logical) name qtype rsets =
    (case logical of
       Some (mode, rules) \<Rightarrow>
         (let matched = (case mode of
               LAnd \<Rightarrow> list_all (\<lambda>rule. dns_rule_matches rule name qtype rsets) rules
             | LOr \<Rightarrow> list_ex (\<lambda>rule. dns_rule_matches rule name qtype rsets) rules) in
          if dr_invert raw then \<not> matched else matched)
     | None \<Rightarrow>
         (let matched =
            (qts = [] \<or> qtype \<in> set qts) \<and>
            (domains = [] \<or> list_ex (\<lambda>v. v = name) domains) \<and>
            (sfxs = [] \<or> list_ex (suffix_matches name) sfxs) \<and>
            (keywords = [] \<or> list_ex (contains name) keywords) \<and>
            (regexes = [] \<or> list_ex (\<lambda>r. r name) regexes) \<and>
            (dr_rule_set raw = [] \<or>
             is_some_and rsets (\<lambda>sets.
               list_ex (\<lambda>tag. is_some_and (hm_get sets tag) (\<lambda>rules.
                 list_ex (\<lambda>rule. dns_matches_domain rule name \<or> dns_contains_ip_cidr rule) rules))
                 (dr_rule_set raw))) in
          if dr_invert raw then \<not> matched else matched))"

fun dns_rule_has_address_limit :: "compiled_dns_rule \<Rightarrow> rule_set_map option \<Rightarrow> bool" where
  "dns_rule_has_address_limit (CompiledDnsRule raw qts domains sfxs keywords regexes logical) rsets =
    (case logical of
       Some (_, rules) \<Rightarrow> list_ex (\<lambda>rule. dns_rule_has_address_limit rule rsets) rules
     | None \<Rightarrow>
         is_some_and rsets (\<lambda>sets.
           list_ex (\<lambda>tag. is_some_and (hm_get sets tag) (list_ex dns_contains_ip_cidr)) (dr_rule_set raw)))"

fun dns_rule_address_limit_matches ::
  "compiled_dns_rule \<Rightarrow> string \<Rightarrow> ip_addr list \<Rightarrow> rule_set_map option \<Rightarrow> bool" where
  "dns_rule_address_limit_matches (CompiledDnsRule raw qts domains sfxs keywords regexes logical)
     name addresses rsets =
    (case logical of
       Some (mode, rules) \<Rightarrow>
         (let matched = (case mode of
               LAnd \<Rightarrow> list_all (\<lambda>rule. dns_rule_address_limit_matches rule name addresses rsets) rules
             | LOr \<Rightarrow> list_ex (\<lambda>rule. dns_rule_address_limit_matches rule name addresses rsets) rules) in
          if dr_invert raw then \<not> matched else matched)
     | None \<Rightarrow>
         (let sets_matched =
            (case rsets of
               None \<Rightarrow> True
             | Some sets \<Rightarrow>
                list_ex (\<lambda>tag. is_some_and (hm_get sets tag) (\<lambda>rules.
                  list_ex (\<lambda>rule. list_ex (\<lambda>address. dns_matches_address rule address (Some name)) addresses) rules))
                  (dr_rule_set raw)) in
          if dr_invert raw then \<not> sets_matched else sets_matched))"

text \<open>
  \<open>validate_dns_rule\<close>; \<open>check_record\<close> and \<open>check_subnet\<close> stand for the success of
  \<open>parse_dns_record\<close> and of \<open>parse_client_subnet\<close>.
\<close>

fun validate_dns_rule ::
  "(string \<Rightarrow> regex option) \<Rightarrow> (string \<Rightarrow> unit result) \<Rightarrow> (string \<Rightarrow> unit result) \<Rightarrow> bool \<Rightarrow> dns_rule \<Rightarrow>
   unit result" where
  "validate_dns_rule regex_new check_record check_subnet top_level (DnsRule nested f) =
    bindr (if dr_type f = ''logical'' then
             if dr_mode f \<noteq> Some ''and'' \<and> dr_mode f \<noteq> Some ''or''
             then Inl (Bail ''logical DNS rule requires mode and/or'')
             else if nested = [] then Inl (Bail ''logical DNS rule requires nested rules'')
             else bindr (map_result (validate_dns_rule regex_new check_record check_subnet False) nested) (\<lambda>_. Inr ())
           else if dr_type f \<noteq> '''' \<and> dr_type f \<noteq> ''default'' then Inl (Bail ''unsupported DNS rule type'')
           else Inr ()) (\<lambda>_.
    bindr (map_result (\<lambda>v. with_context ''invalid DNS domain_regex'' (regex_new v)) (dr_domain_regex f)) (\<lambda>_.
    bindr (map_result parse_query_type (dr_query_type f)) (\<lambda>_.
    bindr (ensure (\<not> (\<not> top_level \<and> is_some_and (dr_action f) (\<lambda>a. a \<noteq> '''')))
             ''nested logical DNS rules cannot contain actions'') (\<lambda>_.
    bindr (ensure (dr_action f \<in> {None, Some '''', Some ''route'', Some ''reject'', Some ''predefined''})
             ''unsupported DNS rule action'') (\<lambda>_.
    bindr (if dr_action f = Some ''predefined'' then
             bindr (parse_rcode (dr_rcode f)) (\<lambda>_.
             bindr (map_result check_record (dr_answer f @ dr_ns f @ dr_extra f)) (\<lambda>_. Inr ()))
           else Inr ()) (\<lambda>_.
    bindr (ensure (\<not> (dr_action f = Some ''reject'' \<and>
             dr_method f \<notin> {None, Some '''', Some ''default'', Some ''drop''}))
             ''unsupported DNS reject method'') (\<lambda>_.
    bindr (case dr_client_subnet f of None \<Rightarrow> Inr () | Some subnet \<Rightarrow> check_subnet subnet) (\<lambda>_.
      validate_strategy (dr_strategy f)))))))))"

section \<open>Predefined answers\<close>

record predefined_record =
  pr_owner :: string
  pr_ttl :: u32
  pr_kind :: u16
  pr_rdata :: bytes

definition encode_name :: "string \<Rightarrow> bytes result" where
  "encode_name s =
    (let name = trim_end_matches CHR ''.'' s in
     if name = [] then Inr [0]
     else bindr (encode_labels ''invalid DNS record name'' (split_on CHR ''.'' name)) (\<lambda>out. Inr (out @ [0])))"

text \<open>The owner a record is written with, or \<open>None\<close> when the wildcard does not cover the question.\<close>

definition record_owner :: "string \<Rightarrow> predefined_record \<Rightarrow> string option" where
  "record_owner query_name r =
    (case strip_prefix (pr_owner r) ''*'' of
       Some rest \<Rightarrow>
         (let remainder = trim_start_matches CHR ''.'' rest in
          if remainder = [] \<or> ends_with query_name (''.'' @ remainder) then Some query_name else None)
     | None \<Rightarrow> Some (pr_owner r))"

fun write_records :: "string \<Rightarrow> predefined_record list \<Rightarrow> (bytes \<times> nat) result" where
  "write_records query_name [] = Inr ([], 0)"
| "write_records query_name (r # rs) =
    (case record_owner query_name r of
       None \<Rightarrow> write_records query_name rs
     | Some owner \<Rightarrow>
        bindr (encode_name owner) (\<lambda>name.
        bindr (write_records query_name rs) (\<lambda>(rest, n).
          Inr (name @ to_be_bytes (pr_kind r) @ to_be_bytes (1 :: u16) @ to_be_bytes (pr_ttl r) @
               to_be_bytes (word_of_nat (length (pr_rdata r)) :: u16) @ pr_rdata r @ rest, Suc n))))"

text \<open>\<open>predefined_response\<close>; \<open>written += 1\<close> on a \<open>u16\<close> panics on overflow in a debug build.\<close>

definition predefined_response :: "bytes \<Rightarrow> nat \<Rightarrow> u8 \<Rightarrow> predefined_record list \<Rightarrow> bytes result" where
  "predefined_response request question_end rcode records =
    bindr (parse_question request) (\<lambda>(query_name, _, _).
    bindr (with_context ''truncated DNS question'' (get_range request 0 question_end)) (\<lambda>r0.
    bindr (copy_at r0 2 [0x80 OR 0x04 OR 0x01]) (\<lambda>r1.
    bindr (copy_at r1 3 [0x80 OR (rcode AND 0x0F)]) (\<lambda>r2.
    bindr (copy_at r2 6 [0, 0, 0, 0, 0, 0]) (\<lambda>r3.
    bindr (write_records query_name records) (\<lambda>(body, written).
      if written > 65535 then Inl Panic
      else copy_at (r3 @ body) 6 (to_be_bytes (word_of_nat written :: u16))))))))"

section \<open>Validated rules compile\<close>

lemma map_result_total: "(\<And>x. x \<in> set xs \<Longrightarrow> \<exists>y. f x = Inr y) \<Longrightarrow> \<exists>ys. map_result f xs = Inr ys"
  by (induction xs) (fastforce simp: bindr_Inr_iff)+

text \<open>
  C11. Validation is sound for compilation: a rule, with all the rules nested in it, that
  \<open>validate_dns_rule\<close> accepts is compiled without error, so that building the resolver cannot
  fail on a validated configuration.
\<close>

theorem validated_dns_rule_compiles:
  assumes "validate_dns_rule regex_new check_record check_subnet top_level rule = Inr ()"
  shows "\<exists>c. compile_dns_rule regex_new rule = Inr c"
  using assms
proof (induction rule arbitrary: top_level)
  case (DnsRule nested f)
  from DnsRule.prems obtain qs rs where
      qs: "map_result parse_query_type (dr_query_type f) = Inr qs"
    and rs: "map_result (\<lambda>v. with_context ''invalid DNS domain_regex'' (regex_new v)) (dr_domain_regex f) = Inr rs"
    and logical: "dr_type f = ''logical'' \<Longrightarrow> (dr_mode f = Some ''and'' \<or> dr_mode f = Some ''or'') \<and>
      (\<exists>us. map_result (validate_dns_rule regex_new check_record check_subnet False) nested = Inr us)"
    by (auto simp: bindr_Inr_iff split: if_splits)
  have "\<exists>cs. map_result (compile_dns_rule regex_new) nested = Inr cs" if "dr_type f = ''logical''"
  proof (rule map_result_total)
    fix r assume r: "r \<in> set nested"
    from logical [OF that] obtain us where
      "list_all2 (\<lambda>x y. validate_dns_rule regex_new check_record check_subnet False x = Inr y) nested us"
      by (auto simp: map_result_Inr_iff)
    with r have "validate_dns_rule regex_new check_record check_subnet False r = Inr ()"
      by (auto simp: list_all2_conv_all_nth in_set_conv_nth)
    with DnsRule.IH [OF r] show "\<exists>c. compile_dns_rule regex_new r = Inr c" by blast
  qed
  with qs rs logical show ?case by (cases "dr_type f = ''logical''") auto
qed

theorem validated_dns_rule_compiles_witness:
  "\<exists>c. compile_dns_rule (\<lambda>_. Some (\<lambda>_. True))
    (DnsRule [] \<lparr>dr_type = '''', dr_mode = None, dr_query_type = [JStr ''AAAA''], dr_domain = [''a.b''],
      dr_domain_suffix = [], dr_domain_keyword = [], dr_domain_regex = [''x''], dr_rule_set = [],
      dr_server = None, dr_action = Some ''reject'', dr_invert = False, dr_strategy = None,
      dr_disable_cache = False, dr_rewrite_ttl = None, dr_timeout = None, dr_client_subnet = None,
      dr_method = None, dr_rcode = None, dr_answer = [], dr_ns = [], dr_extra = []\<rparr>) = Inr c"
proof (rule validated_dns_rule_compiles)
  show "validate_dns_rule (\<lambda>_. Some (\<lambda>_. True)) (\<lambda>_. Inr ()) (\<lambda>_. Inr ()) True
    (DnsRule [] \<lparr>dr_type = '''', dr_mode = None, dr_query_type = [JStr ''AAAA''], dr_domain = [''a.b''],
      dr_domain_suffix = [], dr_domain_keyword = [], dr_domain_regex = [''x''], dr_rule_set = [],
      dr_server = None, dr_action = Some ''reject'', dr_invert = False, dr_strategy = None,
      dr_disable_cache = False, dr_rewrite_ttl = None, dr_timeout = None, dr_client_subnet = None,
      dr_method = None, dr_rcode = None, dr_answer = [], dr_ns = [], dr_extra = []\<rparr>) = Inr ()"
    by code_simp
qed

section \<open>Address limits\<close>

text \<open>
  The documentation of the post-resolution check asks every address to match; the code asks for
  one address. A nested rule that names no rule set never passes the check, so that a logical
  \<open>and\<close> of a domain rule and of a rule set of networks rejects every response.
\<close>

lemma address_limit_is_existential:
  assumes "list_ex (\<lambda>rule. dns_matches_address rule a (Some name)) rules" and "a \<in> set addresses"
    and "tag \<in> set (dr_rule_set raw)" and "hm_get sets tag = Some rules" and "\<not> dr_invert raw"
  shows "dns_rule_address_limit_matches (CompiledDnsRule raw qts ds ss ks rs None) name addresses (Some sets)"
  using assms by (auto simp: list_ex_iff Let_def is_some_and_iff intro!: bexI [of _ tag])

lemma address_limit_and_without_set:
  assumes "CompiledDnsRule f qts ds ss ks rs None \<in> set rules" and "dr_rule_set f = []"
    and "\<not> dr_invert f" and "\<not> dr_invert raw"
  shows "\<not> dns_rule_address_limit_matches (CompiledDnsRule raw qts' ds' ss' ks' rs' (Some (LAnd, rules)))
    name addresses (Some sets)"
  using assms by (fastforce simp: list_all_iff)

section \<open>Predefined answers are well formed\<close>

lemma skip_name_encode_labels:
  assumes "encode_labels msg ls = Inr enc" and "length ls + c \<le> 127"
  shows "skip_name_from (pre @ enc @ 0 # rest) (length pre) c = Inr (length pre + length enc + 1)"
  using assms
proof (induction ls arbitrary: pre enc c)
  case Nil
  then show ?case by (subst skip_name_from_unfold) simp
next
  case (Cons l ls)
  then obtain e where l: "l \<noteq> []" "length l \<le> 63" and e: "encode_labels msg ls = Inr e"
    and enc: "enc = word_of_nat (length l) # as_bytes l @ e"
    by (auto simp: bindr_Inr_iff split: if_splits)
  define b where "b = pre @ enc @ 0 # rest"
  have n: "unat (word_of_nat (length l) :: u8) = length l"
    using l by (simp add: unat_of_nat)
  have at: "b ! length pre = word_of_nat (length l)" "length pre < length b" "Suc (length pre + length l) \<le> length b"
    by (simp_all add: b_def enc)
  have short: "(word_of_nat (length l) :: u8) \<le> 63" "(word_of_nat (length l) :: u8) \<noteq> 0"
    using l n by (simp add: word_le_nat_alt) (metis l(1) n length_0_conv unsigned_0)
  have "skip_name_from b (Suc (length pre + length l)) (Suc c) = Inr (length pre + length enc + 1)"
    using Cons.IH [of e "Suc c" "pre @ word_of_nat (length l) # as_bytes l"] e Cons.prems(2)
    by (simp add: b_def enc)
  then have "skip_name_from b (length pre) c = Inr (length pre + length enc + 1)"
    using at n short short_label_bits [OF short(1)] Cons.prems(2)
    by (subst skip_name_from_unfold) (auto simp: linorder_not_less)
  then show ?case by (simp add: b_def)
qed

lemma trim_end_length: "length (trim_end_matches c s) \<le> length s"
  using length_dropWhile_le [of "\<lambda>x. x = c" "rev s"] by (simp add: trim_end_matches_def)

lemma skip_name_encode_name:
  assumes "encode_name s = Inr name" and "length s \<le> 253"
  shows "skip_name (pre @ name @ rest) (length pre) = Inr (length pre + length name)"
proof (cases "trim_end_matches CHR ''.'' s = []")
  case True
  with assms(1) have "name = [0]" by (simp add: encode_name_def)
  then show ?thesis
    by (simp add: skip_name_def skip_name_from_unfold [of _ "length pre"])
next
  case False
  let ?s = "trim_end_matches CHR ''.'' s"
  let ?ls = "split_on CHR ''.'' ?s"
  from assms(1) False obtain enc where enc: "encode_labels ''invalid DNS record name'' ?ls = Inr enc"
    and name: "name = enc @ [0]"
    by (auto simp: encode_name_def Let_def bindr_Inr_iff)
  have "2 * length ls \<le> length (concat ls) + length ls" if "encode_labels msg ls = Inr e" for msg ls e
    using that
  proof (induction ls arbitrary: e)
    case (Cons l ls)
    then show ?case by (cases l) (auto simp: bindr_Inr_iff split: if_splits)
  qed simp
  from this [OF enc] have "2 * length ?ls \<le> Suc (length ?s)"
    using length_join [of ?ls "CHR ''.''"] by (simp add: join_split_on)
  then have "length ?ls + 0 \<le> 127"
    using trim_end_length [of "CHR ''.''" s] assms(2) by linarith
  from skip_name_encode_labels [OF enc this, of pre rest] show ?thesis
    by (simp add: skip_name_def name)
qed

lemma ttl_records_written:
  assumes "write_records query_name rs = Inr (body, n)"
    and "\<And>r owner. r \<in> set rs \<Longrightarrow> record_owner query_name r = Some owner \<Longrightarrow>
      length owner \<le> 253 \<and> length (pr_rdata r) < 65536"
  shows "\<exists>offs. ttl_records (pre @ body) n (length pre) = Inr offs \<and>
    map snd offs = map (\<lambda>r. (pr_kind r, pr_ttl r)) (filter (\<lambda>r. record_owner query_name r \<noteq> None) rs)"
  using assms
proof (induction rs arbitrary: pre body n)
  case (Cons r rs)
  show ?case
  proof (cases "record_owner query_name r")
    case None
    with Cons.prems(1) have "write_records query_name rs = Inr (body, n)" by simp
    from Cons.IH [OF this, of pre] Cons.prems(2) None show ?thesis by auto
  next
    case (Some owner)
    let ?data = "pr_rdata r"
    from Cons.prems(1) Some obtain name rest k where name: "encode_name owner = Inr name"
      and rest: "write_records query_name rs = Inr (rest, k)" and n: "n = Suc k"
      and body: "body = name @ to_be_bytes (pr_kind r) @ to_be_bytes (1 :: u16) @ to_be_bytes (pr_ttl r) @
          to_be_bytes (word_of_nat (length ?data) :: u16) @ ?data @ rest"
      by (auto simp: bindr_Inr_iff)
    have ok: "length owner \<le> 253" "length ?data < 65536" using Cons.prems(2) [of r owner] Some by auto
    define b where "b = pre @ body"
    define q where "q = length pre + length name"
    let ?pre = "pre @ name @ to_be_bytes (pr_kind r) @ to_be_bytes (1 :: u16) @ to_be_bytes (pr_ttl r) @
          to_be_bytes (word_of_nat (length ?data) :: u16) @ ?data"
    obtain offs where offs: "ttl_records (?pre @ rest) k (length ?pre) = Inr offs"
        "map snd offs = map (\<lambda>r. (pr_kind r, pr_ttl r)) (filter (\<lambda>r. record_owner query_name r \<noteq> None) rs)"
      using Cons.IH [OF rest, of ?pre] Cons.prems(2) by auto
    have "?pre @ rest = b" "length ?pre = q + (10 + length ?data)" by (simp_all add: b_def body q_def)
    with offs(1) have tail: "ttl_records b k (q + (10 + length ?data)) = Inr offs" by metis
    have len: "take 2 (drop (q + 8) b) = to_be_bytes (word_of_nat (length ?data) :: u16)"
      by (simp add: b_def q_def body)
    have "be_val (take 2 (drop (q + 8) b)) = length ?data"
      unfolding len using ok(2) unat_from_be_bytes [of "to_be_bytes (word_of_nat (length ?data) :: u16)", where 'a = 16]
      by (simp add: unat_of_nat)
    moreover have "from_be_bytes (take 2 (drop q b)) = pr_kind r" "from_be_bytes (take 4 (drop (q + 4) b)) = pr_ttl r"
      by (simp_all add: b_def q_def body)
    moreover have "skip_name b (length pre) = Inr q"
      using skip_name_encode_name [OF name ok(1), of pre] by (simp add: b_def q_def body)
    moreover have "q + (10 + length ?data) \<le> length b"
      by (simp add: q_def b_def body)
    ultimately have "ttl_records b (Suc k) (length pre) = Inr ((q + 4, pr_kind r, pr_ttl r) # offs)"
      using tail unfolding ttl_records_Suc by fastforce
    then show ?thesis
      using offs(2) Some by (auto simp: b_def n)
  qed
qed simp

lemma query_name_length:
  assumes "parse_labels r p = Inr (ls, stop)"
  shows "length (join ''.'' ls) \<le> stop - p - 2"
proof -
  have "length (concat ls) + length ls + p + 1 = stop"
    using assms
  proof (induction ls arbitrary: p)
    case Nil
    from parse_labels_NilE [OF Nil] show ?case by simp
  next
    case (Cons l ls)
    note step = parse_labels_ConsE [OF Cons.prems]
    have "length l = unat (r ! p)"
      using arg_cong [OF step(6), of length] step(4) by simp
    with Cons.IH [OF step(7)] show ?case by simp
  qed
  then show ?thesis
    using length_join [of ls "CHR ''.''"] by (cases "ls = []") auto
qed

lemma normalize_length: "length (normalize s) \<le> length s"
  using trim_end_length [of "CHR ''.''" s] by (simp add: normalize_def)



end
