(* ===== verification/Ip_Text.thy ===== *)
theory Ip_Text
  imports Net_Addr
begin

text \<open>
  Text forms of the standard library: \<open>IpAddr::from_str\<close> (the parser of \<open>core::net\<close>),
  \<open>str::split_whitespace\<close> and the durations and host forms of \<^verbatim>\<open>src/src/util.rs\<close>.
\<close>

section \<open>Addresses\<close>

text \<open>A parser reads a prefix of the text; a parser that fails leaves the text untouched.\<close>

type_synonym 'a parser = "string \<Rightarrow> ('a \<times> string) option"

definition to_digit :: "nat \<Rightarrow> char \<Rightarrow> nat option" where
  "to_digit radix c =
    (let b = byte_of_char c;
         d = (if 48 \<le> b \<and> b \<le> 57 then Some (unat (b - 48))
              else if 97 \<le> b \<and> b \<le> 122 then Some (unat (b - 87))
              else if 65 \<le> b \<and> b \<le> 90 then Some (unat (b - 55)) else None) in
     case d of None \<Rightarrow> None | Some v \<Rightarrow> if v < radix then Some v else None)"

definition digit_value :: "nat \<Rightarrow> char \<Rightarrow> nat" where
  "digit_value radix c = (case to_digit radix c of None \<Rightarrow> 0 | Some d \<Rightarrow> d)"

definition read_number :: "nat \<Rightarrow> nat \<Rightarrow> bool \<Rightarrow> nat \<Rightarrow> nat parser" where
  "read_number radix max_digits allow_zero_prefix bound s =
    (let ds = takeWhile (\<lambda>c. to_digit radix c \<noteq> None) s;
         v = foldl (\<lambda>acc c. acc * radix + digit_value radix c) 0 ds in
     if ds = [] \<or> max_digits < length ds then None
     else if \<not> allow_zero_prefix \<and> hd ds = CHR ''0'' \<and> 1 < length ds then None
     else if v < bound then Some (v, drop (length ds) s) else None)"

definition read_given_char :: "char \<Rightarrow> unit parser" where
  "read_given_char c s = (case s of [] \<Rightarrow> None | x # r \<Rightarrow> if x = c then Some ((), r) else None)"

definition read_separator :: "char \<Rightarrow> nat \<Rightarrow> 'a parser \<Rightarrow> 'a parser" where
  "read_separator sep i inner s =
    (if i = 0 then inner s
     else (case read_given_char sep s of None \<Rightarrow> None | Some (_, r) \<Rightarrow> inner r))"

fun read_octets :: "nat \<Rightarrow> nat \<Rightarrow> u8 list parser" where
  "read_octets i 0 s = Some ([], s)"
| "read_octets i (Suc n) s =
    (case read_separator CHR ''.'' i (read_number 10 3 False 256) s of
       None \<Rightarrow> None
     | Some (v, r) \<Rightarrow>
        (case read_octets (Suc i) n r of
           None \<Rightarrow> None
         | Some (vs, r') \<Rightarrow> Some (word_of_nat v # vs, r')))"

definition read_ipv4_addr :: "bytes parser" where
  "read_ipv4_addr = read_octets 0 4"

text \<open>
  \<open>read_groups\<close> fills at most \<open>limit\<close> sixteen-bit groups and reports whether the last two come
  from an embedded IPv4 address; it stops without failing where no group can be read.
\<close>

fun read_groups :: "nat \<Rightarrow> nat \<Rightarrow> string \<Rightarrow> u16 list \<times> bool \<times> string" where
  "read_groups i 0 s = ([], False, s)"
| "read_groups i (Suc left) s =
    (case (if 0 < left then read_separator CHR '':'' i read_ipv4_addr s else None) of
       Some (octets, r) \<Rightarrow>
         ([from_be_bytes (take 2 octets), from_be_bytes (drop 2 octets)], True, r)
     | None \<Rightarrow>
        (case read_separator CHR '':'' i (read_number 16 4 True 65536) s of
           None \<Rightarrow> ([], False, s)
         | Some (g, r) \<Rightarrow>
            (let (gs, v4, r') = read_groups (Suc i) left r in (word_of_nat g # gs, v4, r'))))"

definition groups_addr :: "u16 list \<Rightarrow> u128" where
  "groups_addr gs = from_be_bytes (concat (map to_be_bytes gs))"

definition read_ipv6_addr :: "u128 parser" where
  "read_ipv6_addr s =
    (let (head, head_v4, r) = read_groups 0 8 s in
     if length head = 8 then Some (groups_addr head, r)
     else if head_v4 then None
     else case read_given_char CHR '':'' r of
       None \<Rightarrow> None
     | Some (_, r1) \<Rightarrow>
       (case read_given_char CHR '':'' r1 of
          None \<Rightarrow> None
        | Some (_, r2) \<Rightarrow>
          (let (tail, _, r3) = read_groups 0 (8 - (length head + 1)) r2 in
           Some (groups_addr (head @ replicate (8 - length head - length tail) 0 @ tail), r3))))"

definition parse_ip :: "string \<Rightarrow> ip_addr option" where
  "parse_ip s =
    (case (case read_ipv4_addr s of
             Some (octets, r) \<Rightarrow> Some (V4 (ipv4_from octets), r)
           | None \<Rightarrow> (case read_ipv6_addr s of Some (a, r) \<Rightarrow> Some (V6 a, r) | None \<Rightarrow> None)) of
       Some (a, []) \<Rightarrow> Some a
     | _ \<Rightarrow> None)"

definition parse_ipv4 :: "string \<Rightarrow> u32 option" where
  "parse_ipv4 s =
    (if 15 < length s then None
     else case read_ipv4_addr s of Some (octets, []) \<Rightarrow> Some (ipv4_from octets) | _ \<Rightarrow> None)"

section \<open>Words of a line\<close>

text \<open>The number of bytes of the white-space character a text starts with, 0 if there is none.\<close>

definition whitespace_width :: "string \<Rightarrow> nat" where
  "whitespace_width s =
    (case as_bytes (take 3 s) of
       [] \<Rightarrow> 0
     | a # rest \<Rightarrow>
        if (9 \<le> a \<and> a \<le> 13) \<or> a = 32 then 1
        else (case rest of
           [] \<Rightarrow> 0
         | b # rest' \<Rightarrow>
            if a = 0xC2 \<and> (b = 0x85 \<or> b = 0xA0) then 2
            else (case rest' of
               [] \<Rightarrow> 0
             | c # _ \<Rightarrow>
                if (a = 0xE1 \<and> b = 0x9A \<and> c = 0x80) \<or>
                   (a = 0xE2 \<and> b = 0x80 \<and> (0x80 \<le> c \<and> c \<le> 0x8A \<or> c = 0xA8 \<or> c = 0xA9 \<or> c = 0xAF)) \<or>
                   (a = 0xE2 \<and> b = 0x81 \<and> c = 0x9F) \<or> (a = 0xE3 \<and> b = 0x80 \<and> c = 0x80)
                then 3 else 0)))"

fun split_whitespace_from :: "string \<Rightarrow> string \<Rightarrow> string list" where
  "split_whitespace_from cur [] = (if cur = [] then [] else [rev cur])"
| "split_whitespace_from cur (c # s) =
    (case whitespace_width (c # s) of
       0 \<Rightarrow> split_whitespace_from (c # cur) s
     | Suc n \<Rightarrow> (if cur = [] then [] else [rev cur]) @ split_whitespace_from [] (drop n s))"

definition split_whitespace :: "string \<Rightarrow> string list" where
  "split_whitespace s = split_whitespace_from [] s"

section \<open>Durations and hosts\<close>

definition parse_duration :: "string \<Rightarrow> duration result" where
  "parse_duration v =
    bindr (case strip_suffix v ''ms'' of
             Some number \<Rightarrow> Inr (number, from_millis 1)
           | None \<Rightarrow>
        (case strip_suffix v ''s'' of
             Some number \<Rightarrow> Inr (number, from_secs 1)
           | None \<Rightarrow>
        (case strip_suffix v ''m'' of
             Some number \<Rightarrow> Inr (number, from_secs 60)
           | None \<Rightarrow>
        (case strip_suffix v ''h'' of
             Some number \<Rightarrow> Inr (number, from_secs 3600)
           | None \<Rightarrow> Inl (Bail ''invalid duration'')))))
      (\<lambda>(number, multiplier).
        bindr (with_context ''parse duration'' (parse_uint 32 number)) (\<lambda>count. Inr (multiplier * count)))"

definition parse_duration_or :: "string option \<Rightarrow> duration \<Rightarrow> duration result" where
  "parse_duration_or v dflt = (case v of None \<Rightarrow> Inr dflt | Some s \<Rightarrow> parse_duration s)"

definition parse_duration_lenient :: "string option \<Rightarrow> duration" where
  "parse_duration_lenient v =
    (case v of
       None \<Rightarrow> from_millis 300
     | Some s \<Rightarrow> (case parse_duration s of Inr d \<Rightarrow> d | Inl _ \<Rightarrow> from_millis 300))"

definition socket :: "string \<Rightarrow> u16 \<Rightarrow> string" where
  "socket host port =
    (if contains host '':'' \<and> \<not> starts_with host ''['' then ''['' @ host @ '']:'' @ nat_to_string (unat port)
     else host @ '':'' @ nat_to_string (unat port))"

definition url_host :: "string \<Rightarrow> string" where
  "url_host host =
    (if contains host '':'' \<and> \<not> starts_with host ''['' then ''['' @ host @ '']'' else host)"

section \<open>Lemmas\<close>

lemma ends_with_iff: "ends_with s p \<longleftrightarrow> (\<exists>r. s = r @ p)"
  by (auto simp: ends_with_def) (metis append_take_drop_id)

lemma strip_suffix_Some: "strip_suffix s p = Some r \<longleftrightarrow> s = r @ p"
  by (auto simp: strip_suffix_def ends_with_iff)

lemma strip_suffix_None: "strip_suffix s p = None \<longleftrightarrow> (\<forall>r. s \<noteq> r @ p)"
  by (auto simp: strip_suffix_def ends_with_iff)

lemma parse_uint_snoc: "char_digit c = None \<Longrightarrow> parse_uint w (r @ [c]) = None"
proof -
  assume c: "char_digit c = None"
  have "parse_digits acc (xs @ [c]) = None" for acc xs
    by (induction xs arbitrary: acc) (auto simp: c split: option.split)
  then show ?thesis
    by (cases r) (auto simp: parse_uint_def c split: option.split)
qed

text \<open>The unit of a duration in nanoseconds.\<close>

definition duration_unit :: "string \<Rightarrow> duration option" where
  "duration_unit u =
    map_of [(''ms'', from_millis 1), (''s'', from_secs 1), (''m'', from_secs 60), (''h'', from_secs 3600)] u"

lemma duration_units:
  "duration_unit ''ms'' = Some (from_millis 1)"
  "duration_unit ''s'' = Some (from_secs 1)"
  "duration_unit ''m'' = Some (from_secs 60)"
  "duration_unit ''h'' = Some (from_secs 3600)"
  by (simp_all add: duration_unit_def)

lemma parse_duration_iff:
  "parse_duration v = Inr d \<longleftrightarrow>
    (\<exists>number u n f. v = number @ u \<and> duration_unit u = Some f \<and> parse_uint 32 number = Some n \<and> d = f * n)"
  (is "?L \<longleftrightarrow> ?R")
proof
  have R: ?R if "v = number @ u" "duration_unit u = Some f" "\<exists>n. parse_uint 32 number = Some n \<and> d = f * n"
    for number u f
    using that by blast
  assume ?L
  then consider number where "v = number @ ''ms''" "\<exists>n. parse_uint 32 number = Some n \<and> d = from_millis 1 * n"
    | number where "v = number @ ''s''" "\<exists>n. parse_uint 32 number = Some n \<and> d = from_secs 1 * n"
    | number where "v = number @ ''m''" "\<exists>n. parse_uint 32 number = Some n \<and> d = from_secs 60 * n"
    | number where "v = number @ ''h''" "\<exists>n. parse_uint 32 number = Some n \<and> d = from_secs 3600 * n"
    by (auto simp: parse_duration_def bindr_Inr_iff with_context_Inr_iff strip_suffix_Some split: option.splits)
  then show ?R
    by cases (erule R, rule duration_units, assumption)+
next
  assume ?R
  then obtain number u n f where v: "v = number @ u" and u: "duration_unit u = Some f"
    and n: "parse_uint 32 number = Some n" and d: "d = f * n" by blast
  have m: "parse_uint 32 (r @ ''m'') = None" for r
    by (rule parse_uint_snoc) code_simp
  consider "u = ''ms''" "f = from_millis 1" | "u = ''s''" "f = from_secs 1" | "u = ''m''" "f = from_secs 60"
    | "u = ''h''" "f = from_secs 3600"
    using u by (auto simp: duration_unit_def split: if_splits)
  then show ?L
  proof cases
    case 2
    have "strip_suffix v ''ms'' = None"
      unfolding strip_suffix_None
    proof (intro allI notI)
      fix r assume "v = r @ ''ms''"
      then have "number @ ''s'' = (r @ ''m'') @ ''s''" using v 2(1) by simp
      then have "number = r @ ''m''" by (simp only: append_same_eq)
      with n m show False by simp
    qed
    with 2 n d v show ?thesis
      by (simp add: parse_duration_def strip_suffix_Some [THEN iffD2])
  qed (use n d v in \<open>auto simp: parse_duration_def strip_suffix_def ends_with_def\<close>)
qed

end
