(* ===== verification/Dns_Records.thy ===== *)
theory Dns_Records
  imports Dns_Rules Ip_Text
begin

text \<open>
  The textual resource records of \<open>predefined\<close> DNS rules (\<open>parse_dns_record\<close> of
  \<^verbatim>\<open>src/src/dns/message.rs\<close>): a line is split into words, and the iterator over the words is the
  list of those not yet read.
\<close>

section \<open>Reading the words\<close>

definition next_token :: "string \<Rightarrow> string list \<Rightarrow> (string \<times> string list) result" where
  "next_token msg ts = (case ts of [] \<Rightarrow> Inl (Bail msg) | t # r \<Rightarrow> Inr (t, r))"

definition token_address :: "string \<Rightarrow> string list \<Rightarrow> ip_addr result" where
  "token_address kind ts =
    bindr (next_token (kind @ '' record is missing an address'') ts) (\<lambda>(t, _).
      with_context (''invalid '' @ kind @ '' record address'') (parse_ip t))"

text \<open>\<open>token_numbers w n\<close> reads \<open>n\<close> numbers of \<open>w\<close> bytes and appends their big-endian bytes.\<close>

fun token_numbers ::
  "string \<Rightarrow> string \<Rightarrow> nat \<Rightarrow> nat \<Rightarrow> string list \<Rightarrow> (bytes \<times> string list) result" where
  "token_numbers missing invalid w 0 ts = Inr ([], ts)"
| "token_numbers missing invalid w (Suc n) ts =
    bindr (next_token missing ts) (\<lambda>(t, r).
    bindr (with_context invalid (parse_uint (8 * w) t)) (\<lambda>v.
    bindr (token_numbers missing invalid w n r) (\<lambda>(rest, r'). Inr (be_bytes w v @ rest, r'))))"

fun txt_strings :: "string list \<Rightarrow> bytes result" where
  "txt_strings [] = Inr []"
| "txt_strings (t # ts) =
    (let s = trim_matches CHR ''\"'' t in
     if length s > 255 then Inl (Bail ''TXT record string exceeds 255 bytes'')
     else bindr (txt_strings ts) (\<lambda>rest. Inr (word_of_nat (length s) # as_bytes s @ rest)))"

definition token_name :: "string \<Rightarrow> string list \<Rightarrow> (bytes \<times> string list) result" where
  "token_name msg ts =
    bindr (next_token msg ts) (\<lambda>(t, r). bindr (encode_name t) (\<lambda>b. Inr (b, r)))"

section \<open>The record\<close>

definition record_data :: "string \<Rightarrow> string list \<Rightarrow> bytes result" where
  "record_data kind ts =
    (if kind = ''A'' then
       bindr (token_address ''A'' ts) (\<lambda>a.
         case a of V4 v \<Rightarrow> Inr (ipv4_octets v) | V6 _ \<Rightarrow> Inl (Bail ''A record requires an IPv4 address''))
     else if kind = ''AAAA'' then
       bindr (token_address ''AAAA'' ts) (\<lambda>a.
         case a of V6 v \<Rightarrow> Inr (ipv6_octets v) | V4 _ \<Rightarrow> Inl (Bail ''AAAA record requires an IPv6 address''))
     else if kind = ''CNAME'' \<or> kind = ''NS'' \<or> kind = ''PTR'' then
       bindr (token_name ''record is missing a name'' ts) (\<lambda>(name, _). Inr name)
     else if kind = ''TXT'' then
       bindr (txt_strings ts) (\<lambda>data.
         if data = [] then Inl (Bail ''TXT record requires at least one string'') else Inr data)
     else if kind = ''MX'' then
       bindr (token_numbers ''MX record is missing a preference'' ''invalid MX preference'' 2 1 ts) (\<lambda>(preference, r).
       bindr (token_name ''MX record is missing an exchange'' r) (\<lambda>(name, _). Inr (preference @ name)))
     else if kind = ''SOA'' then
       bindr (token_name ''SOA record is missing mname'' ts) (\<lambda>(mname, r).
       bindr (token_name ''SOA record is missing rname'' r) (\<lambda>(rname, r').
       bindr (token_numbers ''SOA record is missing a numeric field'' ''invalid SOA numeric field'' 4 5 r') (\<lambda>(numbers, _). Inr (mname @ rname @ numbers))))
     else if kind = ''SRV'' then
       bindr (token_numbers ''SRV record is missing a numeric field'' ''invalid SRV numeric field'' 2 3 ts) (\<lambda>(numbers, r).
       bindr (token_name ''SRV record is missing a target'' r) (\<lambda>(name, _). Inr (numbers @ name)))
     else if kind = ''CAA'' then
       bindr (token_numbers ''CAA record is missing flags'' ''invalid CAA flags'' 1 1 ts) (\<lambda>(flags, r).
       bindr (next_token ''CAA record is missing a tag'' r) (\<lambda>(tag, r').
       bindr (next_token ''CAA record is missing a value'' r') (\<lambda>(v, _).
         Inr (flags @ word_of_nat (length tag) # as_bytes tag @ as_bytes (trim_matches CHR ''\"'' v)))))
     else Inl (Bail ''unsupported DNS record type''))"

definition record_kind :: "string \<Rightarrow> u16 result" where
  "record_kind kind =
    (case map_of [(''A'', 1), (''NS'', 2), (''CNAME'', 5), (''SOA'', 6), (''PTR'', 12), (''MX'', 15),
        (''TXT'', 16), (''AAAA'', 28), (''SRV'', 33), (''CAA'', 257)] kind of
       Some k \<Rightarrow> Inr k
     | None \<Rightarrow> Inl Panic)"

definition record_ttl :: "string list \<Rightarrow> (u32 \<times> string list) result" where
  "record_ttl ts =
    bindr (next_token ''DNS record is missing fields'' ts) (\<lambda>(first, r).
      case parse_uint 32 first of
        Some ttl \<Rightarrow> Inr (word_of_nat ttl, r)
      | None \<Rightarrow>
         if first \<in> {''IN'', ''CH'', ''HS'', ''A'', ''AAAA'', ''CNAME'', ''NS'', ''PTR'', ''MX'', ''SOA'', ''TXT'',
                      ''SRV'', ''CAA''}
         then Inr (3600, first # r) else Inl (Bail ''invalid DNS record TTL''))"

definition parse_dns_record :: "string \<Rightarrow> predefined_record result" where
  "parse_dns_record line =
    bindr (next_token ''empty DNS record'' (split_whitespace line)) (\<lambda>(owner, r0).
    bindr (record_ttl r0) (\<lambda>(ttl, r1).
    bindr (next_token ''DNS record is missing a class'' r1) (\<lambda>(cls, r2).
      if cls \<noteq> ''IN'' then Inl (Bail ''unsupported DNS record class'')
      else bindr (next_token ''DNS record is missing a type'' r2) (\<lambda>(kind, r3).
        bindr (record_data kind r3) (\<lambda>rdata.
        bindr (record_kind kind) (\<lambda>k.
          Inr \<lparr>pr_owner = trim_end_matches CHR ''.'' owner, pr_ttl = ttl, pr_kind = k, pr_rdata = rdata\<rparr>))))))"

section \<open>Properties\<close>

lemma no_panic_case_prod [panic_free]:
  "(\<And>a b. x = (a, b) \<Longrightarrow> no_panic (f a b)) \<Longrightarrow> no_panic (case x of (a, b) \<Rightarrow> f a b)"
  by (cases x) auto

lemma no_panic_case_option [panic_free]:
  "(x = None \<Longrightarrow> no_panic n) \<Longrightarrow> (\<And>a. x = Some a \<Longrightarrow> no_panic (f a)) \<Longrightarrow>
   no_panic (case x of None \<Rightarrow> n | Some a \<Rightarrow> f a)"
  by (cases x) auto

lemma no_panic_tokens [panic_free]:
  "no_panic (next_token m ts)"
  "no_panic (token_address m ts)"
  "no_panic (token_numbers m m' w n ts)"
  "no_panic (txt_strings ts)"
proof -
  show *: "no_panic (next_token m ts)" for m ts by (cases ts) (auto simp: next_token_def)
  show "no_panic (token_address m ts)"
    unfolding token_address_def by (intro panic_free *)
  show "no_panic (token_numbers m m' w n ts)"
    by (induction n arbitrary: ts) (auto intro!: panic_free * split: prod.split)
  show "no_panic (txt_strings ts)"
    by (induction ts) (auto intro!: panic_free simp: Let_def)
qed

lemma no_panic_encode_labels [panic_free]: "no_panic (encode_labels m ls)"
  by (induction ls) (auto intro!: panic_free)

lemma no_panic_encode_name [panic_free]: "no_panic (encode_name s)"
  by (auto simp: encode_name_def Let_def intro!: panic_free)

lemma no_panic_token_name [panic_free]: "no_panic (token_name m ts)"
  by (auto simp: token_name_def split: prod.split intro!: panic_free)

lemma no_panic_record_data [panic_free]: "no_panic (record_data kind ts)"
  unfolding record_data_def by (intro panic_free) (auto split: ip_addr.split)

lemma record_data_kind: "record_data kind ts = Inr d \<Longrightarrow> \<exists>k. record_kind kind = Inr k"
  by (auto simp: record_data_def record_kind_def split: if_splits)

lemma record_data_address:
  assumes "record_data kind ts = Inr d"
  shows "record_kind kind = Inr 1 \<Longrightarrow> \<exists>a. d = ipv4_octets a"
    and "record_kind kind = Inr 28 \<Longrightarrow> \<exists>a. d = ipv6_octets a"
proof -
  assume "record_kind kind = Inr 1"
  then have "kind = ''A''" by (auto simp: record_kind_def split: if_splits)
  with assms obtain a where "(case a of V4 v \<Rightarrow> Inr (ipv4_octets v) | V6 _ \<Rightarrow> Inl (Bail ''A record requires an IPv4 address'')) = Inr d"
    by (auto simp: record_data_def bindr_Inr_iff)
  then show "\<exists>a. d = ipv4_octets a" by (cases a) auto
next
  assume "record_kind kind = Inr 28"
  then have "kind = ''AAAA''" by (auto simp: record_kind_def split: if_splits)
  with assms obtain a where "(case a of V6 v \<Rightarrow> Inr (ipv6_octets v) | V4 _ \<Rightarrow> Inl (Bail ''AAAA record requires an IPv6 address'')) = Inr d"
    by (auto simp: record_data_def bindr_Inr_iff)
  then show "\<exists>a. d = ipv6_octets a" by (cases a) auto
qed

text \<open>
  C27. Records are well typed: \<open>parse_dns_record\<close> never panics (in particular the type it decodes
  always has a number), an A record carries the four octets of an address and an AAAA record
  sixteen, and the owner has no trailing dot. A lookup can therefore read the addresses of
  predefined records without failing.
\<close>

theorem parse_dns_record_typed:
  "no_panic (parse_dns_record line) \<and>
   (\<forall>r. parse_dns_record line = Inr r \<longrightarrow>
      (pr_kind r = 1 \<longrightarrow> (\<exists>a. pr_rdata r = ipv4_octets a)) \<and>
      (pr_kind r = 28 \<longrightarrow> (\<exists>a. pr_rdata r = ipv6_octets a)) \<and>
      (pr_owner r = [] \<or> last (pr_owner r) \<noteq> CHR ''.''))"
proof (intro conjI allI impI)
  have ttl: "no_panic (record_ttl ts)" for ts
    unfolding record_ttl_def by (intro panic_free) simp_all
  have kind: "no_panic (record_kind k)" if "record_data k ts = Inr d" for k ts d
    using record_data_kind [OF that] by auto
  show "no_panic (parse_dns_record line)"
    unfolding parse_dns_record_def by (intro panic_free ttl) (simp_all add: kind)
next
  fix r assume r: "parse_dns_record line = Inr r"
  then obtain kind ts word where data: "record_data kind ts = Inr (pr_rdata r)" "record_kind kind = Inr (pr_kind r)"
    and owner: "pr_owner r = trim_end_matches CHR ''.'' word"
    by (auto simp: parse_dns_record_def bindr_Inr_iff split: if_splits)
  show "\<exists>a. pr_rdata r = ipv4_octets a" if "pr_kind r = 1"
    using record_data_address(1) [OF data(1)] data(2) that by simp
  show "\<exists>a. pr_rdata r = ipv6_octets a" if "pr_kind r = 28"
    using record_data_address(2) [OF data(1)] data(2) that by simp
  show "pr_owner r = [] \<or> last (pr_owner r) \<noteq> CHR ''.''"
    unfolding owner by (rule trim_end_matches_last)
qed

theorem parse_dns_record_typed_witness:
  "\<exists>r. parse_dns_record ''a. IN A 0.0.0.4'' = Inr r \<and> (\<exists>a. pr_rdata r = ipv4_octets a)"
proof -
  have "parse_dns_record ''a. IN A 0.0.0.4'' =
      Inr \<lparr>pr_owner = ''a'', pr_ttl = 3600, pr_kind = 1, pr_rdata = [0, 0, 0, 4]\<rparr>"
    by code_simp
  then show ?thesis
    using parse_dns_record_typed [of "''a. IN A 0.0.0.4''"] by auto
qed

end
