(* ===== verification/Dns_Transport.thy ===== *)
theory Dns_Transport
  imports Dns_Wire
begin

unbundle bit_operations_syntax

text \<open>
  The DNS transports of \<^verbatim>\<open>src/src/dns/transport.rs\<close>: the choice of the transport, the UDP
  multiplexer that shares one socket between concurrent queries by giving each its own
  transaction identifier, and the pool of idle stream connections. Sockets are the environment:
  the datagrams that arrive, the errors of the socket and the answers of a stream are arguments.
\<close>

section \<open>The UDP multiplexer\<close>

text \<open>
  A pending query is known by the index of its caller, which stands for the sending half of its
  channel. \<open>mx_buffer\<close> is the receive buffer of the reader task, \<open>mx_alive\<close> says whether this
  task still runs.
\<close>

record multiplexer =
  mx_pending :: "(u16, nat) hashmap"
  mx_next :: u32
  mx_buffer :: bytes
  mx_alive :: bool

definition max_dns_message :: nat where
  "max_dns_message = 65535"

definition mux_connect :: "u32 \<Rightarrow> multiplexer" where
  "mux_connect start = \<lparr>mx_pending = [], mx_next = start, mx_buffer = replicate max_dns_message 0, mx_alive = True\<rparr>"

text \<open>The search for a free identifier: \<open>fetch_add\<close> wraps, the candidate is its low half.\<close>

fun mux_select :: "nat \<Rightarrow> u32 \<Rightarrow> (u16, nat) hashmap \<Rightarrow> u16 option \<times> u32" where
  "mux_select 0 nxt pending = (None, nxt)"
| "mux_select (Suc n) nxt pending =
    (let candidate = ucast nxt in
     if hm_get pending candidate = None then (Some candidate, nxt + 1)
     else mux_select n (nxt + 1) pending)"

text \<open>\<open>query\<close> up to the sending of the request: the identifier, registered for \<open>token\<close>, and the wire form.\<close>

definition mux_begin :: "bytes \<Rightarrow> nat \<Rightarrow> multiplexer \<Rightarrow> (u16 \<times> bytes) result \<times> multiplexer" where
  "mux_begin request token m =
    (case dns_id request of
       Inl e \<Rightarrow> (Inl e, m)
     | Inr _ \<Rightarrow>
        (case mux_select 65536 (mx_next m) (mx_pending m) of
           (None, nxt) \<Rightarrow> (Inl (Bail ''DNS UDP transaction ID space exhausted''), m\<lparr>mx_next := nxt\<rparr>)
         | (Some i, nxt) \<Rightarrow>
            (bindr (copy_at request 0 (to_be_bytes i)) (\<lambda>wire. Inr (i, wire)),
             m\<lparr>mx_next := nxt, mx_pending := hm_insert i token (mx_pending m)\<rparr>)))"

text \<open>The reader task on one datagram: what it sends, and to whom.\<close>

definition mux_receive :: "bytes \<Rightarrow> multiplexer \<Rightarrow> (nat \<times> bytes) option \<times> multiplexer" where
  "mux_receive datagram m =
    (let len = min (length datagram) max_dns_message;
         buffer = take len datagram @ drop len (mx_buffer m) in
     case get_range buffer 0 2 of
       None \<Rightarrow> (None, m\<lparr>mx_buffer := buffer\<rparr>)
     | Some id_bytes \<Rightarrow>
        (let i = from_be_bytes id_bytes in
         (case hm_get (mx_pending m) i of
            None \<Rightarrow> None
          | Some token \<Rightarrow> Some (token, take len buffer),
          m\<lparr>mx_buffer := buffer, mx_pending := hm_remove i (mx_pending m)\<rparr>)))"

definition mux_receive_error :: "multiplexer \<Rightarrow> nat list \<times> multiplexer" where
  "mux_receive_error m = (map snd (mx_pending m), m\<lparr>mx_pending := [], mx_alive := False\<rparr>)"

definition mux_forget :: "u16 \<Rightarrow> multiplexer \<Rightarrow> multiplexer" where
  "mux_forget i m = m\<lparr>mx_pending := hm_remove i (mx_pending m)\<rparr>"

definition mux_finish :: "bytes \<Rightarrow> bytes \<Rightarrow> bytes result" where
  "mux_finish request received =
    bindr (dns_id request) (\<lambda>original_id.
    bindr (with_context ''truncated DNS UDP response'' (get_range received 0 2)) (\<lambda>_.
      copy_at received 0 (to_be_bytes original_id)))"

section \<open>Concurrent queries\<close>

datatype mux_query =
  QNew bytes
| QSent bytes u16
| QReceived bytes u16 bytes
| QDone bytes u16 "bytes result"
| QFailed bytes error
| QDropped

record mux_system =
  ms_mux :: multiplexer
  ms_queries :: "mux_query list"

definition asks :: "mux_system \<Rightarrow> nat \<Rightarrow> mux_query \<Rightarrow> bool" where
  "asks y i q \<longleftrightarrow> i < length (ms_queries y) \<and> ms_queries y ! i = q"

definition ms_set :: "nat \<Rightarrow> mux_query \<Rightarrow> multiplexer \<Rightarrow> mux_system \<Rightarrow> mux_system" where
  "ms_set i q m y = y\<lparr>ms_mux := m, ms_queries := (ms_queries y)[i := q]\<rparr>"

text \<open>A message on the channel of a query: only a query that still waits takes it.\<close>

fun deliver :: "bytes \<Rightarrow> mux_query \<Rightarrow> mux_query" where
  "deliver response (QSent request i) = QReceived request i response"
| "deliver response q = q"

fun deliver_error :: "mux_query \<Rightarrow> mux_query" where
  "deliver_error (QSent request i) = QFailed request (Bail ''DNS UDP receive failed'')"
| "deliver_error q = q"

inductive mux_step :: "mux_system \<Rightarrow> mux_system \<Rightarrow> bool" where
  begin_sent: "asks y i (QNew request) \<Longrightarrow> mux_begin request i (ms_mux y) = (Inr (n, wire), m) \<Longrightarrow>
    mux_step y (ms_set i (QSent request n) m y)"
| begin_failed: "asks y i (QNew request) \<Longrightarrow> mux_begin request i (ms_mux y) = (Inl e, m) \<Longrightarrow>
    mux_step y (ms_set i (QFailed request e) m y)"
| send_error: "asks y i (QSent request n) \<Longrightarrow>
    mux_step y (ms_set i (QFailed request (Bail e)) (mux_forget n (ms_mux y)) y)"
| timeout: "asks y i (QSent request n) \<Longrightarrow>
    mux_step y (ms_set i (QFailed request (Bail ''DNS timeout'')) (mux_forget n (ms_mux y)) y)"
| datagram: "mx_alive (ms_mux y) \<Longrightarrow> mux_receive d (ms_mux y) = (Some (i, response), m) \<Longrightarrow>
    mux_step y (ms_set i (deliver response (ms_queries y ! i)) m y)"
| stray: "mx_alive (ms_mux y) \<Longrightarrow> mux_receive d (ms_mux y) = (None, m) \<Longrightarrow>
    mux_step y (y\<lparr>ms_mux := m\<rparr>)"
| receive_error: "mx_alive (ms_mux y) \<Longrightarrow> mux_receive_error (ms_mux y) = (tokens, m) \<Longrightarrow>
    mux_step y (y\<lparr>ms_mux := m, ms_queries :=
      map (\<lambda>(i, q). if i \<in> set tokens then deliver_error q else q) (enumerate 0 (ms_queries y))\<rparr>)"
| finish: "asks y i (QReceived request n received) \<Longrightarrow>
    mux_step y (ms_set i (QDone request n (mux_finish request received)) (ms_mux y) y)"
| dropped: "asks y i (QSent request n) \<Longrightarrow> mux_step y (ms_set i QDropped (ms_mux y) y)"

definition mux_start :: "u32 \<Rightarrow> bytes list \<Rightarrow> mux_system" where
  "mux_start first requests = \<lparr>ms_mux = mux_connect first, ms_queries = map QNew requests\<rparr>"

section \<open>The choice of an identifier\<close>

lemma mux_select_Some:
  "mux_select n nxt pending = (Some i, nxt') \<Longrightarrow> hm_get pending i = None"
  by (induction n nxt pending rule: mux_select.induct) (auto simp: Let_def split: if_splits)

lemma mux_select_None:
  "fst (mux_select n nxt pending) = None \<longleftrightarrow> (\<forall>k < n. hm_get pending (ucast (nxt + of_nat k)) \<noteq> None)"
proof (induction n nxt pending rule: mux_select.induct)
  case (2 n nxt pending)
  have "(\<forall>k < Suc n. P k) \<longleftrightarrow> P 0 \<and> (\<forall>k < n. P (Suc k))" for P :: "nat \<Rightarrow> bool"
    by (metis less_Suc_eq_0_disj)
  with 2 show ?case by (auto simp: Let_def add.assoc)
qed simp

lemma ucast_add_u16: "ucast (a + b :: u32) = (ucast a + ucast b :: u16)"
proof transfer
  fix a b :: int
  have "take_bit 16 (take_bit 32 a + take_bit 32 b) =
      take_bit 16 (take_bit 16 (take_bit 32 a) + take_bit 16 (take_bit 32 b))"
    by (simp only: take_bit_add)
  also have "\<dots> = take_bit 16 (a + b)"
    by (simp add: take_bit_take_bit take_bit_add)
  finally show "take_bit LENGTH(16) (take_bit LENGTH(32) (a + b)) =
      take_bit LENGTH(16) (take_bit LENGTH(32) a + take_bit LENGTH(32) b)"
    by (simp add: take_bit_take_bit)
qed

lemma ucast_back_u16: "ucast (ucast (x :: u16) :: u32) = x"
  by transfer (simp add: take_bit_take_bit)

lemma ucast_covers: "\<exists>k < 65536. ucast (nxt + of_nat k :: u32) = (i :: u16)"
proof (intro exI conjI)
  let ?k = "unat (i - ucast nxt)"
  show "?k < 65536" using unsigned_less [of "i - ucast nxt"] by simp
  show "ucast (nxt + of_nat ?k :: u32) = i" by (simp add: ucast_add_u16 ucast_back_u16)
qed

text \<open>
  The identifier search is exact: the 65536 candidates it tries, counted by a wrapping 32-bit
  counter, are all identifiers, so a query gets a free identifier whenever one exists and is
  refused only when every identifier is in use.
\<close>

theorem mux_select_exact:
  assumes "mux_select 65536 nxt pending = (r, nxt')"
  shows "(r = None \<longleftrightarrow> (\<forall>i. hm_get pending i \<noteq> None)) \<and> (\<forall>i. r = Some i \<longrightarrow> hm_get pending i = None)"
proof -
  have "r = None \<longleftrightarrow> (\<forall>k < 65536. hm_get pending (ucast (nxt + of_nat k)) \<noteq> None)"
    using mux_select_None [of 65536 nxt pending] assms by simp
  also have "\<dots> \<longleftrightarrow> (\<forall>i. hm_get pending i \<noteq> None)"
    using ucast_covers [of nxt] by metis
  finally show ?thesis using mux_select_Some [of 65536 nxt pending] assms by auto
qed

theorem mux_select_exact_witness:
  "\<exists>i nxt'. mux_select 65536 65536 [(0, 7)] = (Some i, nxt') \<and> hm_get [(0, 7 :: nat)] i = None"
proof -
  obtain r nxt' where sel: "mux_select 65536 65536 [(0, 7)] = (r, nxt')" by force
  have "hm_get [(0 :: u16, 7 :: nat)] 1 = None" by simp
  with mux_select_exact [OF sel] have "r \<noteq> None" by metis
  with mux_select_exact [OF sel] sel show ?thesis by auto
qed

section \<open>Answers reach their query\<close>

fun query_ok :: "(u16, nat) hashmap \<Rightarrow> nat \<Rightarrow> mux_query \<Rightarrow> bool" where
  "query_ok pending i (QSent request n) \<longleftrightarrow> hm_get pending n = Some i"
| "query_ok pending i (QReceived request n d) \<longleftrightarrow> (2 \<le> length d \<longrightarrow> take 2 d = to_be_bytes n)"
| "query_ok pending i (QDone request n r) \<longleftrightarrow>
    (\<forall>response. r = Inr response \<longrightarrow>
      (\<exists>d. 2 \<le> length d \<and> take 2 d = to_be_bytes n \<and> response = take 2 request @ drop 2 d))"
| "query_ok pending i q \<longleftrightarrow> True"

definition owner_ok :: "mux_query \<Rightarrow> u16 \<Rightarrow> bool" where
  "owner_ok q n \<longleftrightarrow> (\<exists>request. q = QSent request n) \<or> q = QDropped"

definition mux_inv :: "mux_system \<Rightarrow> bool" where
  "mux_inv y \<longleftrightarrow>
    (\<forall>i < length (ms_queries y). query_ok (mx_pending (ms_mux y)) i (ms_queries y ! i)) \<and>
    (\<forall>n i. hm_get (mx_pending (ms_mux y)) n = Some i \<longrightarrow>
       i < length (ms_queries y) \<and> owner_ok (ms_queries y ! i) n)"

lemma mux_inv_asks: "mux_inv y \<Longrightarrow> asks y i q \<Longrightarrow> query_ok (mx_pending (ms_mux y)) i q"
  by (auto simp: mux_inv_def asks_def)

lemma mux_inv_owner:
  "mux_inv y \<Longrightarrow> hm_get (mx_pending (ms_mux y)) n = Some i \<Longrightarrow> i < length (ms_queries y) \<and> owner_ok (ms_queries y ! i) n"
  by (simp add: mux_inv_def)

lemma ms_set_simps [simp]:
  "ms_mux (ms_set i q m y) = m"
  "ms_queries (ms_set i q m y) = (ms_queries y)[i := q]"
  by (simp_all add: ms_set_def)

text \<open>A step of query \<open>i\<close> that changes the pending table at one identifier only.\<close>

lemma mux_inv_set:
  assumes inv: "mux_inv y" and i: "i < length (ms_queries y)" and new: "query_ok (mx_pending m) i q"
    and other: "\<And>j n. j \<noteq> i \<Longrightarrow> hm_get (mx_pending m) n = Some j \<longleftrightarrow> hm_get (mx_pending (ms_mux y)) n = Some j"
    and own: "\<And>n. hm_get (mx_pending m) n = Some i \<Longrightarrow> owner_ok q n"
  shows "mux_inv (ms_set i q m y)"
proof -
  have keep: "query_ok (mx_pending m) j c" if "query_ok (mx_pending (ms_mux y)) j c" "j \<noteq> i" for j c
    using that other by (cases c) auto
  show ?thesis
    unfolding mux_inv_def
  proof (intro conjI allI impI)
    fix j assume "j < length (ms_queries (ms_set i q m y))"
    then show "query_ok (mx_pending (ms_mux (ms_set i q m y))) j (ms_queries (ms_set i q m y) ! j)"
      using inv new keep by (cases "j = i") (auto simp: mux_inv_def)
  next
    fix n j assume n: "hm_get (mx_pending (ms_mux (ms_set i q m y))) n = Some j"
    show "j < length (ms_queries (ms_set i q m y))"
      using n other [of j n] inv i by (cases "j = i") (auto simp: mux_inv_def)
    show "owner_ok (ms_queries (ms_set i q m y) ! j) n"
      using n other [of j n] own [of n] inv i by (cases "j = i") (auto simp: mux_inv_def)
  qed
qed

lemma mux_inv_sent:
  assumes inv: "mux_inv y" and i: "asks y i (QSent request n)" and new: "query_ok [] i q"
    and m: "mx_pending m = mx_pending (mux_forget n (ms_mux y))"
  shows "mux_inv (ms_set i q m y)"
proof (rule mux_inv_set [OF inv])
  from i show "i < length (ms_queries y)" by (simp add: asks_def)
  show "query_ok (mx_pending m) i q" using new by (cases q) auto
  have n: "hm_get (mx_pending (ms_mux y)) n = Some i" using mux_inv_asks [OF inv i] by simp
  then show "j \<noteq> i \<Longrightarrow> hm_get (mx_pending m) k = Some j \<longleftrightarrow> hm_get (mx_pending (ms_mux y)) k = Some j" for j k
    by (auto simp: m mux_forget_def hm_get_remove)
  show "owner_ok q k" if "hm_get (mx_pending m) k = Some i" for k
  proof -
    from that have "k \<noteq> n" "hm_get (mx_pending (ms_mux y)) k = Some i"
      by (auto simp: m mux_forget_def hm_get_remove split: if_splits)
    with mux_inv_owner [OF inv this(2)] i have False by (auto simp: asks_def owner_ok_def)
    then show ?thesis ..
  qed
qed

lemma mux_begin_pending:
  assumes "mux_begin request i m = (r, m')"
  shows "(\<exists>e. r = Inl e \<and> mx_pending m' = mx_pending m) \<or>
    (\<exists>n. hm_get (mx_pending m) n = None \<and> mx_pending m' = hm_insert n i (mx_pending m) \<and> (\<exists>wire. r = Inr (n, wire)))"
proof (cases "dns_id request")
  case (Inr original)
  then have "2 \<le> length request" by (auto simp: dns_id_def bindr_Inr_iff with_context_Inr_iff get_range_def split: if_splits)
  then show ?thesis
    using assms Inr
    by (auto simp: mux_begin_def split: prod.splits option.splits dest: mux_select_Some)
qed (use assms in \<open>auto simp: mux_begin_def\<close>)

lemma mux_receive_Some:
  assumes "mux_receive d m = (Some (i, response), m')"
  shows "\<exists>n. hm_get (mx_pending m) n = Some i \<and> mx_pending m' = hm_remove n (mx_pending m) \<and>
    (2 \<le> length response \<longrightarrow> take 2 response = to_be_bytes n)"
proof -
  let ?len = "min (length d) max_dns_message"
  let ?buffer = "take ?len d @ drop ?len (mx_buffer m)"
  let ?n = "from_be_bytes (take 2 ?buffer) :: u16"
  from assms have two: "2 \<le> length ?buffer" and n: "hm_get (mx_pending m) ?n = Some i"
    and m': "mx_pending m' = hm_remove ?n (mx_pending m)" and response: "response = take ?len ?buffer"
    by (auto simp: mux_receive_def Let_def get_range_def split: option.splits if_splits)
  have "take 2 response = to_be_bytes ?n" if "2 \<le> length response"
  proof -
    have "take 2 response = take 2 ?buffer" using that by (simp add: response min_def)
    then show ?thesis using two by (simp only:) (rule to_from_be_bytes [symmetric], simp)
  qed
  with n m' show ?thesis by blast
qed

lemma mux_finish_Inr:
  assumes "mux_finish request d = Inr response"
  shows "2 \<le> length d" and "response = take 2 request @ drop 2 d"
proof -
  from assms obtain i where i: "dns_id request = Inr i" and d: "2 \<le> length d"
    and r: "response = overwrite d 0 (to_be_bytes i)"
    by (auto simp: mux_finish_def bindr_Inr_iff with_context_Inr_iff get_range_Some_iff copy_at_def split: if_splits)
  show "2 \<le> length d" by (rule d)
  from i have "2 \<le> length request" "to_be_bytes i = take 2 request"
    by (auto simp: dns_id_def bindr_Inr_iff with_context_Inr_iff get_range_Some_iff to_from_be_bytes)
  with r d show "response = take 2 request @ drop 2 d" by (simp add: overwrite_def numeral_2_eq_2)
qed

lemma mux_step_inv:
  assumes "mux_step y y'" and inv: "mux_inv y"
  shows "mux_inv y'"
  using assms(1)
proof cases
  case (begin_sent i request n wire m)
  from mux_begin_pending [OF begin_sent(3)] have n: "hm_get (mx_pending (ms_mux y)) n = None"
    and m: "mx_pending m = hm_insert n i (mx_pending (ms_mux y))" by auto
  have old: "hm_get (mx_pending (ms_mux y)) k \<noteq> Some i" for k
    using mux_inv_owner [OF inv, of k i] begin_sent(2) by (auto simp: asks_def owner_ok_def)
  show ?thesis
    unfolding begin_sent(1)
    by (rule mux_inv_set [OF inv])
       (use begin_sent(2) n old in \<open>auto simp: asks_def m hm_get_insert owner_ok_def split: if_splits\<close>)
next
  case (begin_failed i request e m)
  from mux_begin_pending [OF begin_failed(3)] have m: "mx_pending m = mx_pending (ms_mux y)" by auto
  have old: "hm_get (mx_pending (ms_mux y)) k \<noteq> Some i" for k
    using mux_inv_owner [OF inv, of k i] begin_failed(2) by (auto simp: asks_def owner_ok_def)
  show ?thesis
    unfolding begin_failed(1)
    by (rule mux_inv_set [OF inv]) (use begin_failed(2) old in \<open>auto simp: asks_def m\<close>)
next
  case (send_error i request n e)
  show ?thesis
    unfolding send_error(1) by (rule mux_inv_sent [OF inv send_error(2)]) simp_all
next
  case (timeout i request n)
  show ?thesis
    unfolding timeout(1) by (rule mux_inv_sent [OF inv timeout(2)]) simp_all
next
  case (datagram d i response m)
  from mux_receive_Some [OF datagram(3)] obtain n where n: "hm_get (mx_pending (ms_mux y)) n = Some i"
    and m: "mx_pending m = hm_remove n (mx_pending (ms_mux y))"
    and d: "2 \<le> length response \<longrightarrow> take 2 response = to_be_bytes n" by blast
  from inv n have i: "i < length (ms_queries y)" and own: "owner_ok (ms_queries y ! i) n"
    by (auto simp: mux_inv_def)
  have "mux_inv (ms_set i (deliver response (ms_queries y ! i)) m y)"
  proof (cases "ms_queries y ! i")
    case (QSent request k)
    with own have k: "k = n" by (simp add: owner_ok_def)
    have "asks y i (QSent request n)" using i QSent k by (simp add: asks_def)
    from mux_inv_sent [OF inv this, of "QReceived request n response" m] show ?thesis
      using QSent k d m by (simp add: mux_forget_def)
  next
    case QDropped
    then show ?thesis
      using n m by (intro mux_inv_set [OF inv i]) (auto simp: hm_get_remove owner_ok_def split: if_splits)
  qed (use own in \<open>auto simp: owner_ok_def\<close>)
  then show ?thesis using datagram(1) by simp
next
  case (stray d m)
  have m: "hm_get (mx_pending m) = hm_get (mx_pending (ms_mux y))"
    using stray(3) by (auto simp: mux_receive_def Let_def delete_conv fun_upd_idem split: option.splits)
  have "query_ok (mx_pending m) j c = query_ok (mx_pending (ms_mux y)) j c" for j c
    by (cases c) (simp_all add: m)
  with inv show ?thesis unfolding stray(1) by (simp add: mux_inv_def m)
next
  case (receive_error tokens m)
  have none: "mx_pending m = []" and tokens: "tokens = map snd (mx_pending (ms_mux y))"
    using receive_error(3) by (auto simp: mux_receive_error_def)
  have "query_ok [] j (if j \<in> set tokens then deliver_error (ms_queries y ! j) else ms_queries y ! j)"
    if "j < length (ms_queries y)" for j
  proof -
    have "query_ok (mx_pending (ms_mux y)) j (ms_queries y ! j)" using inv that by (simp add: mux_inv_def)
    moreover have "j \<in> set tokens" if "hm_get (mx_pending (ms_mux y)) n = Some j" for n
      using map_of_SomeD [OF that] by (force simp: tokens)
    ultimately show ?thesis by (cases "ms_queries y ! j") auto
  qed
  then show ?thesis
    unfolding receive_error(1) by (simp add: mux_inv_def none nth_enumerate_eq split: prod.splits)
next
  case (finish i request n received)
  have "hm_get (mx_pending (ms_mux y)) k \<noteq> Some i" for k
    using mux_inv_owner [OF inv, of k i] finish(2) by (auto simp: asks_def owner_ok_def)
  moreover have "query_ok p i (QDone request n (mux_finish request received))" for p
    using mux_inv_asks [OF inv finish(2)] mux_finish_Inr [of request received] by auto
  ultimately show ?thesis
    unfolding finish(1) by (intro mux_inv_set [OF inv]) (use finish(2) in \<open>auto simp: asks_def\<close>)
next
  case (dropped i request n)
  show ?thesis
    unfolding dropped(1)
    by (rule mux_inv_set [OF inv]) (use dropped(2) in \<open>auto simp: asks_def owner_ok_def\<close>)
qed


text \<open>One query over a fresh multiplexer, answered by the datagram \<open>[0, 5]\<close>.\<close>

lemma example_mux_run:
  "\<exists>y. mux_step\<^sup>*\<^sup>* (mux_start 5 [[0, 9]]) y \<and> asks y 0 (QDone [0, 9] 5 (Inr [0, 9]))"
proof -
  let ?m = "\<lparr>mx_pending = [(5 :: u16, 0 :: nat)], mx_next = 6 :: u32, mx_buffer = replicate max_dns_message 0, mx_alive = True\<rparr>"
  let ?m' = "\<lparr>mx_pending = [], mx_next = 6 :: u32, mx_buffer = [0, 5] @ drop 2 (replicate max_dns_message 0), mx_alive = True\<rparr>"
  let ?y1 = "\<lparr>ms_mux = ?m, ms_queries = [QSent [0, 9] 5]\<rparr>"
  let ?y2 = "\<lparr>ms_mux = ?m', ms_queries = [QReceived [0, 9] 5 [0, 5]]\<rparr>"
  let ?y3 = "\<lparr>ms_mux = ?m', ms_queries = [QDone [0, 9] 5 (Inr [0, 9])]\<rparr>"
  have two: "from_be_bytes [0, b] = (ucast (b :: u8) :: u16)" for b
    by (simp add: from_be_bytes_def be_val_two)
  have five: "to_be_bytes (5 :: u16) = [0, 5]" and nine: "to_be_bytes (9 :: u16) = [0, 9]" by code_simp+
  have "mux_select 65536 5 [] = (Some 5, 6)"
    using mux_select.simps(2) [of 65535 5 "[] :: (u16, nat) hashmap"] by simp
  moreover have "dns_id [0, 9] = Inr 9" by (simp add: dns_id_def get_range_def two)
  ultimately have b: "mux_begin [0, 9] 0 (mux_connect 5) = (Inr (5, [0, 5]), ?m)"
    by (simp add: mux_begin_def mux_connect_def copy_at_def overwrite_def five)
  have "mux_step (mux_start 5 [[0, 9]]) ?y1"
    using mux_step.begin_sent [of "mux_start 5 [[0, 9]]" 0 "[0, 9]" 5 "[0, 5]" ?m] b
    by (simp add: asks_def mux_start_def ms_set_def)
  moreover have "mux_receive [0, 5] ?m = (Some (0, [0, 5]), ?m')"
    by (simp add: mux_receive_def Let_def get_range_def max_dns_message_def two)
  then have "mux_step ?y1 ?y2"
    using mux_step.datagram [of ?y1 "[0, 5]" 0 "[0, 5]" ?m'] by (simp add: ms_set_def)
  moreover have "mux_finish [0, 9] [0, 5] = Inr [0, 9]"
    by (simp add: mux_finish_def dns_id_def get_range_def two copy_at_def overwrite_def nine)
  then have "mux_step ?y2 ?y3"
    using mux_step.finish [of ?y2 0 "[0, 9]" 5 "[0, 5]"] by (simp add: asks_def ms_set_def)
  ultimately have "mux_step\<^sup>*\<^sup>* (mux_start 5 [[0, 9]]) ?y3" 
    by (rule converse_rtranclp_into_rtranclp [OF _ converse_rtranclp_into_rtranclp [OF _ r_into_rtranclp]])
  then show ?thesis by (intro exI [of _ ?y3]) (simp add: asks_def)
qed


section \<open>A receive error\<close>

fun unanswered :: "mux_query \<Rightarrow> bool" where
  "unanswered (QReceived _ _ _) = False"
| "unanswered (QDone _ _ _) = False"
| "unanswered _ = True"

lemma unanswered_set:
  "unanswered (qs ! i) \<Longrightarrow> i < length qs \<Longrightarrow> (i = j \<Longrightarrow> unanswered q) \<Longrightarrow> unanswered (qs[j := q] ! i)"
  by (cases "i = j") auto

lemma stopped_step:
  assumes "mux_step y y'" and "\<not> mx_alive (ms_mux y)"
    and "i < length (ms_queries y)" and "unanswered (ms_queries y ! i)"
  shows "\<not> mx_alive (ms_mux y') \<and> i < length (ms_queries y') \<and> unanswered (ms_queries y' ! i)"
  using assms
proof cases
  case (begin_sent j request n wire m)
  then have "mx_alive m = mx_alive (ms_mux y)"
    by (auto simp: mux_begin_def split: sum.splits prod.splits option.splits)
  with begin_sent assms show ?thesis by (simp add: unanswered_set)
next
  case (begin_failed j request e m)
  then have "mx_alive m = mx_alive (ms_mux y)"
    by (auto simp: mux_begin_def split: sum.splits prod.splits option.splits)
  with begin_failed assms show ?thesis by (simp add: unanswered_set)
next
  case (finish j request n received)
  with assms show ?thesis by (auto simp: asks_def intro: unanswered_set)
qed (simp_all add: unanswered_set mux_forget_def)

text \<open>
  The reader task ends at the first error of the socket and is never started again: from then
  on no query that begins later, or was still unanswered, ever returns an answer.
\<close>

theorem stopped_reader_never_answers:
  assumes "ms_mux y = snd (mux_receive_error m)" and "asks y i (QNew request)" and "mux_step\<^sup>*\<^sup>* y y'"
  shows "\<not> asks y' i (QDone request' n r)"
proof -
  have "\<not> mx_alive (ms_mux y) \<and> i < length (ms_queries y) \<and> unanswered (ms_queries y ! i)"
    using assms(1,2) by (auto simp: mux_receive_error_def asks_def)
  with assms(3) have "\<not> mx_alive (ms_mux y') \<and> i < length (ms_queries y') \<and> unanswered (ms_queries y' ! i)"
    by (induction rule: rtranclp_induct) (auto dest: stopped_step)
  then show ?thesis by (auto simp: asks_def)
qed

theorem stopped_reader_never_answers_witness:
  "\<not> asks \<lparr>ms_mux = snd (mux_receive_error (mux_connect 5)), ms_queries = [QNew [0, 9]]\<rparr> 0 (QDone [0, 9] 5 (Inr [0, 9]))"

using stopped_reader_never_answers
    [of "\<lparr>ms_mux = snd (mux_receive_error (mux_connect 5)), ms_queries = [QNew [0, 9]]\<rparr>" "mux_connect 5" 0 "[0, 9]"]
  by (simp add: asks_def)

section \<open>Streams\<close>

definition stream_request :: "bytes \<Rightarrow> bytes result" where
  "stream_request q =
    (if length q > 65535 then Inl (Bail ''DNS query too large'')
     else Inr (to_be_bytes (word_of_nat (length q) :: u16) @ q))"

definition stream_response :: "bytes reader" where
  "stream_response = rbind read_be (\<lambda>n :: u16. read_exact (unat n))"

text \<open>\<open>exchange_stream\<close>: the peer is a function from what was written to what it sends.\<close>

definition exchange_stream :: "(bytes \<Rightarrow> bytes) \<Rightarrow> bytes \<Rightarrow> bytes result" where
  "exchange_stream peer q =
    bindr (stream_request q) (\<lambda>wire. bindr (stream_response (peer wire)) (\<lambda>(response, _). Inr response))"

definition dns_frame :: "bytes \<Rightarrow> bytes" where
  "dns_frame q = to_be_bytes (word_of_nat (length q) :: u16) @ q"

interpretation dns_stream: codec dns_frame stream_response "\<lambda>q. length q \<le> 65535"
  by unfold_locales (simp add: dns_frame_def stream_response_def reader_simps unat_of_nat)

lemma exchange_stream_frame:
  "length q \<le> 65535 \<Longrightarrow> length r \<le> 65535 \<Longrightarrow> peer (dns_frame q) = dns_frame r @ rest \<Longrightarrow>
   exchange_stream peer q = Inr r"
  by (simp add: exchange_stream_def stream_request_def flip: dns_frame_def)
     (simp add: dns_stream.dec_enc)

record 's idle_connection =
  ic_stream :: 's
  ic_last_used :: instant

definition stream_idle_timeout :: duration where
  "stream_idle_timeout = from_secs 60"

definition stream_pool_size :: nat where
  "stream_pool_size = 32"

text \<open>\<open>Vec::push\<close> and \<open>Vec::pop\<close> work on the head of the list.\<close>

fun take_idle :: "instant \<Rightarrow> 's idle_connection list \<Rightarrow> 's option \<times> 's idle_connection list" where
  "take_idle now [] = (None, [])"
| "take_idle now (c # idle) =
    (if now - ic_last_used c < stream_idle_timeout then (Some (ic_stream c), idle) else take_idle now idle)"

text \<open>
  One attempt of \<open>query\<close>, then two of them. \<open>connect k\<close> and \<open>exchange k\<close> are the outcomes of the
  network at attempt \<open>k\<close>; \<open>now k\<close> is the clock.
\<close>

definition pool_put :: "instant \<Rightarrow> 's \<Rightarrow> 's idle_connection list \<Rightarrow> 's idle_connection list" where
  "pool_put now stream idle =
    (if length idle < stream_pool_size then \<lparr>ic_stream = stream, ic_last_used = now\<rparr> # idle else idle)"

fun pool_attempts ::
  "nat \<Rightarrow> (nat \<Rightarrow> instant) \<Rightarrow> (nat \<Rightarrow> 's result) \<Rightarrow> (nat \<Rightarrow> 's \<Rightarrow> bytes result) \<Rightarrow> error \<Rightarrow>
   's idle_connection list \<Rightarrow> bytes result \<times> 's idle_connection list" where
  "pool_attempts 0 now connect exchange last_error idle = (Inl last_error, idle)"
| "pool_attempts (Suc k) now connect exchange last_error idle =
    (case take_idle (now k) idle of
       (taken, idle') \<Rightarrow>
         (case (case taken of Some stream \<Rightarrow> Inr stream | None \<Rightarrow> connect k) of
            Inl e \<Rightarrow> (Inl e, idle')
          | Inr stream \<Rightarrow>
             (case exchange k stream of
                Inr response \<Rightarrow> (Inr response, pool_put (now k) stream idle')
              | Inl e \<Rightarrow> pool_attempts k now connect exchange e idle')))"

definition pool_query ::
  "(nat \<Rightarrow> instant) \<Rightarrow> (nat \<Rightarrow> 's result) \<Rightarrow> (nat \<Rightarrow> 's \<Rightarrow> bytes result) \<Rightarrow>
   's idle_connection list \<Rightarrow> bytes result \<times> 's idle_connection list" where
  "pool_query now connect exchange = pool_attempts 2 now connect exchange (Bail ''DNS stream query failed'')"

lemma take_idle_length: "length (snd (take_idle now idle)) \<le> length idle"
  by (induction idle) auto

lemma pool_attempts_bound:
  "length idle \<le> stream_pool_size \<Longrightarrow>
   length (snd (pool_attempts k now connect exchange e idle)) \<le> stream_pool_size"
proof (induction k arbitrary: e idle)
  case (Suc k)
  obtain taken idle' where t: "take_idle (now k) idle = (taken, idle')" by force
  with take_idle_length [of "now k" idle] Suc.prems have "length idle' \<le> stream_pool_size" by simp
  with Suc.IH t show ?case
    by (auto simp: pool_put_def split: option.split sum.split)
qed simp

lemma pool_query_bound:
  "length idle \<le> stream_pool_size \<Longrightarrow> length (snd (pool_query now connect exchange idle)) \<le> stream_pool_size"
  by (simp add: pool_query_def pool_attempts_bound)

section \<open>Servers\<close>

record dns_server =
  sv_type :: string
  sv_tag :: string
  sv_server :: "string option"
  sv_server_port :: "u16 option"
  sv_path :: "string option"
  sv_detour :: "string option"

record upstream =
  up_config :: dns_server
  up_endpoint :: "(string \<times> u16) option"
  up_stream :: bool

definition upstream_new :: "dns_server \<Rightarrow> upstream result" where
  "upstream_new cfg =
    (let kind = sv_type cfg in
     if kind \<notin> {'''', ''udp'', ''tcp'', ''tls'', ''https'', ''local''} then Inl (Bail ''unsupported DNS server type'')
     else bindr (if kind \<in> {'''', ''udp'', ''tcp'', ''tls''} then
                   bindr (with_context ''DNS server missing address'' (sv_server cfg)) (\<lambda>host.
                     Inr (Some (host, case sv_server_port cfg of
                                        Some port \<Rightarrow> port | None \<Rightarrow> if kind = ''tls'' then 853 else 53)))
                 else Inr None) (\<lambda>endpoint.
       Inr \<lparr>up_config = cfg, up_endpoint = endpoint, up_stream = (kind \<in> {'''', ''udp'', ''tcp'', ''tls''})\<rparr>))"

text \<open>What a detour outbound provides, and the direct transports.\<close>

record detour_io =
  dt_udp :: "string \<Rightarrow> string \<times> u16 \<Rightarrow> bytes \<Rightarrow> bytes result"
  dt_stream :: "string \<Rightarrow> bool \<Rightarrow> string \<times> u16 \<Rightarrow> bytes \<Rightarrow> bytes result"

record transport_io =
  io_udp :: "string \<times> u16 \<Rightarrow> bytes \<Rightarrow> bytes result"
  io_stream :: "string \<times> u16 \<Rightarrow> bytes \<Rightarrow> bytes result"
  io_https :: "string \<Rightarrow> bytes \<Rightarrow> bytes result"
  io_detour :: "detour_io option"

definition truncated :: "bytes \<Rightarrow> bool" where
  "truncated response = (case get response 2 of Some flags \<Rightarrow> flags AND 2 \<noteq> 0 | None \<Rightarrow> False)"

definition query_via_detour :: "detour_io \<Rightarrow> dns_server \<Rightarrow> string \<times> u16 \<Rightarrow> bytes \<Rightarrow> bytes result" where
  "query_via_detour detour cfg endpoint request =
    bindr (with_context ''DNS detour tag missing'' (sv_detour cfg)) (\<lambda>tag.
      if sv_type cfg = '''' \<or> sv_type cfg = ''udp'' then
        bindr (dt_udp detour tag endpoint request) (\<lambda>response.
          if truncated response then dt_stream detour tag False endpoint request else Inr response)
      else if sv_type cfg = ''tcp'' then dt_stream detour tag False endpoint request
      else if sv_type cfg = ''tls'' then dt_stream detour tag True endpoint request
      else if sv_type cfg = ''https'' then Inl (Bail ''HTTPS DNS over a detour outbound is not supported'')
      else if sv_type cfg = ''local'' then Inl (Bail ''local DNS server cannot use a detour'')
      else Inl (Bail ''unsupported DNS server type for detour''))"

definition https_url :: "dns_server \<Rightarrow> string \<Rightarrow> string" where
  "https_url cfg host =
    (let path = (case sv_path cfg of Some p \<Rightarrow> p | None \<Rightarrow> ''/dns-query'') in
     if starts_with host ''http://'' \<or> starts_with host ''https://'' then trim_end_matches CHR ''/'' host @ path
     else ''https://'' @ host @ '':'' @
       nat_to_string (unat (case sv_server_port cfg of Some p \<Rightarrow> p | None \<Rightarrow> 443)) @ path)"

definition query_https :: "transport_io \<Rightarrow> dns_server \<Rightarrow> bytes \<Rightarrow> bytes result" where
  "query_https io cfg q =
    bindr (with_context ''HTTPS DNS server missing address'' (sv_server cfg)) (\<lambda>host.
      io_https io (https_url cfg host) q)"

definition expect :: "'a option \<Rightarrow> 'a result" where
  "expect v = (case v of Some x \<Rightarrow> Inr x | None \<Rightarrow> Inl Panic)"

definition upstream_query :: "transport_io \<Rightarrow> upstream \<Rightarrow> bytes \<Rightarrow> bytes result" where
  "upstream_query io up request =
    (let cfg = up_config up;
         has_detour = (case sv_detour cfg of Some tag \<Rightarrow> tag \<noteq> [] | None \<Rightarrow> False) in
     case (if has_detour then io_detour io else None) of
       Some detour \<Rightarrow>
         bindr (with_context ''detour DNS server missing address'' (up_endpoint up)) (\<lambda>endpoint.
           query_via_detour detour cfg endpoint request)
     | None \<Rightarrow>
         if sv_type cfg = '''' \<or> sv_type cfg = ''udp'' then
           bindr (expect (up_endpoint up)) (\<lambda>endpoint.
           bindr (io_udp io endpoint request) (\<lambda>response.
             if truncated response then if up_stream up then io_stream io endpoint request else Inl Panic
             else Inr response))
         else if sv_type cfg = ''tcp'' \<or> sv_type cfg = ''tls'' then
           if up_stream up then bindr (expect (up_endpoint up)) (\<lambda>endpoint. io_stream io endpoint request)
           else Inl Panic
         else if sv_type cfg = ''https'' then query_https io cfg request
         else if sv_type cfg = ''local'' then Inl (Bail ''local DNS query requires parsed question'')
         else Inl (Bail ''unsupported DNS server type''))"

text \<open>The transports report their failures as errors.\<close>

definition io_safe :: "transport_io \<Rightarrow> bool" where
  "io_safe io \<longleftrightarrow>
    (\<forall>e q. no_panic (io_udp io e q) \<and> no_panic (io_stream io e q)) \<and> (\<forall>u q. no_panic (io_https io u q)) \<and>
    (\<forall>d t b e q. io_detour io = Some d \<longrightarrow> no_panic (dt_udp d t e q) \<and> no_panic (dt_stream d t b e q))"

text \<open>
  A server that was built can be queried: on every upstream that \<open>Upstream::new\<close> accepts, the
  endpoint and the stream pool that \<open>query\<close> expects for the type of the server are there, so that
  none of its \<open>expect\<close> calls panics, with or without a detour.
\<close>

theorem upstream_query_never_panics:
  assumes "upstream_new cfg = Inr up" and "io_safe io"
  shows "no_panic (upstream_query io up request)"
proof -
  have up: "up_config up = cfg" "up_stream up \<longleftrightarrow> sv_type cfg \<in> {'''', ''udp'', ''tcp'', ''tls''}"
      "sv_type cfg \<in> {'''', ''udp'', ''tcp'', ''tls''} \<Longrightarrow> \<exists>e. up_endpoint up = Some e"
    using assms(1) by (auto simp: upstream_new_def Let_def bindr_Inr_iff split: if_splits)
  have io: "no_panic (io_udp io e q)" "no_panic (io_stream io e q)" "no_panic (io_https io u q)" for e q u
    using assms(2) by (cases e; simp add: io_safe_def)+
  have dt: "no_panic (query_via_detour d cfg e q)" if "io_detour io = Some d" for d e q
    unfolding query_via_detour_def using assms(2) that
    by (cases e; intro panic_free) (simp_all add: io_safe_def)
  have https: "no_panic (query_https io cfg q)" for q
    unfolding query_https_def by (intro panic_free io)
  show ?thesis
  proof (cases "if (case sv_detour cfg of Some tag \<Rightarrow> tag \<noteq> [] | None \<Rightarrow> False) then io_detour io else None")
    case (Some d)
    then have "io_detour io = Some d" by (auto split: if_splits)
    with Some dt show ?thesis
      by (simp add: upstream_query_def up(1) no_panic_bindr no_panic_with_context)
  next
    case None
    then show ?thesis
      using up(2,3) io https
      by (cases "sv_type cfg \<in> {'''', ''udp'', ''tcp'', ''tls''}")
         (auto simp: upstream_query_def up(1) expect_def intro!: no_panic_bindr)
  qed
qed

theorem upstream_query_never_panics_witness:
  "\<exists>up. upstream_new \<lparr>sv_type = ''udp'', sv_tag = ''d'', sv_server = Some ''h'', sv_server_port = None, sv_path = None,
      sv_detour = None\<rparr> = Inr up \<and>
    no_panic (upstream_query \<lparr>io_udp = \<lambda>_ q. Inr q, io_stream = \<lambda>_ q. Inr q, io_https = \<lambda>_ q. Inr q, io_detour = None\<rparr>
      up [0, 1, 2])"
  (is "\<exists>up. upstream_new ?cfg = Inr up \<and> no_panic (upstream_query ?io up _)")
proof -
  obtain up where up: "upstream_new ?cfg = Inr up" by (simp add: upstream_new_def)
  have "io_safe ?io" by (simp add: io_safe_def)
  from upstream_query_never_panics [OF up this] up show ?thesis by blast
qed

end
