(* ===== verification/Dns_Resolver.thy ===== *)
theory Dns_Resolver
  imports Dns_Flight Dns_Records Dns_Transport
begin

unbundle bit_operations_syntax

text \<open>
  The resolver of \<^verbatim>\<open>src/src/dns/mod.rs\<close>: its construction from the configuration, the exchange of
  wire messages with rules, cache and identifiers, address lookups and the ECH configurations.
  Upstream servers are queried through \<open>upstream_query\<close> with the network as an argument; a call
  runs alone here, the interleaving of callers is the subject of theory \<open>Dns_Flight\<close>.
\<close>

section \<open>Construction\<close>

text \<open>\<open>optimistic_enabled\<close> on a JSON value; of an object only its boolean \<open>enabled\<close> is read.\<close>

datatype json_switch = SBool bool | SObject "bool option" | SNull | SOther

fun optimistic_enabled :: "json_switch \<Rightarrow> bool" where
  "optimistic_enabled (SBool enabled) = enabled"
| "optimistic_enabled (SObject enabled) = (case enabled of Some b \<Rightarrow> b | None \<Rightarrow> True)"
| "optimistic_enabled SNull = False"
| "optimistic_enabled SOther = True"

definition parse_client_subnet :: "(string \<Rightarrow> ipnet option) \<Rightarrow> string \<Rightarrow> ipnet result" where
  "parse_client_subnet net_from_str v =
    with_context ''invalid DNS client_subnet''
      (case net_from_str v of
         Some net \<Rightarrow> Some net
       | None \<Rightarrow>
          (case parse_ip v of
             Some (V4 a) \<Rightarrow> Some (V4 a, 32)
           | Some (V6 a) \<Rightarrow> Some (V6 a, 128)
           | None \<Rightarrow> None))"

record dns_config =
  dg_servers :: "dns_server list"
  dg_rules :: "dns_rule list"
  dg_final_server :: "string option"
  dg_strategy :: "string option"
  dg_disable_cache :: "bool option"
  dg_disable_expire :: "bool option"
  dg_cache_capacity :: "nat option"
  dg_optimistic :: "json_switch option"
  dg_timeout :: "string option"
  dg_reverse_mapping :: bool
  dg_client_subnet :: "string option"

record resolver =
  rs_servers :: "(string, upstream) hashmap"
  rs_rules :: "compiled_dns_rule list"
  rs_final_tag :: string
  rs_cache_enabled :: bool
  rs_strategy :: "string option"
  rs_timeout :: duration
  rs_client_subnet :: "string option"
  rs_rule_sets :: "rule_set_map option"

definition dns_timeout :: duration where
  "dns_timeout = from_secs 5"

definition discard :: "'a result \<Rightarrow> unit result" where
  "discard r = bindr r (\<lambda>_. Inr ())"

fun build_servers :: "dns_server list \<Rightarrow> (string, upstream) hashmap \<Rightarrow> (string, upstream) hashmap result" where
  "build_servers [] servers = Inr servers"
| "build_servers (server # rest) servers =
    bindr (upstream_new server) (\<lambda>up. build_servers rest (hm_insert (sv_tag server) up servers))"

text \<open>
  \<open>with_rule_sets\<close>; \<open>tls_roots\<close> is the loading of the native certificates and \<open>http_client\<close> the
  construction of the HTTP client.
\<close>

definition with_rule_sets ::
  "(string \<Rightarrow> regex option) \<Rightarrow> (string \<Rightarrow> ipnet option) \<Rightarrow> unit result \<Rightarrow> unit result \<Rightarrow> dns_config \<Rightarrow>
   rule_set_map option \<Rightarrow> (resolver \<times> flight_state) result" where
  "with_rule_sets regex_new net_from_str tls_roots http_client cfg rsets =
    bindr (validate_strategy (dg_strategy cfg)) (\<lambda>_.
    bindr (case dg_client_subnet cfg of
             None \<Rightarrow> Inr () | Some subnet \<Rightarrow> discard (parse_client_subnet net_from_str subnet)) (\<lambda>_.
    bindr (ensure (\<not> dg_reverse_mapping cfg)
             ''DNS reverse_mapping requires a TUN-style inbound and is not supported'') (\<lambda>_.
    bindr (ensure (\<not> is_some_and (dg_optimistic cfg) optimistic_enabled)
             ''optimistic DNS cache is not supported'') (\<lambda>_.
    bindr (map_result (validate_dns_rule regex_new (\<lambda>r. discard (parse_dns_record r))
             (\<lambda>s. discard (parse_client_subnet net_from_str s)) True) (dg_rules cfg)) (\<lambda>_.
    bindr (parse_duration_or (dg_timeout cfg) dns_timeout) (\<lambda>timeout.
    bindr (if list_ex (\<lambda>server. sv_type server = ''tls'') (dg_servers cfg) then tls_roots else Inr ()) (\<lambda>_.
    bindr (build_servers (dg_servers cfg) []) (\<lambda>servers.
    bindr (with_context ''DNS requires a server''
             (case dg_final_server cfg of
                Some tag \<Rightarrow> Some tag
              | None \<Rightarrow> (case dg_servers cfg of [] \<Rightarrow> None | server # _ \<Rightarrow> Some (sv_tag server)))) (\<lambda>final_tag.
    bindr (ensure (hm_contains servers final_tag) ''unknown final DNS server'') (\<lambda>_.
    bindr (map_result (compile_dns_rule regex_new) (dg_rules cfg)) (\<lambda>rules.
    bindr http_client (\<lambda>_.
      Inr (\<lparr>rs_servers = servers, rs_rules = rules, rs_final_tag = final_tag,
            rs_cache_enabled = (dg_disable_cache cfg \<noteq> Some True), rs_strategy = dg_strategy cfg,
            rs_timeout = timeout, rs_client_subnet = dg_client_subnet cfg, rs_rule_sets = rsets\<rparr>,
           new_flights (new_cache (max (case dg_cache_capacity cfg of Some n \<Rightarrow> n | None \<Rightarrow> 4096) 1)
             (dg_disable_expire cfg = Some True)))))))))))))))"

section \<open>Rules and servers\<close>

definition select_rule :: "resolver \<Rightarrow> string \<Rightarrow> u16 \<Rightarrow> compiled_dns_rule option" where
  "select_rule r name qtype =
    find (\<lambda>rule. dns_rule_matches rule name qtype (rs_rule_sets r)) (rs_rules r)"

definition rule_field :: "(dns_rule_fields \<Rightarrow> 'a option) \<Rightarrow> compiled_dns_rule option \<Rightarrow> 'a option" where
  "rule_field f rule = (case rule of None \<Rightarrow> None | Some c \<Rightarrow> f (cd_raw c))"

definition or_else :: "'a option \<Rightarrow> 'a option \<Rightarrow> 'a option" where
  "or_else a b = (case a of Some x \<Rightarrow> Some x | None \<Rightarrow> b)"

definition unwrap_or :: "'a option \<Rightarrow> 'a \<Rightarrow> 'a" where
  "unwrap_or a d = (case a of Some x \<Rightarrow> x | None \<Rightarrow> d)"

definition get_server :: "resolver \<Rightarrow> string \<Rightarrow> upstream result" where
  "get_server r tag = with_context ''unknown DNS server'' (hm_get (rs_servers r) tag)"

definition select_server :: "resolver \<Rightarrow> string \<Rightarrow> u16 \<Rightarrow> upstream result" where
  "select_server r name qtype =
    get_server r (unwrap_or (rule_field dr_server (select_rule r name qtype)) (rs_final_tag r))"

section \<open>Exchanging messages\<close>

text \<open>
  The environment of a call: the network below \<open>upstream_query\<close> with a time limit, the system's
  own name resolution, the random identifier and the clock at the lookup and at the insertion.
\<close>

record resolver_env =
  ev_query :: "duration \<Rightarrow> upstream \<Rightarrow> bytes \<Rightarrow> bytes result"
  ev_hosts :: "string \<Rightarrow> ip_addr list result"
  ev_net :: "string \<Rightarrow> ipnet option"
  ev_id :: u16
  ev_now :: instant
  ev_later :: instant

definition rule_timeout :: "resolver \<Rightarrow> compiled_dns_rule option \<Rightarrow> duration result" where
  "rule_timeout r rule = parse_duration_or (rule_field dr_timeout rule) (rs_timeout r)"

definition clamp_ttl :: "u32 \<Rightarrow> duration" where
  "clamp_ttl ttl = from_secs (max 1 (min (unat ttl) 86400))"

definition response_lifetime :: "bytes \<Rightarrow> duration result" where
  "response_lifetime response =
    bindr (index response 3) (\<lambda>flags.
      Inr (if flags AND 0x0F = 0 \<or> flags AND 0x0F = 3 then clamp_ttl (response_ttl response) else 0))"

text \<open>The closure \<open>load\<close> of \<open>exchange\<close>.\<close>

definition exchange_load ::
  "resolver \<Rightarrow> resolver_env \<Rightarrow> compiled_dns_rule option \<Rightarrow> upstream \<Rightarrow> u16 \<Rightarrow> bytes \<Rightarrow> string \<Rightarrow> u16 \<Rightarrow> nat \<Rightarrow>
   (cache_value \<times> duration) result" where
  "exchange_load r env rule server request_id wire name qtype question_end =
    bindr (if sv_type (up_config server) = ''local''
           then local_response (ev_hosts env name) wire qtype question_end
           else bindr (rule_timeout r rule) (\<lambda>limit. ev_query env limit server wire)) (\<lambda>response.
    bindr (validate_response request_id response) (\<lambda>_.
    bindr (case rule_field dr_rewrite_ttl rule of
             None \<Rightarrow> Inr response | Some ttl \<Rightarrow> rewrite_response_ttls response ttl) (\<lambda>response.
    bindr (response_lifetime response) (\<lambda>ttl.
    bindr (copy_at response 0 [0, 0]) (\<lambda>canonical. Inr (Wire canonical, ttl))))))"

text \<open>The last part of \<open>exchange\<close>: the identifier of the request is put back.\<close>

definition exchange_finish :: "u16 \<Rightarrow> cache_value \<Rightarrow> bytes result" where
  "exchange_finish request_id v =
    (case v of
       Wire response \<Rightarrow> copy_at response 0 (to_be_bytes request_id)
     | Addresses _ \<Rightarrow> Inl (Bail ''invalid DNS wire cache entry''))"

definition predefined_records :: "compiled_dns_rule \<Rightarrow> predefined_record list result" where
  "predefined_records rule =
    map_result parse_dns_record (dr_answer (cd_raw rule) @ dr_ns (cd_raw rule) @ dr_extra (cd_raw rule))"

definition run_load ::
  "(cache_value \<times> duration) result \<Rightarrow> flight_state \<Rightarrow> ((cache_value \<times> duration) result \<times> flight_state) option" where
  "run_load loaded s = Some (loaded, s)"

definition dns_rule_action :: "compiled_dns_rule option \<Rightarrow> string option" where
  "dns_rule_action rule = rule_field dr_action rule"

text \<open>\<open>exchange\<close> once the rule has neither rejected nor answered the request.\<close>

definition exchange_forward ::
  "resolver \<Rightarrow> resolver_env \<Rightarrow> compiled_dns_rule option \<Rightarrow> u16 \<Rightarrow> bytes \<Rightarrow> string \<Rightarrow> u16 \<Rightarrow> nat \<Rightarrow>
   flight_state \<Rightarrow> (bytes result \<times> flight_state) option" where
  "exchange_forward r env rule request_id request name qtype question_end s =
    (let server_tag = unwrap_or (rule_field dr_server rule) (rs_final_tag r) in
     case get_server r server_tag of
       Inl e \<Rightarrow> Some (Inl e, s)
     | Inr server \<Rightarrow>
        (case (case or_else (rule_field dr_client_subnet rule) (rs_client_subnet r) of
                 None \<Rightarrow> Inr request
               | Some subnet \<Rightarrow> add_client_subnet (parse_client_subnet (ev_net env)) request subnet) of
           Inl e \<Rightarrow> Some (Inl e, s)
         | Inr wire \<Rightarrow>
            (let loaded = exchange_load r env rule server request_id wire name qtype question_end in
             case (if is_some_and rule (\<lambda>c. dr_disable_cache (cd_raw c))
                   then Some (bindr loaded (\<lambda>(v, _). Inr v), s)
                   else cached (rs_cache_enabled r) (ev_now env) (ev_later env)
                          (KWire (canonical_query wire) server_tag) (run_load loaded) s) of
               None \<Rightarrow> None
             | Some (outcome, s') \<Rightarrow> Some (bindr outcome (exchange_finish request_id), s'))))"

definition exchange ::
  "resolver \<Rightarrow> resolver_env \<Rightarrow> bytes \<Rightarrow> flight_state \<Rightarrow> (bytes result \<times> flight_state) option" where
  "exchange r env request s =
    (case bindr (parse_question request) (\<lambda>q. bindr (dns_id request) (\<lambda>i. Inr (q, i))) of
       Inl e \<Rightarrow> Some (Inl e, s)
     | Inr ((name, qtype, question_end), request_id) \<Rightarrow>
        (let rule = select_rule r name qtype in
         if dns_rule_action rule = Some ''reject'' then
           if rule_field dr_method rule = Some ''drop'' then Some (Inl (Bail ''DNS query dropped by rule''), s)
           else Some (refused_response request question_end, s)
         else if dns_rule_action rule = Some ''predefined'' then
           Some (bindr (parse_rcode (rule_field dr_rcode rule)) (\<lambda>rcode.
                 bindr (case rule of None \<Rightarrow> Inr [] | Some c \<Rightarrow> predefined_records c) (\<lambda>records.
                   predefined_response request question_end rcode records)), s)
         else exchange_forward r env rule request_id request name qtype question_end s))"

section \<open>Address lookups\<close>

record lookup_options =
  lo_server :: "string option"
  lo_disable_cache :: bool
  lo_rewrite_ttl :: "u32 option"
  lo_timeout :: "duration option"
  lo_strategy :: "string option"
  lo_client_subnet :: "string option"

text \<open>The addresses of the records of a \<open>predefined\<close> rule.\<close>

definition record_addresses :: "u16 \<Rightarrow> predefined_record \<Rightarrow> ip_addr list result" where
  "record_addresses qtype rec =
    (if qtype = 1 \<and> pr_kind rec = 1 then
       Inr (if length (pr_rdata rec) = 4 then [V4 (ipv4_from (pr_rdata rec))] else [])
     else if qtype = 28 \<and> pr_kind rec = 28 then
       if length (pr_rdata rec) = 16 then Inr [V6 (ipv6_from (pr_rdata rec))]
       else Inl (Bail ''invalid AAAA record'')
     else Inr [])"

fun predefined_addresses :: "u16 \<Rightarrow> string list \<Rightarrow> ip_addr list result" where
  "predefined_addresses qtype [] = Inr []"
| "predefined_addresses qtype (line # lines) =
    bindr (parse_dns_record line) (\<lambda>rec.
    bindr (record_addresses qtype rec) (\<lambda>found.
    bindr (predefined_addresses qtype lines) (\<lambda>rest. Inr (found @ rest))))"

definition sort_dedup :: "ip_addr list \<Rightarrow> ip_addr list" where
  "sort_dedup addresses = remdups_adj (sort addresses)"

definition lookup_load ::
  "resolver \<Rightarrow> resolver_env \<Rightarrow> string option \<Rightarrow> string option \<Rightarrow> duration \<Rightarrow> u32 option \<Rightarrow> string \<Rightarrow> u16 \<Rightarrow>
   (cache_value \<times> duration) result" where
  "lookup_load r env server_tag client_subnet query_timeout rewrite_ttl name qtype =
    bindr (case server_tag of Some tag \<Rightarrow> get_server r tag | None \<Rightarrow> select_server r name qtype) (\<lambda>server.
      if sv_type (up_config server) = ''local'' then
        bindr (ev_hosts env name) (\<lambda>found.
          Inr (Addresses (filter (address_matches qtype) found), clamp_ttl (unwrap_or rewrite_ttl 30)))
      else
        bindr (build_query_with_subnet (parse_client_subnet (ev_net env)) (ev_id env) name qtype client_subnet) (\<lambda>request.
        bindr (ev_query env query_timeout server request) (\<lambda>response.
        bindr (parse_response (ev_id env) qtype response) (\<lambda>(addresses, ttl).
          Inr (Addresses addresses, clamp_ttl (unwrap_or rewrite_ttl ttl))))))"

text \<open>The check of the addresses of a cached or fresh answer against the address limits of the rule.\<close>

definition lookup_finish ::
  "resolver \<Rightarrow> compiled_dns_rule option \<Rightarrow> string \<Rightarrow> cache_value \<Rightarrow> ip_addr list result" where
  "lookup_finish r rule name v =
    (case v of
       Wire _ \<Rightarrow> Inl (Bail ''invalid DNS address cache entry'')
     | Addresses addresses \<Rightarrow>
        (case rule of
           None \<Rightarrow> Inr addresses
         | Some c \<Rightarrow>
            if dns_rule_has_address_limit c (rs_rule_sets r) \<and>
               \<not> dns_rule_address_limit_matches c name addresses (rs_rule_sets r)
            then Inl (Bail ''DNS response rejected by rule-set address limit'')
            else Inr addresses))"

definition lookup_type ::
  "resolver \<Rightarrow> resolver_env \<Rightarrow> string \<Rightarrow> u16 \<Rightarrow> lookup_options \<Rightarrow> flight_state \<Rightarrow>
   (ip_addr list result \<times> flight_state) option" where
  "lookup_type r env name qtype opts s =
    (let rule = (if lo_server opts = None then select_rule r name qtype else None) in
     if dns_rule_action rule = Some ''reject'' then Some (Inl (Bail ''DNS lookup rejected by rule''), s)
     else if dns_rule_action rule = Some ''predefined'' then
       Some (bindr (parse_rcode (rule_field dr_rcode rule)) (\<lambda>rcode.
             if rcode \<noteq> 0 then Inl (Bail ''DNS lookup rejected by rule with rcode'')
             else bindr (case rule of
                           None \<Rightarrow> Inr []
                         | Some c \<Rightarrow> predefined_addresses qtype
                             (dr_answer (cd_raw c) @ dr_ns (cd_raw c) @ dr_extra (cd_raw c))) (\<lambda>addresses.
               Inr (sort_dedup addresses))), s)
     else
       let server_tag = or_else (lo_server opts) (rule_field dr_server rule);
           client_subnet = or_else (or_else (lo_client_subnet opts) (rule_field dr_client_subnet rule)) (rs_client_subnet r);
           prepared =
             bindr (case client_subnet of
                      None \<Rightarrow> Inr () | Some subnet \<Rightarrow> discard (parse_client_subnet (ev_net env) subnet)) (\<lambda>_.
             bindr (case rule_field dr_timeout rule of
                      None \<Rightarrow> Inr None | Some t \<Rightarrow> bindr (parse_duration t) (\<lambda>d. Inr (Some d))) (\<lambda>rule_limit.
               Inr (unwrap_or (or_else (lo_timeout opts) rule_limit) (rs_timeout r))));
           rewrite_ttl = or_else (lo_rewrite_ttl opts) (rule_field dr_rewrite_ttl rule);
           disable_cache = (lo_disable_cache opts \<or> is_some_and rule (\<lambda>c. dr_disable_cache (cd_raw c))) in
       case prepared of
         Inl e \<Rightarrow> Some (Inl e, s)
       | Inr query_timeout \<Rightarrow>
          (let loaded = lookup_load r env server_tag client_subnet query_timeout rewrite_ttl name qtype in
           case (if disable_cache then Some (bindr loaded (\<lambda>(v, _). Inr v), s)
                 else cached (rs_cache_enabled r) (ev_now env) (ev_later env)
                        (KLookup name qtype server_tag client_subnet) (run_load loaded) s) of
             None \<Rightarrow> None
           | Some (outcome, s') \<Rightarrow> Some (bindr outcome (lookup_finish r rule name), s')))"

definition lookup_strategy :: "resolver \<Rightarrow> string \<Rightarrow> lookup_options \<Rightarrow> string option" where
  "lookup_strategy r name opts =
    or_else (or_else (lo_strategy opts)
      (rule_field dr_strategy (or_else (select_rule r name 1) (select_rule r name 28)))) (rs_strategy r)"

text \<open>The results of the two queries joined, sorted and ordered by the strategy.\<close>

definition merge_lookups :: "string option \<Rightarrow> ip_addr list result \<Rightarrow> ip_addr list result \<Rightarrow> ip_addr list" where
  "merge_lookups strategy a aaaa =
    (let all = sort_dedup ((case a of Inr x \<Rightarrow> x | Inl _ \<Rightarrow> []) @ (case aaaa of Inr x \<Rightarrow> x | Inl _ \<Rightarrow> [])) in
     if strategy = Some ''prefer_ipv4'' then sort_key (\<lambda>address. \<not> is_ipv4 address) all
     else if strategy = Some ''prefer_ipv6'' then sort_key is_ipv4 all
     else all)"

text \<open>\<open>tokio::join!\<close> is run one query after the other.\<close>

definition lookup_with_options ::
  "resolver \<Rightarrow> resolver_env \<Rightarrow> resolver_env \<Rightarrow> string \<Rightarrow> lookup_options \<Rightarrow> flight_state \<Rightarrow>
   (ip_addr list result \<times> flight_state) option" where
  "lookup_with_options r env4 env6 domain opts s =
    (let name = normalize domain; strategy = lookup_strategy r name opts in
     case validate_strategy strategy of
       Inl e \<Rightarrow> Some (Inl e, s)
     | Inr _ \<Rightarrow>
        (case (if strategy = Some ''ipv6_only'' then Some (Inr [], s) else lookup_type r env4 name 1 opts s) of
           None \<Rightarrow> None
         | Some (a, s1) \<Rightarrow>
            (case (if strategy = Some ''ipv4_only'' then Some (Inr [], s1) else lookup_type r env6 name 28 opts s1) of
               None \<Rightarrow> None
             | Some (aaaa, s2) \<Rightarrow>
                (let found = merge_lookups strategy a aaaa in
                 Some (if found = [] then Inl (Bail ''DNS returned no addresses'') else Inr found, s2)))))"

section \<open>ECH configurations\<close>

definition ech_config ::
  "resolver \<Rightarrow> resolver_env \<Rightarrow> string \<Rightarrow> flight_state \<Rightarrow> ((bytes \<times> duration) result \<times> flight_state) option" where
  "ech_config r env domain s =
    (case build_query (ev_id env) (normalize domain) 65 of
       Inl e \<Rightarrow> Some (Inl e, s)
     | Inr query \<Rightarrow>
        (case exchange r env query s of
           None \<Rightarrow> None
         | Some (outcome, s') \<Rightarrow>
            Some (bindr outcome (\<lambda>response. bindr (parse_https_ech (ev_id env) response) (\<lambda>(config, ttl).
              Inr (config, clamp_ttl ttl))), s')))"

definition cached_ech_config ::
  "resolver \<Rightarrow> resolver_env \<Rightarrow> string \<Rightarrow> flight_state \<Rightarrow> (bytes result \<times> flight_state) option" where
  "cached_ech_config r env domain s =
    (let load = (\<lambda>s. case ech_config r env domain s of
                   None \<Rightarrow> None
                 | Some (outcome, s') \<Rightarrow> Some (bindr outcome (\<lambda>(config, ttl). Inr (Wire config, ttl)), s')) in
     case cached (rs_cache_enabled r) (ev_now env) (ev_later env) (KEch (normalize domain)) load s of
       None \<Rightarrow> None
     | Some (outcome, s') \<Rightarrow>
        Some (bindr outcome (\<lambda>v. case v of
                 Wire config \<Rightarrow> Inr config
               | Addresses _ \<Rightarrow> Inl (Bail ''invalid DNS ECH cache entry'')), s'))"

text \<open>
  \<open>EchCache\<close>: the configuration last fetched and its expiry. The second look under the flight
  lock sees what another caller has stored meanwhile, here nothing.
\<close>

type_synonym ech_state = "(bytes \<times> instant) option"

definition ech_fresh :: "instant \<Rightarrow> ech_state \<Rightarrow> bytes option" where
  "ech_fresh now st = (case st of Some (config, expires) \<Rightarrow> if expires > now then Some config else None | None \<Rightarrow> None)"

definition ech_cache_config ::
  "resolver \<Rightarrow> resolver_env \<Rightarrow> string \<Rightarrow> ech_state \<Rightarrow> flight_state \<Rightarrow> (bytes result \<times> ech_state \<times> flight_state) option" where
  "ech_cache_config r env domain st s =
    (case ech_fresh (ev_now env) st of
       Some config \<Rightarrow> Some (Inr config, st, s)
     | None \<Rightarrow>
        (case ech_config r env domain s of
           None \<Rightarrow> None
         | Some (Inl e, s') \<Rightarrow> Some (Inl e, st, s')
         | Some (Inr (config, ttl), s') \<Rightarrow>
            Some (Inr config, Some (config, ev_later env + max ttl (from_secs 1)), s')))"

section \<open>Invariant of the shared state\<close>

text \<open>A response as it is kept in the cache: a DNS response with the identifier cleared.\<close>

definition is_response :: "bytes \<Rightarrow> bool" where
  "is_response w \<longleftrightarrow> 12 \<le> length w \<and> w ! 2 AND 0x80 \<noteq> 0"

fun entry_ok :: "cache_key \<Rightarrow> cache_value \<Rightarrow> bool" where
  "entry_ok (KWire _ _) v \<longleftrightarrow> (\<exists>w. v = Wire w \<and> is_response w \<and> take 2 w = [0, 0])"
| "entry_ok (KLookup _ _ _ _) v \<longleftrightarrow> (\<exists>addresses. v = Addresses addresses)"
| "entry_ok (KEch _) v \<longleftrightarrow> (\<exists>config. v = Wire config)"

definition resolver_ok :: "flight_state \<Rightarrow> bool" where
  "resolver_ok s \<longleftrightarrow> dnsc.sound entry_ok (fs_cache s) \<and> fs_flights s = []"

lemma patched_header:
  assumes "ttl_offsets m = Inr offs" and "patch_ttls g offs m = Inr m'"
  shows "length m' = length m" and "i < 12 \<Longrightarrow> m' ! i = m ! i"
proof -
  from assms(1) obtain n p where len: "12 \<le> length m" and recs: "ttl_records m n p = Inr offs" and p: "12 \<le> p"
    by (auto simp: ttl_offsets_def Let_def bindr_Inr_iff split: if_splits dest!: skip_questions_bounds)
  have "\<not> in_window i (filter Q offs)" if "i < 12" for i Q
    using ttl_records_windows [OF recs] that p by (fastforce simp: in_window_def windows_ok_def)
  with patch_ttls_offsets [OF assms(1), of g] assms(2) len
  show "length m' = length m" "i < 12 \<Longrightarrow> m' ! i = m ! i" by auto
qed

lemma take_two_header:
  "12 \<le> length a \<Longrightarrow> 12 \<le> length b \<Longrightarrow> (\<And>i. i < 12 \<Longrightarrow> a ! i = b ! i) \<Longrightarrow> take 2 a = take 2 b"
  by (rule nth_equalityI) auto

lemma rewrite_keeps_response:
  assumes "rewrite_response_ttls m ttl = Inr m'" and "is_response m"
  shows "is_response m'" and "take 2 m' = take 2 m"
proof -
  have "length m' = length m \<and> (\<forall>i < 12. m' ! i = m ! i)"
    using assms(1) patched_header by (auto simp: rewrite_response_ttls_def split: sum.splits)
  with assms(2) show "is_response m'" "take 2 m' = take 2 m"
    by (auto simp: is_response_def intro: take_two_header)
qed

lemma age_keeps_response:
  assumes "is_response m"
  obtains m' where "age_value e (Wire m) = Wire m'" "is_response m'" "take 2 m' = take 2 m"
proof -
  let ?e = "word_of_nat (min e (2 ^ 32 - 1)) :: u32"
  obtain m' where m': "age_response_ttls m ?e = Inr m'"
    using age_response_ttls_succeeds by blast
  have "length m' = length m \<and> (\<forall>i < 12. m' ! i = m ! i)"
    using m' patched_header by (auto simp: age_response_ttls_def split: sum.splits)
  with assms have "is_response m'" "take 2 m' = take 2 m"
    by (auto simp: is_response_def intro: take_two_header)
  with m' that show ?thesis by (simp add: age_value_def)
qed

lemma entry_ok_view:
  assumes "entry_ok key w" and "cache_view w v"
  shows "entry_ok key v"
proof (cases key)
  case (KWire q t)
  with assms(1) obtain m where m: "w = Wire m" "is_response m" "take 2 m = [0, 0]" by auto
  with assms(2) obtain e where "v = age_value e (Wire m)" by (auto simp: cache_view_def)
  with age_keeps_response [OF m(2), of e] m(3) KWire show ?thesis by auto
qed (use assms in \<open>auto simp: cache_view_def age_value_def split: sum.splits\<close>)

text \<open>One caller of \<open>cached\<close> on a state without flights always returns, and keeps the invariant.\<close>

lemma cached_alone:
  assumes ok: "resolver_ok s"
    and loaded: "\<And>v ttl. loaded = Inr (v, ttl) \<Longrightarrow> entry_ok key v"
  obtains outcome s' where "cached enabled now later key (run_load loaded) s = Some (outcome, s')"
    and "outcome \<noteq> Inl Panic \<Longrightarrow> resolver_ok s'"
    and "\<And>v. outcome = Inr v \<Longrightarrow> entry_ok key v"
proof -
  obtain hit s1 where look: "flight_lookup enabled now key s = (hit, s1)" by force
  from ok have sound: "dnsc.sound entry_ok (fs_cache s)" and none: "fs_flights s = []"
    by (simp_all add: resolver_ok_def)
  have s1: "resolver_ok s1" and found: "\<And>v. hit = Some v \<Longrightarrow> entry_ok key v"
    using look sound none dnsc.sound_get [OF sound, of now key] dnsc.sound_served [OF sound, of now key]
    by (auto simp: flight_lookup_def resolver_ok_def split: if_splits prod.splits intro: entry_ok_view)
  show ?thesis
  proof (cases hit)
    case (Some v)
    then show ?thesis using that [of "Inr v" s1] look s1 found by (simp add: cached_def)
  next
    case None
    define s2 where "s2 = s1\<lparr>fs_flights := hm_insert key (fs_next s1) (fs_flights s1),
      fs_results := (fs_results s1)(fs_next s1 := None), fs_next := Suc (fs_next s1)\<rparr>"
    have join: "flight_join key s1 = ((fs_next s1, True), s2)"
      using s1 by (simp add: flight_join_def resolver_ok_def s2_def)
    show ?thesis
    proof (cases loaded)
      case (Inl e)
      then show ?thesis
        using that look None join s1
        by (cases e) (auto simp: cached_def run_load_def resolver_ok_def flight_remove_def flight_complete_def s2_def)
    next
      case (Inr p)
      then obtain v ttl where p: "loaded = Inr (v, ttl)" by (cases p) auto
      have "dnsc.sound entry_ok (fs_cache (flight_store enabled later key v ttl s2))"
        using s1 dnsc.sound_put [of entry_ok "fs_cache s1" key v later ttl] loaded [OF p]
        by (auto simp: flight_store_def s2_def resolver_ok_def)
      then show ?thesis
        using that look None join s1 p loaded [OF p]
        by (auto simp: cached_def run_load_def resolver_ok_def flight_remove_def flight_complete_def
            flight_store_keeps s2_def)
    qed
  qed
qed

section \<open>Exchanges answer their request\<close>

lemma validated_is_response:
  assumes "validate_response i m = Inr ()"
  shows "is_response m" and "dns_id m = Inr i"
  using assms by (auto simp: validate_response_def is_response_def bindr_Inr_iff split: if_splits)

lemma exchange_load_entry:
  assumes "exchange_load r env rule server request_id wire name qtype question_end = Inr (v, ttl)"
  shows "entry_ok (KWire query tag) v"
proof -
  from assms obtain m m' where m: "validate_response request_id m = Inr ()"
    and m': "(case rule_field dr_rewrite_ttl rule of None \<Rightarrow> Inr m | Some t \<Rightarrow> rewrite_response_ttls m t) = Inr m'"
    and v: "copy_at m' 0 [0, 0] = Inr (overwrite m' 0 [0, 0])" "v = Wire (overwrite m' 0 [0, 0])"
    by (auto simp: exchange_load_def bindr_Inr_iff copy_at_def split: if_splits)
  have "is_response m'"
    using m' validated_is_response [OF m] rewrite_keeps_response by (auto split: option.splits)
  then have "is_response (overwrite m' 0 [0, 0])" "take 2 (overwrite m' 0 [0, 0]) = [0, 0]"
    by (auto simp: is_response_def nth_overwrite) (auto simp: overwrite_def)
  with v show ?thesis by simp
qed

lemma with_id:
  assumes "is_response m" and "copy_at m 0 (to_be_bytes (i :: u16)) = Inr r"
  shows "is_response r" and "dns_id r = Inr i"
proof -
  from assms have r: "r = overwrite m 0 (to_be_bytes i)" "12 \<le> length m"
    by (auto simp: copy_at_def is_response_def split: if_splits)
  show "is_response r" using assms(1) r by (simp add: is_response_def nth_overwrite)
  have "take 2 r = to_be_bytes i" using r by (simp add: overwrite_def)
  with r show "dns_id r = Inr i" by (simp add: dns_id_def get_range_def)
qed

lemma refused_is_response:
  assumes "refused_response request question_end = Inr r" and "12 \<le> question_end"
  shows "is_response r" and "dns_id r = dns_id request"
proof -
  let ?q = "take question_end request"
  from assms have r: "r = overwrite (overwrite (overwrite ?q 2 [?q ! 2 OR 0x80]) 3
      [(overwrite ?q 2 [?q ! 2 OR 0x80] ! 3 AND 0xF0) OR 5]) 6 [0, 0, 0, 0, 0, 0]"
    and len: "question_end \<le> length request"
    by (auto simp: refused_response_def bindr_Inr_iff with_context_Inr_iff get_range_Some_iff)
  have "r ! 2 = ?q ! 2 OR 0x80" "length r = question_end" "take 2 r = take 2 request"
    using len assms(2) by (simp_all add: r nth_overwrite) (simp add: overwrite_def)
  moreover have "(b OR 0x80) AND 0x80 \<noteq> (0 :: u8)" for b by (simp add: bit.conj_disj_distrib2)
  ultimately show "is_response r" "dns_id r = dns_id request"
    using len assms(2) by (auto simp: is_response_def dns_id_def get_range_def)
qed

lemma predefined_is_response:
  assumes "predefined_response request question_end rcode records = Inr r" and "12 \<le> question_end"
  shows "is_response r" and "dns_id r = dns_id request"
proof -
  let ?q = "take question_end request"
  from assms obtain body n where r: "r = overwrite (overwrite (overwrite (overwrite ?q 2 [0x80 OR 0x04 OR 0x01]) 3
      [0x80 OR (rcode AND 0x0F)]) 6 [0, 0, 0, 0, 0, 0] @ body) 6 (to_be_bytes (word_of_nat n :: u16))"
    and len: "question_end \<le> length request"
    by (auto simp: predefined_response_def bindr_Inr_iff with_context_Inr_iff get_range_Some_iff split: if_splits)
  have "r ! 2 = 0x80 OR 0x04 OR 0x01" "question_end \<le> length r" "take 2 r = take 2 request"
    using len assms(2) by (simp_all add: r nth_overwrite nth_append) (simp add: overwrite_def)
  then show "is_response r" "dns_id r = dns_id request"
    using len assms(2) by (auto simp: is_response_def dns_id_def get_range_def)
qed

lemma exchange_forward_answers:
  assumes ok: "resolver_ok s"
  shows "\<exists>outcome s'. exchange_forward r env rule request_id request name qtype question_end s = Some (outcome, s') \<and>
    (outcome \<noteq> Inl Panic \<longrightarrow> resolver_ok s') \<and>
    (\<forall>response. outcome = Inr response \<longrightarrow> is_response response \<and> dns_id response = Inr request_id)"
proof -
  let ?tag = "unwrap_or (rule_field dr_server rule) (rs_final_tag r)"
  let ?wire = "case or_else (rule_field dr_client_subnet rule) (rs_client_subnet r) of
    None \<Rightarrow> Inr request | Some subnet \<Rightarrow> add_client_subnet (parse_client_subnet (ev_net env)) request subnet"
  show ?thesis
  proof (cases "get_server r ?tag"; cases ?wire)
    fix server wire assume server: "get_server r ?tag = Inr server" and wire: "?wire = Inr wire"
    define loaded where "loaded = exchange_load r env rule server request_id wire name qtype question_end"
    define key where "key = KWire (canonical_query wire) ?tag"
    have entry: "entry_ok key v" if "loaded = Inr (v, ttl)" for v ttl
      using exchange_load_entry that by (auto simp: loaded_def key_def)
    have finish: "is_response response \<and> dns_id response = Inr request_id"
      if "entry_ok key v" "exchange_finish request_id v = Inr response" for v response
      using that with_id by (auto simp: key_def exchange_finish_def)
    show ?thesis
    proof (cases "is_some_and rule (\<lambda>c. dr_disable_cache (cd_raw c))")
      case True
      then show ?thesis
        using server wire ok entry finish
        by (auto simp: exchange_forward_def Let_def bindr_Inr_iff simp flip: loaded_def)
    next
      case False
      obtain outcome s' where c: "cached (rs_cache_enabled r) (ev_now env) (ev_later env) key (run_load loaded) s = Some (outcome, s')"
        and s': "outcome \<noteq> Inl Panic \<Longrightarrow> resolver_ok s'" and v: "\<And>v. outcome = Inr v \<Longrightarrow> entry_ok key v"
        by (rule cached_alone [OF ok, of loaded key "rs_cache_enabled r" "ev_now env" "ev_later env"])
           (auto intro: entry that)
      have "bindr outcome (exchange_finish request_id) \<noteq> Inl Panic \<Longrightarrow> outcome \<noteq> Inl Panic" by auto
      with False server wire c s' v finish show ?thesis
        by (auto simp: exchange_forward_def Let_def bindr_Inr_iff simp flip: loaded_def key_def)
    qed
  qed (use ok in \<open>auto simp: exchange_forward_def Let_def\<close>)
qed


definition example_server :: upstream where
  "example_server = \<lparr>up_config = \<lparr>sv_type = ''udp'', sv_tag = ''d'', sv_server = Some ''h'', sv_server_port = None,
     sv_path = None, sv_detour = None\<rparr>, up_endpoint = Some (''h'', 53), up_stream = True\<rparr>"

definition example_resolver :: resolver where
  "example_resolver = \<lparr>rs_servers = [(''d'', example_server)], rs_rules = [], rs_final_tag = ''d'',
     rs_cache_enabled = True, rs_strategy = None, rs_timeout = dns_timeout, rs_client_subnet = None,
     rs_rule_sets = None\<rparr>"

definition example_env :: resolver_env where
  "example_env = \<lparr>ev_query = \<lambda>_ _ wire. copy_at wire 2 [0x81], ev_hosts = \<lambda>_. Inr [], ev_net = \<lambda>_. None,
     ev_id = 7, ev_now = 0, ev_later = 1\<rparr>"

abbreviation example_request :: bytes where
  "example_request \<equiv> [0, 7, 1, 0, 0, 1, 0, 0, 0, 0, 0, 0, 1, 97, 0, 0, 1, 0, 1]"

lemma new_flights_ok: "capacity \<le> usize_max \<Longrightarrow> resolver_ok (new_flights (new_cache capacity disable_expire))"
  by (simp add: resolver_ok_def new_flights_def sound_new_cache)

lemma cached_fresh:
  "\<exists>s'. cached True now later key (run_load (Inr (v, ttl))) (new_flights (new_cache n d)) = Some (Inr v, s')"
  by (simp add: cached_def flight_lookup_def cache_get_def new_flights_def new_cache_def flight_join_def run_load_def)

lemma example_load:
  "exchange_load example_resolver example_env None example_server 7 example_request ''a'' 1 19 =
    Inr (Wire [0, 0, 0x81, 0, 0, 1, 0, 0, 0, 0, 0, 0, 1, 97, 0, 0, 1, 0, 1], clamp_ttl 30)"
proof -
  let ?m = "[0, 7, 0x81, 0, 0, 1, 0, 0, 0, 0, 0, 0, 1, 97, 0, 0, 1, 0, 1] :: bytes"
  have "validate_response 7 ?m = Inr ()" "response_ttl ?m = 30" by code_simp+
  then show ?thesis
    by (simp add: exchange_load_def example_server_def example_env_def example_resolver_def rule_timeout_def rule_field_def
        parse_duration_or_def overwrite_def response_lifetime_def)
qed


section \<open>A new resolver\<close>

lemma build_servers_contains:
  "build_servers cfgs acc = Inr servers \<Longrightarrow>
   hm_get servers tag = Some up \<Longrightarrow> hm_get acc tag = Some up \<or> (\<exists>cfg \<in> set cfgs. sv_tag cfg = tag \<and> upstream_new cfg = Inr up)"
proof (induction cfgs acc rule: build_servers.induct)
  case (2 server rest acc)
  then obtain u where u: "upstream_new server = Inr u"
    and rest: "build_servers rest (hm_insert (sv_tag server) u acc) = Inr servers"
    by (auto simp: bindr_Inr_iff)
  from "2.IH" [OF u rest "2.prems"(2)] u show ?case
    by (auto simp: hm_get_insert split: if_splits)
qed simp

text \<open>
  A resolver that was built is usable: its state satisfies the invariant the exchanges rely
  on, its default server exists, and each of its servers was built by \<open>Upstream::new\<close> from an
  entry of the configuration with that tag.
\<close>

theorem new_resolver_ok:
  assumes "with_rule_sets regex_new net_from_str tls_roots http_client cfg rsets = Inr (r, s)"
    and "\<And>n. dg_cache_capacity cfg = Some n \<Longrightarrow> n \<le> usize_max"
  shows "resolver_ok s \<and> (\<exists>up. get_server r (rs_final_tag r) = Inr up) \<and>
    (\<forall>tag up. get_server r tag = Inr up \<longrightarrow> (\<exists>c \<in> set (dg_servers cfg). sv_tag c = tag \<and> upstream_new c = Inr up))"
proof -
  from assms(1) obtain servers final_tag where servers: "build_servers (dg_servers cfg) [] = Inr servers"
    and "hm_contains servers final_tag" and r: "rs_servers r = servers" "rs_final_tag r = final_tag"
    and s: "s = new_flights (new_cache (max (case dg_cache_capacity cfg of Some n \<Rightarrow> n | None \<Rightarrow> 4096) 1)
             (dg_disable_expire cfg = Some True))"
    by (auto simp: with_rule_sets_def bindr_Inr_iff ensure_Inr_iff simp del: One_nat_def)
  then obtain up where "hm_get servers final_tag = Some up"
    by (cases "hm_get servers final_tag") (simp_all add: hm_contains_def)
  moreover have "max (case dg_cache_capacity cfg of Some n \<Rightarrow> n | None \<Rightarrow> 4096) 1 \<le> usize_max"
    using assms(2) by (auto simp: usize_max_def split: option.split)
  ultimately show ?thesis
    using build_servers_contains [OF servers] new_flights_ok
    by (auto simp: get_server_def r s with_context_Inr_iff)
qed

definition example_config :: dns_config where
  "example_config = \<lparr>dg_servers = [\<lparr>sv_type = ''udp'', sv_tag = ''d'', sv_server = Some ''h'', sv_server_port = None,
     sv_path = None, sv_detour = None\<rparr>], dg_rules = [], dg_final_server = None, dg_strategy = None, dg_disable_cache = None,
     dg_disable_expire = None, dg_cache_capacity = None, dg_optimistic = None, dg_timeout = None,
     dg_reverse_mapping = False, dg_client_subnet = None\<rparr>"

theorem new_resolver_ok_witness:
  "\<exists>r s. with_rule_sets (\<lambda>_. None) (\<lambda>_. None) (Inr ()) (Inr ()) example_config None = Inr (r, s) \<and>
    resolver_ok s \<and> (\<exists>up. get_server r (rs_final_tag r) = Inr up)"
proof -
  obtain r s where rs: "with_rule_sets (\<lambda>_. None) (\<lambda>_. None) (Inr ()) (Inr ()) example_config None = Inr (r, s)"
    by (simp add: with_rule_sets_def example_config_def validate_strategy_def parse_duration_or_def
        upstream_new_def hm_contains_iff)
  moreover have "dg_cache_capacity example_config = None" by (simp add: example_config_def)
  ultimately show ?thesis using new_resolver_ok [OF rs] by auto
qed

section \<open>Lookups\<close>

lemma set_sort_dedup [simp]: "set (sort_dedup xs) = set xs"
  by (simp add: sort_dedup_def)

lemma distinct_sort_dedup: "distinct (sort_dedup xs) \<and> sorted (sort_dedup xs)"
proof -
  have "sorted (remdups_adj (sort xs))" by (simp add: sorted_remdups_adj)
  moreover have "distinct (remdups_adj ys)" if "sorted ys" for ys :: "ip_addr list"
    using that by (induction ys rule: remdups_adj.induct) (auto dest: order.antisym)
  ultimately show ?thesis by (simp add: sort_dedup_def)
qed

lemma merge_lookups_props:
  "set (merge_lookups strategy a aaaa) = (case a of Inr x \<Rightarrow> set x | Inl _ \<Rightarrow> {}) \<union> (case aaaa of Inr x \<Rightarrow> set x | Inl _ \<Rightarrow> {})"
  "distinct (merge_lookups strategy a aaaa)"
  "strategy = Some ''prefer_ipv4'' \<Longrightarrow> sorted (map (\<lambda>x. \<not> is_ipv4 x) (merge_lookups strategy a aaaa))"
  "strategy = Some ''prefer_ipv6'' \<Longrightarrow> sorted (map is_ipv4 (merge_lookups strategy a aaaa))"
  "strategy \<notin> {Some ''prefer_ipv4'', Some ''prefer_ipv6''} \<Longrightarrow> sorted (merge_lookups strategy a aaaa)"
  by (auto simp: merge_lookups_def Let_def distinct_sort_dedup sorted_sort_key split: sum.splits)


definition local_resolver :: resolver where
  "local_resolver = example_resolver\<lparr>rs_servers := [(''d'', example_server\<lparr>up_config :=
     (up_config example_server)\<lparr>sv_type := ''local''\<rparr>\<rparr>)], rs_strategy := Some ''prefer_ipv6''\<rparr>"

definition local_env :: resolver_env where
  "local_env = example_env\<lparr>ev_hosts := \<lambda>_. Inr [V4 1, V6 2, V4 1]\<rparr>"

definition uncached :: lookup_options where
  "uncached = \<lparr>lo_server = None, lo_disable_cache = True, lo_rewrite_ttl = None, lo_timeout = None, lo_strategy = None,
     lo_client_subnet = None\<rparr>"

lemma local_lookup:
  "lookup_with_options local_resolver local_env local_env ''a'' uncached s = Some (Inr [V6 2, V4 1], s)"
proof -
  have "normalize ''a'' = ''a''" by code_simp
  moreover have "lookup_type local_resolver local_env ''a'' qtype uncached s =
      Some (Inr (filter (address_matches qtype) [V4 1, V6 2, V4 1]), s)" for qtype
    by (simp add: lookup_type_def local_resolver_def local_env_def uncached_def example_resolver_def example_env_def
        example_server_def dns_rule_action_def rule_field_def select_rule_def or_else_def unwrap_or_def lookup_load_def
        select_server_def get_server_def lookup_finish_def Let_def)
  moreover have "merge_lookups (Some ''prefer_ipv6'') (Inr [V4 1, V4 1]) (Inr [V6 2]) = [V6 2, V4 1]" by code_simp
  ultimately show ?thesis
    by (simp add: lookup_with_options_def lookup_strategy_def local_resolver_def uncached_def select_rule_def or_else_def
        rule_field_def validate_strategy_def address_matches_def example_resolver_def Let_def)
qed


text \<open>
  An ECH configuration is cached as \<open>CacheValue::Wire\<close>, like a DNS message, and is aged like one
  when it is served: a configuration whose bytes can be walked as a DNS message comes back changed.
\<close>

lemma aged_ech_config:
  "\<exists>config. entry_ok (KEch name) (Wire config) \<and> age_value 20 (Wire config) \<noteq> Wire config"
proof -
  let ?m = "[0, 7, 0x81, 0x80, 0, 0, 0, 1, 0, 0, 0, 0, 0, 0, 1, 0, 1, 0, 0, 0, 50, 0, 1, 9] :: bytes"
  have offs: "ttl_offsets ?m = Inr [(17, 1, 50)]" by code_simp
  then have "patch_ttls (\<lambda>ttl. saturating_sub ttl 20) [(17, 1, 50)] ?m =
      Inr (overwrite ?m 17 (to_be_bytes (saturating_sub 50 20 :: u32)))" by simp
  moreover have "overwrite ?m 17 (to_be_bytes (saturating_sub 50 20 :: u32)) \<noteq> ?m" by code_simp
  ultimately have "age_value 20 (Wire ?m) \<noteq> Wire ?m"
    using offs by (simp add: age_value_def age_response_ttls_def)
  then show ?thesis by auto
qed

end
