(* ===== verification/Xhttp_Config.thy ===== *)
theory Xhttp_Config
  imports Rust_Text
begin

text \<open>
  The transport configuration of \<open>config.rs\<close>: ranges, the multiplexing limits, the placements of
  the metadata and \<open>TransportConfig::validate\<close>, which normalises the configuration and rejects
  what the rest of the transport relies on never to see. The \<open>http\<close>, \<open>url\<close>, \<open>base64\<close> and
  Huffman crates are the fields of the parameter \<open>web\<close>.
\<close>

section \<open>The crates the transport calls\<close>

text \<open>
  \<open>header_name\<close> is \<open>HeaderName::try_from\<close> (the canonical name), \<open>header_value_ok\<close> whether
  \<open>HeaderValue::try_from\<close> succeeds, \<open>header_text\<close> whether \<open>to_str\<close> does, \<open>method_of\<close> is
  \<open>Method::from_bytes\<close>. A \<open>'u\<close> is a \<open>url::Url\<close>, with its path, its decoded query pairs and its
  text; \<open>form_parse\<close> is \<open>form_urlencoded::parse\<close>. \<open>b64_encode\<close> and \<open>b64_decode\<close> are the
  unpadded URL-safe base64, \<open>huffman\<close> is \<open>httlib_huffman::encode\<close>.
\<close>

record 'u web =
  header_name :: "string \<Rightarrow> string option"
  header_value_ok :: "string \<Rightarrow> bool"
  header_text :: "string \<Rightarrow> bool"
  method_of :: "string \<Rightarrow> string option"
  url_parse :: "string \<Rightarrow> 'u option"
  url_text :: "'u \<Rightarrow> string"
  url_path :: "'u \<Rightarrow> string"
  url_set_path :: "string \<Rightarrow> 'u \<Rightarrow> 'u"
  url_pairs :: "'u \<Rightarrow> (string \<times> string) list"
  url_append_pair :: "string \<Rightarrow> string \<Rightarrow> 'u \<Rightarrow> 'u"
  form_parse :: "string \<Rightarrow> (string \<times> string) list"
  b64_encode :: "bytes \<Rightarrow> string"
  b64_decode :: "string \<Rightarrow> bytes option"
  huffman :: "bytes \<Rightarrow> bytes option"

section \<open>Ranges\<close>

record range_config =
  range_from :: nat
  range_to :: nat

definition range_validate :: "string \<Rightarrow> range_config \<Rightarrow> unit result" where
  "range_validate name r =
    (if range_to r = 0 then
       (if range_from r \<noteq> 0 then Inl (Bail (name @ ''.from requires a non-zero to value''))
        else Inr ())
     else if range_from r > range_to r then
       Inl (Bail (name @ ''.from must not exceed '' @ name @ ''.to''))
     else Inr ())"

text \<open>\<open>sample\<close>: \<open>random_range(from..=to)\<close> panics on an empty range; \<open>draw\<close> is the random number.\<close>

definition range_sample :: "nat \<Rightarrow> range_config \<Rightarrow> nat result" where
  "range_sample draw r =
    (if range_to r = 0 then Inr 0
     else if range_from r > range_to r then Inl Panic
     else Inr (range_from r + draw mod (Suc (range_to r - range_from r))))"

record xmux_config =
  max_concurrency :: range_config
  max_connections :: range_config
  c_max_reuse_times :: range_config
  h_max_request_times :: range_config
  h_max_reusable_secs :: range_config
  h_keep_alive_period :: nat

definition xmux_validate :: "xmux_config \<Rightarrow> unit result" where
  "xmux_validate x =
    (if range_to (max_concurrency x) \<noteq> 0 \<and> range_to (max_connections x) \<noteq> 0 then
       Inl (Bail ''xmux max_concurrency and max_connections are mutually exclusive'')
     else
       bindr (range_validate ''xmux.max_concurrency'' (max_concurrency x)) (\<lambda>_.
       bindr (range_validate ''xmux.max_connections'' (max_connections x)) (\<lambda>_.
       bindr (range_validate ''xmux.c_max_reuse_times'' (c_max_reuse_times x)) (\<lambda>_.
       bindr (range_validate ''xmux.h_max_request_times'' (h_max_request_times x)) (\<lambda>_.
       range_validate ''xmux.h_max_reusable_secs'' (h_max_reusable_secs x))))))"

section \<open>The transport configuration\<close>

datatype mode = Auto | StreamOne | StreamUp | PacketUp

definition resolved :: "mode \<Rightarrow> mode" where
  "resolved m = (case m of Auto \<Rightarrow> PacketUp | _ \<Rightarrow> m)"

datatype placement =
  PathPlace | QueryPlace | HeaderPlace | CookiePlace | BodyPlace | AutoPlace | QueryInHeader

record transport_config =
  tc_path :: string
  tc_query :: "string option"
  tc_host :: "string option"
  tc_mode :: mode
  tc_headers :: "(string \<times> string) list"
  tc_token :: "string option"
  session_placement :: placement
  session_key :: string
  sequence_placement :: placement
  sequence_key :: string
  data_placement :: placement
  data_key :: string
  padding_min :: nat
  padding_max :: nat
  padding_obfs :: bool
  padding_placement :: placement
  padding_key :: string
  padding_header :: string
  padding_method :: string
  uplink_method :: string
  no_grpc_header :: bool
  no_sse_header :: bool
  max_packet_size :: nat
  max_buffered_packets :: nat
  packet_interval_ms :: nat
  session_timeout_secs :: nat
  max_sessions :: nat
  max_session_id_length :: nat
  tc_xmux :: xmux_config

definition range_default :: range_config where
  "range_default = \<lparr>range_from = 0, range_to = 0\<rparr>"

definition xmux_default :: xmux_config where
  "xmux_default =
    \<lparr>max_concurrency = range_default, max_connections = range_default,
     c_max_reuse_times = range_default, h_max_request_times = range_default,
     h_max_reusable_secs = range_default, h_keep_alive_period = 0\<rparr>"

definition transport_default :: transport_config where
  "transport_default =
    \<lparr>tc_path = ''/xhttp'', tc_query = None, tc_host = None, tc_mode = Auto, tc_headers = [],
     tc_token = None, session_placement = PathPlace, session_key = ''x_session'',
     sequence_placement = PathPlace, sequence_key = ''x_seq'',
     data_placement = BodyPlace, data_key = ''X-Data'', padding_min = 100, padding_max = 1000,
     padding_obfs = False, padding_placement = QueryInHeader, padding_key = ''x_padding'',
     padding_header = ''X-Padding'', padding_method = ''repeat-x'', uplink_method = ''POST'',
     no_grpc_header = False, no_sse_header = False, max_packet_size = 1000000,
     max_buffered_packets = 30, packet_interval_ms = 30, session_timeout_secs = 30,
     max_sessions = 4096, max_session_id_length = 256, tc_xmux = xmux_default\<rparr>"

definition session_timeout :: "transport_config \<Rightarrow> duration" where
  "session_timeout c = from_secs (session_timeout_secs c)"

section \<open>Validation\<close>

text \<open>\<open>while self.path.len() > 1 && self.path.ends_with('/') { self.path.pop(); }\<close>\<close>

function pop_slashes :: "string \<Rightarrow> string" where
  "pop_slashes p = (if length p > 1 \<and> ends_with p ''/'' then pop_slashes (butlast p) else p)"
  by auto
termination
  by (relation "measure length") auto

declare pop_slashes.simps [simp del]

definition normalise_path :: "transport_config \<Rightarrow> transport_config" where
  "normalise_path c =
    (let c1 = (case split_once CHR ''?'' (tc_path c) of
                 None \<Rightarrow> c
               | Some (path, query) \<Rightarrow>
                   c\<lparr>tc_path := path, tc_query := if query \<noteq> [] then Some query else tc_query c\<rparr>);
         c2 = (if starts_with (tc_path c1) ''/'' then c1 else c1\<lparr>tc_path := CHR ''/'' # tc_path c1\<rparr>)
     in c2\<lparr>tc_path := pop_slashes (tc_path c2)\<rparr>)"

definition metadata_placement :: "placement \<Rightarrow> bool" where
  "metadata_placement p \<longleftrightarrow> p \<in> {PathPlace, QueryPlace, HeaderPlace, CookiePlace}"

definition payload_placement :: "placement \<Rightarrow> bool" where
  "payload_placement p \<longleftrightarrow> p \<in> {BodyPlace, HeaderPlace, CookiePlace, AutoPlace}"

definition padding_placement_ok :: "placement \<Rightarrow> bool" where
  "padding_placement_ok p \<longleftrightarrow> p \<in> {HeaderPlace, CookiePlace, QueryPlace, QueryInHeader}"

definition bearer :: "string \<Rightarrow> string" where
  "bearer token = ''Bearer '' @ token"

definition validate_header :: "'u web \<Rightarrow> string \<times> string \<Rightarrow> unit result" where
  "validate_header W nv =
    (if to_ascii_lowercase (fst nv) = ''host'' then
       Inl (Bail ''use the XHTTP host field instead of a Host header'')
     else
       bindr (with_context ''invalid XHTTP header name'' (header_name W (fst nv))) (\<lambda>_.
       ensure (header_value_ok W (snd nv)) ''invalid XHTTP header value''))"

definition validate_metadata_key :: "'u web \<Rightarrow> placement \<times> string \<Rightarrow> unit result" where
  "validate_metadata_key W pk =
    (if fst pk = HeaderPlace then
       bindr (with_context ''invalid metadata header name'' (header_name W (snd pk))) (\<lambda>_. Inr ())
     else Inr ())"

text \<open>The checks of \<open>validate\<close> in their order: the fields, then what the \<open>http\<close> crate must accept.\<close>

definition validate_fields :: "transport_config \<Rightarrow> unit result" where
  "validate_fields c =
    bindr (ensure (padding_min c \<le> padding_max c) ''padding_min must not exceed padding_max'') (\<lambda>_.
    bindr (ensure (max_packet_size c \<noteq> 0 \<and> max_buffered_packets c \<noteq> 0 \<and>
                   session_timeout_secs c \<noteq> 0 \<and> max_sessions c \<noteq> 0 \<and> max_session_id_length c \<noteq> 0)
             ''packet limits must be greater than zero'') (\<lambda>_.
    bindr (ensure (metadata_placement (session_placement c) \<and> metadata_placement (sequence_placement c))
             ''session and sequence metadata cannot use body placement'') (\<lambda>_.
    bindr (ensure (payload_placement (data_placement c))
             ''data placement must be body, header, cookie, or auto'') (\<lambda>_.
    bindr (ensure (padding_placement_ok (padding_placement c)) ''invalid padding placement'') (\<lambda>_.
    ensure (padding_method c = ''repeat-x'' \<or> padding_method c = ''tokenish'')
      ''invalid padding method'')))))"

definition validate_http :: "'u web \<Rightarrow> transport_config \<Rightarrow> unit result" where
  "validate_http W c =
    bindr (with_context ''invalid XHTTP uplink method'' (method_of W (uplink_method c))) (\<lambda>method.
    bindr (ensure (\<not> (method = ''GET'' \<and> \<not> (tc_mode c = Auto \<or> tc_mode c = PacketUp)))
             ''GET uplink method requires packet-up or auto mode'') (\<lambda>_.
    bindr (map_result (validate_header W) (tc_headers c)) (\<lambda>_.
    bindr (case tc_host c of None \<Rightarrow> Inr ()
           | Some host \<Rightarrow> ensure (header_value_ok W host) ''invalid XHTTP host value'') (\<lambda>_.
    bindr (case tc_token c of None \<Rightarrow> Inr ()
           | Some token \<Rightarrow>
               ensure (header_value_ok W (bearer token)) ''invalid XHTTP authorization token'') (\<lambda>_.
    bindr (xmux_validate (tc_xmux c)) (\<lambda>_.
    bindr (validate_metadata_key W (session_placement c, session_key c)) (\<lambda>_.
    validate_metadata_key W (sequence_placement c, sequence_key c))))))))"

definition validate :: "'u web \<Rightarrow> transport_config \<Rightarrow> transport_config result" where
  "validate W c0 =
    (let c = normalise_path c0 in
     bindr (validate_fields c) (\<lambda>_.
     let c' = c\<lparr>uplink_method := to_ascii_uppercase (uplink_method c)\<rparr> in
     bindr (validate_http W c') (\<lambda>_. Inr c')))"

section \<open>What a validated configuration guarantees\<close>

definition range_ok :: "range_config \<Rightarrow> bool" where
  "range_ok r \<longleftrightarrow> range_from r \<le> range_to r"

lemma range_validate_iff: "range_validate name r = Inr u \<longleftrightarrow> range_ok r"
  by (auto simp: range_validate_def range_ok_def)

lemma range_sample_bounds:
  assumes "range_ok r"
  obtains n where "range_sample draw r = Inr n" and "range_from r \<le> n" and "n \<le> range_to r"
proof -
  have "draw mod Suc (range_to r - range_from r) < Suc (range_to r - range_from r)" by simp
  then have "range_from r + draw mod Suc (range_to r - range_from r) \<le> range_to r"
    using assms by (simp add: range_ok_def del: mod_less_divisor)
  with assms that show ?thesis
    by (cases "range_to r = 0") (auto simp: range_sample_def range_ok_def)
qed

definition xmux_ok :: "xmux_config \<Rightarrow> bool" where
  "xmux_ok x \<longleftrightarrow>
    (range_to (max_concurrency x) = 0 \<or> range_to (max_connections x) = 0) \<and>
    list_all range_ok
      [max_concurrency x, max_connections x, c_max_reuse_times x, h_max_request_times x,
       h_max_reusable_secs x]"

lemma xmux_validate_iff: "xmux_validate x = Inr u \<longleftrightarrow> xmux_ok x"
  by (auto simp: xmux_validate_def xmux_ok_def bindr_Inr_iff range_validate_iff)

text \<open>
  The invariant of a validated configuration. The path is absolute, has no query part and no
  trailing slash unless it is the root; every limit is positive; every placement is one the
  protocol implements.
\<close>

definition path_normal :: "string \<Rightarrow> bool" where
  "path_normal p \<longleftrightarrow>
    p \<noteq> [] \<and> hd p = CHR ''/'' \<and> CHR ''?'' \<notin> set p \<and> (1 < length p \<longrightarrow> last p \<noteq> CHR ''/'')"

definition fields_ok :: "transport_config \<Rightarrow> bool" where
  "fields_ok c \<longleftrightarrow>
    padding_min c \<le> padding_max c \<and>
    0 < max_packet_size c \<and> 0 < max_buffered_packets c \<and> 0 < session_timeout_secs c \<and>
    0 < max_sessions c \<and> 0 < max_session_id_length c \<and>
    metadata_placement (session_placement c) \<and> metadata_placement (sequence_placement c) \<and>
    payload_placement (data_placement c) \<and> padding_placement_ok (padding_placement c) \<and>
    (padding_method c = ''repeat-x'' \<or> padding_method c = ''tokenish'')"

definition header_ok :: "'u web \<Rightarrow> string \<times> string \<Rightarrow> bool" where
  "header_ok W nv \<longleftrightarrow> to_ascii_lowercase (fst nv) \<noteq> ''host'' \<and> header_name W (fst nv) \<noteq> None \<and>
    header_value_ok W (snd nv)"

definition http_ok :: "'u web \<Rightarrow> transport_config \<Rightarrow> bool" where
  "http_ok W c \<longleftrightarrow>
    (case method_of W (uplink_method c) of None \<Rightarrow> False
     | Some m \<Rightarrow> m = ''GET'' \<longrightarrow> tc_mode c = Auto \<or> tc_mode c = PacketUp) \<and>
    list_all (header_ok W) (tc_headers c) \<and>
    pred_option (header_value_ok W) (tc_host c) \<and>
    pred_option (\<lambda>token. header_value_ok W (bearer token)) (tc_token c) \<and>
    xmux_ok (tc_xmux c) \<and>
    (session_placement c = HeaderPlace \<longrightarrow> header_name W (session_key c) \<noteq> None) \<and>
    (sequence_placement c = HeaderPlace \<longrightarrow> header_name W (sequence_key c) \<noteq> None)"

definition transport_ok :: "'u web \<Rightarrow> transport_config \<Rightarrow> bool" where
  "transport_ok W c \<longleftrightarrow> path_normal (tc_path c) \<and> fields_ok c \<and>
    to_ascii_uppercase (uplink_method c) = uplink_method c \<and> http_ok W c"

lemma ends_with_slash: "ends_with p ''/'' \<longleftrightarrow> p \<noteq> [] \<and> last p = CHR ''/''"
  by (cases p rule: rev_cases) (auto simp: ends_with_def)

lemma starts_with_slash: "starts_with p ''/'' \<longleftrightarrow> p \<noteq> [] \<and> hd p = CHR ''/''"
  by (cases p) (auto simp: starts_with_def)

lemma pop_slashes_props:
  "p \<noteq> [] \<Longrightarrow> hd p = CHR ''/'' \<Longrightarrow>
   pop_slashes p \<noteq> [] \<and> hd (pop_slashes p) = CHR ''/'' \<and> set (pop_slashes p) \<subseteq> set p \<and>
   (1 < length (pop_slashes p) \<longrightarrow> last (pop_slashes p) \<noteq> CHR ''/'')"
proof (induction p rule: pop_slashes.induct)
  case (1 p)
  show ?case
  proof (cases "length p > 1 \<and> ends_with p ''/''")
    case True
    then have "butlast p \<noteq> []" "hd (butlast p) = CHR ''/''"
      using 1 by (cases p; auto)+
    with 1 True show ?thesis
      using pop_slashes.simps [of p] by (auto dest: in_set_butlastD)
  next
    case False
    then have "pop_slashes p = p" by (subst pop_slashes.simps) auto
    with 1 False show ?thesis by (auto simp: ends_with_slash)
  qed
qed

lemma pop_slashes_normal: "path_normal p \<Longrightarrow> pop_slashes p = p"
  by (subst pop_slashes.simps) (auto simp: path_normal_def ends_with_slash)

lemma split_once_no_sep: "c \<notin> set s \<longleftrightarrow> split_once c s = None"
  by (induction s) (auto split: option.splits)

lemma split_once_before: "split_once c s = Some (a, b) \<Longrightarrow> c \<notin> set a"
  by (induction s arbitrary: a) (auto split: if_splits option.splits)

lemma normalise_path_normal: "path_normal (tc_path (normalise_path c))"
proof -
  have n: "CHR ''?'' \<notin> set p \<Longrightarrow>
        path_normal (pop_slashes (if starts_with p ''/'' then p else CHR ''/'' # p))" for p
    using pop_slashes_props [of p] pop_slashes_props [of "CHR ''/'' # p"]
    by (auto simp: path_normal_def starts_with_slash)
  show ?thesis
  proof (cases "split_once CHR ''?'' (tc_path c)")
    case None
    then show ?thesis
      using n [of "tc_path c"] by (simp add: normalise_path_def Let_def split_once_no_sep if_distrib)
  next
    case (Some ab)
    then show ?thesis
      using n [of "fst ab"] split_once_before [of "CHR ''?''" "tc_path c"]
      by (cases ab) (auto simp: normalise_path_def Let_def if_distrib)
  qed
qed

lemma normalise_path_id: "path_normal (tc_path c) \<Longrightarrow> normalise_path c = c"
proof -
  assume n: "path_normal (tc_path c)"
  then have "split_once CHR ''?'' (tc_path c) = None"
    by (simp add: path_normal_def split_once_no_sep [symmetric])
  moreover have "starts_with (tc_path c) ''/''" using n by (simp add: path_normal_def starts_with_slash)
  ultimately show ?thesis using n by (simp add: normalise_path_def pop_slashes_normal)
qed

lemma normalise_path_frame:
  "\<exists>p q. normalise_path c = c\<lparr>tc_path := p, tc_query := q\<rparr>"
  by (cases c) (auto simp: normalise_path_def Let_def split: option.splits)

lemma ascii_upper_idem [simp]: "ascii_upper (ascii_upper c) = ascii_upper c"
proof (cases "0x61 \<le> byte_of_char c \<and> byte_of_char c \<le> 0x7A")
  case True
  then have "\<not> (0x61 \<le> byte_of_char c - 0x20 \<and> byte_of_char c - 0x20 \<le> 0x7A)"
    by (auto simp: word_le_nat_alt unat_sub_if')
  with True show ?thesis by (auto simp: ascii_upper_def Let_def)
qed (auto simp: ascii_upper_def Let_def)

lemma uppercase_idem [simp]:
  "to_ascii_uppercase (to_ascii_uppercase s) = to_ascii_uppercase s"
  by (simp add: to_ascii_uppercase_def)

lemma map_result_unit_iff:
  "map_result f xs = Inr us \<longleftrightarrow> us = replicate (length xs) () \<and> list_all (\<lambda>x. f x = Inr ()) xs"
proof (induction xs arbitrary: us)
  case (Cons x xs)
  then show ?case by (cases us) (auto simp: bindr_Inr_iff)
qed auto

lemma validate_header_iff: "validate_header W nv = Inr u \<longleftrightarrow> header_ok W nv"
  by (auto simp: validate_header_def header_ok_def bindr_Inr_iff ensure_Inr_iff with_context_Inr_iff)

lemma validate_metadata_key_iff:
  "validate_metadata_key W (p, k) = Inr u \<longleftrightarrow> (p = HeaderPlace \<longrightarrow> header_name W k \<noteq> None)"
  by (auto simp: validate_metadata_key_def bindr_Inr_iff with_context_Inr_iff)

definition accepted :: "transport_config \<Rightarrow> transport_config" where
  "accepted c = (normalise_path c)\<lparr>uplink_method := to_ascii_uppercase (uplink_method c)\<rparr>"

lemma validate_fields_iff: "validate_fields c = Inr u \<longleftrightarrow> fields_ok c"
  by (simp add: validate_fields_def fields_ok_def bindr_Inr_iff ensure_Inr_iff conj_assoc)

lemma validate_headers_iff:
  "(\<exists>us. map_result (validate_header W) hs = Inr us) \<longleftrightarrow> list_all (header_ok W) hs"
  unfolding map_result_unit_iff by (simp add: validate_header_iff list_all_iff)

lemma ensure_case_option:
  "(case m of None \<Rightarrow> Inr () | Some x \<Rightarrow> ensure (P x) msg) = Inr u \<longleftrightarrow> pred_option P m"
  by (cases m) (auto simp: ensure_Inr_iff)

lemma validate_http_iff: "validate_http W c = Inr u \<longleftrightarrow> http_ok W c"
proof (cases "method_of W (uplink_method c)")
  case (Some m)
  then show ?thesis
    unfolding validate_http_def http_ok_def
    by (simp add: bindr_Inr_iff ensure_Inr_iff ensure_case_option xmux_validate_iff
        validate_metadata_key_iff validate_headers_iff)
qed (simp add: validate_http_def http_ok_def)

lemma validate_iff: "validate W c = Inr c' \<longleftrightarrow> c' = accepted c \<and> transport_ok W c'"
proof -
  obtain p q where n: "normalise_path c = c\<lparr>tc_path := p, tc_query := q\<rparr>"
    using normalise_path_frame by blast
  then have "path_normal p" using normalise_path_normal [of c] by simp
  moreover have "fields_ok (c\<lparr>tc_path := p, tc_query := q, uplink_method := m\<rparr>) =
      fields_ok (c\<lparr>tc_path := p, tc_query := q\<rparr>)" for m
    by (simp add: fields_ok_def)
  ultimately show ?thesis
    by (auto simp: validate_def accepted_def transport_ok_def n Let_def bindr_Inr_iff
        validate_fields_iff validate_http_iff)
qed

lemma accepted_id: "transport_ok W c \<Longrightarrow> accepted c = c"
  by (simp add: accepted_def transport_ok_def normalise_path_id)

lemma no_panic_range_validate [panic_free]: "no_panic (range_validate name r)"
  by (simp add: range_validate_def)

lemma no_panic_xmux_validate [panic_free]: "no_panic (xmux_validate x)"
  unfolding xmux_validate_def by (intro panic_free) simp

end
