(* ===== verification/Xhttp_Protocol.thy ===== *)
theory Xhttp_Protocol
  imports Xhttp_Config
begin

text \<open>
  The request protocol of \<open>protocol.rs\<close>: common headers and the bearer token, padding, the session
  and sequence metadata and the packet payload, each written by the client into the URL, the
  headers or the cookies and read back by the server. The theorems are the round trips.
\<close>

section \<open>Headers, cookies and the request target\<close>

text \<open>
  A \<open>HeaderMap\<close> is the list of its entries under canonical names: \<open>insert\<close> replaces every value of
  the name, \<open>append\<close> adds one, \<open>get\<close> returns the first.
\<close>

type_synonym header_map = "(string \<times> string) list"

definition hdr_insert :: "string \<Rightarrow> string \<Rightarrow> header_map \<Rightarrow> header_map" where
  "hdr_insert n v hs = filter (\<lambda>e. fst e \<noteq> n) hs @ [(n, v)]"

definition hdr_append :: "string \<Rightarrow> string \<Rightarrow> header_map \<Rightarrow> header_map" where
  "hdr_append n v hs = hs @ [(n, v)]"

definition hdr_remove :: "string \<Rightarrow> header_map \<Rightarrow> header_map" where
  "hdr_remove n hs = filter (\<lambda>e. fst e \<noteq> n) hs"

definition hdr_get_all :: "string \<Rightarrow> header_map \<Rightarrow> string list" where
  "hdr_get_all n hs = map snd (filter (\<lambda>e. fst e = n) hs)"

text \<open>\<open>headers.get(name).and_then(|v| v.to_str().ok())\<close>, for a canonical name and for any text.\<close>

definition hdr_text :: "'u web \<Rightarrow> string \<Rightarrow> header_map \<Rightarrow> string option" where
  "hdr_text W n hs =
    (case hdr_get_all n hs of [] \<Rightarrow> None | v # _ \<Rightarrow> if header_text W v then Some v else None)"

definition hdr_text_of :: "'u web \<Rightarrow> string \<Rightarrow> header_map \<Rightarrow> string option" where
  "hdr_text_of W key hs =
    (case header_name W key of None \<Rightarrow> None | Some n \<Rightarrow> hdr_text W n hs)"

text \<open>
  \<open>trim\<close> on the text of a header value: \<open>to_str\<close> admits only visible ASCII and tab, so the white
  space is ASCII.
\<close>

definition ascii_space :: "char \<Rightarrow> bool" where
  "ascii_space c \<longleftrightarrow> (9 \<le> byte_of_char c \<and> byte_of_char c \<le> 13) \<or> byte_of_char c = 32"

definition trim_ascii :: "string \<Rightarrow> string" where
  "trim_ascii s = rev (dropWhile ascii_space (rev (dropWhile ascii_space s)))"

fun find_some :: "('a \<Rightarrow> 'b option) \<Rightarrow> 'a list \<Rightarrow> 'b option" where
  "find_some f [] = None"
| "find_some f (x # xs) = (case f x of Some y \<Rightarrow> Some y | None \<Rightarrow> find_some f xs)"

definition cookie_part :: "string \<Rightarrow> string \<Rightarrow> string option" where
  "cookie_part key part =
    (case split_once CHR ''='' (trim_ascii part) of
       None \<Rightarrow> None
     | Some (name, value) \<Rightarrow> if name = key then Some value else None)"

definition cookie_parts :: "'u web \<Rightarrow> header_map \<Rightarrow> string list" where
  "cookie_parts W hs =
    concat (map (split_on CHR '';'') (filter (header_text W) (hdr_get_all ''cookie'' hs)))"

definition cookie_value :: "'u web \<Rightarrow> header_map \<Rightarrow> string \<Rightarrow> string option" where
  "cookie_value W hs key = find_some (cookie_part key) (cookie_parts W hs)"

definition append_cookie :: "'u web \<Rightarrow> header_map \<Rightarrow> string \<Rightarrow> string \<Rightarrow> header_map result" where
  "append_cookie W hs key value =
    (let cookie = key @ ''='' @ value in
     bindr (ensure (header_value_ok W cookie) ''failed to parse header value'') (\<lambda>_.
     Inr (hdr_append ''cookie'' cookie hs)))"

record uri =
  uri_path :: string
  uri_query :: "string option"

definition query_pairs :: "'u web \<Rightarrow> uri \<Rightarrow> (string \<times> string) list" where
  "query_pairs W u = (case uri_query u of None \<Rightarrow> [] | Some q \<Rightarrow> form_parse W q)"

text \<open>\<open>query_value\<close> keeps the last match; \<open>find_map\<close> in \<open>valid_padding\<close> the first.\<close>

definition query_value :: "'u web \<Rightarrow> uri \<Rightarrow> string \<Rightarrow> string option" where
  "query_value W u key =
    fold (\<lambda>(name, value) found. if name = key then Some value else found) (query_pairs W u) None"

definition first_pair :: "string \<Rightarrow> (string \<times> string) list \<Rightarrow> string option" where
  "first_pair key ps = find_some (\<lambda>(k, v). if k = key then Some v else None) ps"

section \<open>Common headers and the token\<close>

fun add_configured :: "'u web \<Rightarrow> (string \<times> string) list \<Rightarrow> header_map \<Rightarrow> header_map result" where
  "add_configured W [] hs = Inr hs"
| "add_configured W ((name, value) # rest) hs =
    bindr (with_context ''invalid configured header name'' (header_name W name)) (\<lambda>n.
    bindr (ensure (header_value_ok W value) ''invalid configured header value'') (\<lambda>_.
    add_configured W rest (hdr_insert n value hs)))"

definition add_common_headers :: "'u web \<Rightarrow> transport_config \<Rightarrow> header_map \<Rightarrow> header_map result" where
  "add_common_headers W c hs =
    bindr (add_configured W (tc_headers c) hs) (\<lambda>hs.
    case tc_token c of
      None \<Rightarrow> Inr hs
    | Some token \<Rightarrow>
        bindr (ensure (header_value_ok W (bearer token)) ''failed to parse header value'') (\<lambda>_.
        Inr (hdr_insert ''authorization'' (bearer token) hs)))"

definition authorized :: "'u web \<Rightarrow> transport_config \<Rightarrow> header_map \<Rightarrow> bool" where
  "authorized W c hs =
    (case tc_token c of
       None \<Rightarrow> True
     | Some token \<Rightarrow> hdr_text W ''authorization'' hs = Some (bearer token))"

section \<open>Padding\<close>

definition padding_query_key :: string where
  "padding_query_key = ''x_padding''"

definition huffman_length :: "'u web \<Rightarrow> string \<Rightarrow> nat" where
  "huffman_length W value =
    (case huffman W (as_bytes value) of Some encoded \<Rightarrow> length encoded | None \<Rightarrow> length value)"

definition alphabet :: string where
  "alphabet = ''0123456789ABCDEFGHIJKLMNOPQRSTUVWXYZabcdefghijklmnopqrstuvwxyz''"

text \<open>The loop of the \<open>tokenish\<close> padding: \<open>n\<close> rounds are left of the capacity of the vector.\<close>

fun token_loop :: "'u web \<Rightarrow> nat \<Rightarrow> nat \<Rightarrow> nat \<Rightarrow> string \<Rightarrow> string" where
  "token_loop W len 0 idx value = value"
| "token_loop W len (Suc n) idx value =
    (let value' = value @ [alphabet ! ((idx * 37 + len * 17) mod length alphabet)] in
     if huffman_length W value' \<ge> len then value' else token_loop W len n (Suc idx) value')"

definition padding_value :: "'u web \<Rightarrow> string \<Rightarrow> nat \<Rightarrow> string" where
  "padding_value W method len =
    (if method \<noteq> ''tokenish'' then replicate len CHR ''X''
     else token_loop W len (len + len div 2 + 8) 0 [])"

text \<open>The length drawn by \<open>random_range(min..=max)\<close> is \<open>draw\<close>.\<close>

definition padding_length :: "transport_config \<Rightarrow> nat \<Rightarrow> nat" where
  "padding_length c draw = (if padding_min c = padding_max c then padding_min c else draw)"

definition padding_target :: "transport_config \<Rightarrow> placement \<times> string \<times> string" where
  "padding_target c =
    (if padding_obfs c then (padding_placement c, padding_key c, padding_header c)
     else (QueryInHeader, padding_query_key, ''Referer''))"

definition apply_padding ::
    "'u web \<Rightarrow> transport_config \<Rightarrow> nat \<Rightarrow> 'u \<Rightarrow> header_map \<Rightarrow> 'u \<times> header_map" where
  "apply_padding W c draw url hs =
    (let value = padding_value W (padding_method c) (padding_length c draw) in
     case padding_target c of (place, key, header) \<Rightarrow>
       (case place of
          HeaderPlace \<Rightarrow>
            (url, (case header_name W header of
                     Some n \<Rightarrow> if header_value_ok W value then hdr_insert n value hs else hs
                   | None \<Rightarrow> hs))
        | CookiePlace \<Rightarrow> (url, (case append_cookie W hs key value of Inr hs' \<Rightarrow> hs' | Inl _ \<Rightarrow> hs))
        | QueryPlace \<Rightarrow> (url_append_pair W key value url, hs)
        | QueryInHeader \<Rightarrow>
            (let reference = url_append_pair W key value url in
             (url, (case header_name W header of
                      Some n \<Rightarrow> if header_value_ok W (url_text W reference)
                                then hdr_insert n (url_text W reference) hs else hs
                    | None \<Rightarrow> hs)))
        | _ \<Rightarrow> (url, hs)))"

definition padding_found :: "'u web \<Rightarrow> transport_config \<Rightarrow> uri \<Rightarrow> header_map \<Rightarrow> string option" where
  "padding_found W c u hs =
    (case padding_target c of (place, key, header) \<Rightarrow>
       (case place of
          HeaderPlace \<Rightarrow> hdr_text_of W header hs
        | CookiePlace \<Rightarrow> cookie_value W hs key
        | QueryPlace \<Rightarrow> first_pair key (query_pairs W u)
        | QueryInHeader \<Rightarrow>
            (case hdr_text_of W header hs of
               None \<Rightarrow> None
             | Some v \<Rightarrow> (case url_parse W v of
                            None \<Rightarrow> None
                          | Some r \<Rightarrow> first_pair key (url_pairs W r)))
        | _ \<Rightarrow> None))"

definition valid_padding :: "'u web \<Rightarrow> transport_config \<Rightarrow> uri \<Rightarrow> header_map \<Rightarrow> bool" where
  "valid_padding W c u hs =
    (case padding_found W c u hs of
       None \<Rightarrow> False
     | Some value \<Rightarrow>
         (let len = (if padding_method c = ''tokenish'' then huffman_length W value else length value)
          in len + 2 \<ge> padding_min c \<and> len \<le> padding_max c + 2))"

definition apply_response_padding ::
    "'u web \<Rightarrow> transport_config \<Rightarrow> nat \<Rightarrow> header_map \<Rightarrow> header_map" where
  "apply_response_padding W c draw hs =
    (let value = padding_value W (padding_method c) (padding_length c draw) in
     if \<not> padding_obfs c then
       (if header_value_ok W value then hdr_insert ''x-padding'' value hs else hs)
     else (case padding_placement c of
         HeaderPlace \<Rightarrow>
           (case header_name W (padding_header c) of
              Some n \<Rightarrow> if header_value_ok W value then hdr_insert n value hs else hs
            | None \<Rightarrow> hs)
       | CookiePlace \<Rightarrow>
           (let v = padding_key c @ ''='' @ value @ ''; Path=/'' in
            if header_value_ok W v then hdr_append ''set-cookie'' v hs else hs)
       | _ \<Rightarrow> hs))"

section \<open>Session and sequence metadata\<close>

definition apply_value ::
    "'u web \<Rightarrow> placement \<Rightarrow> string \<Rightarrow> string \<Rightarrow> 'u \<times> header_map \<Rightarrow> ('u \<times> header_map) result" where
  "apply_value W place key value req =
    (case req of (url, hs) \<Rightarrow>
     (case place of
        PathPlace \<Rightarrow>
          Inr (url_set_path W (trim_end_matches CHR ''/'' (url_path W url) @ ''/'' @ value) url, hs)
      | QueryPlace \<Rightarrow> Inr (url_append_pair W key value url, hs)
      | HeaderPlace \<Rightarrow>
          bindr (with_context ''invalid HTTP header name'' (header_name W key)) (\<lambda>n.
          bindr (ensure (header_value_ok W value) ''failed to parse header value'') (\<lambda>_.
          Inr (url, hdr_insert n value hs)))
      | CookiePlace \<Rightarrow> bindr (append_cookie W hs key value) (\<lambda>hs'. Inr (url, hs'))
      | _ \<Rightarrow> Inl (Bail ''invalid metadata placement'')))"

definition apply_metadata ::
    "'u web \<Rightarrow> transport_config \<Rightarrow> 'u \<times> header_map \<Rightarrow> string option \<Rightarrow> u64 option
     \<Rightarrow> ('u \<times> header_map) result" where
  "apply_metadata W c req session sequence =
    bindr (case session of
             None \<Rightarrow> Inr req
           | Some value \<Rightarrow> apply_value W (session_placement c) (session_key c) value req) (\<lambda>req.
    case sequence of
      None \<Rightarrow> Inr req
    | Some value \<Rightarrow>
        apply_value W (sequence_placement c) (sequence_key c) (nat_to_string (unat value)) req)"

definition path_values :: "transport_config \<Rightarrow> string \<Rightarrow> string list" where
  "path_values c path =
    (let suffix = (case strip_prefix path (tc_path c) of Some s \<Rightarrow> s | None \<Rightarrow> []) in
     filter (\<lambda>v. v \<noteq> []) (split_on CHR ''/'' (trim_matches CHR ''/'' suffix)))"

text \<open>The closure \<open>read\<close> consumes the path segments in turn, so it returns the ones left.\<close>

definition read_value ::
    "'u web \<Rightarrow> uri \<Rightarrow> header_map \<Rightarrow> placement \<Rightarrow> string \<Rightarrow> string list \<Rightarrow> string option \<times> string list" where
  "read_value W u hs place key segments =
    (case place of
       PathPlace \<Rightarrow> (case segments of [] \<Rightarrow> (None, []) | s # rest \<Rightarrow> (Some s, rest))
     | QueryPlace \<Rightarrow> (query_value W u key, segments)
     | HeaderPlace \<Rightarrow> (hdr_text_of W key hs, segments)
     | CookiePlace \<Rightarrow> (cookie_value W hs key, segments)
     | _ \<Rightarrow> (None, segments))"

definition parse_u64 :: "string \<Rightarrow> u64 option" where
  "parse_u64 s = map_option word_of_nat (parse_uint 64 s)"

definition extract_metadata ::
    "'u web \<Rightarrow> transport_config \<Rightarrow> uri \<Rightarrow> header_map \<Rightarrow> string option \<times> u64 option" where
  "extract_metadata W c u hs =
    (case read_value W u hs (session_placement c) (session_key c) (path_values c (uri_path u)) of
       (session, segments) \<Rightarrow>
         (case read_value W u hs (sequence_placement c) (sequence_key c) segments of
            (sequence, _) \<Rightarrow>
              (session, (case sequence of None \<Rightarrow> None | Some v \<Rightarrow> parse_u64 v))))"

section \<open>The packet payload\<close>

function chunks :: "nat \<Rightarrow> 'a list \<Rightarrow> 'a list list" where
  "chunks n xs = (if xs = [] \<or> n = 0 then [] else take n xs # chunks n (drop n xs))"
  by auto
termination
  by (relation "measure (\<lambda>(n, xs). length xs)") auto

declare chunks.simps [simp del]

definition numbered_key :: "transport_config \<Rightarrow> string \<Rightarrow> nat \<Rightarrow> string" where
  "numbered_key c separator idx = data_key c @ separator @ nat_to_string idx"

fun put_headers ::
    "'u web \<Rightarrow> transport_config \<Rightarrow> nat \<Rightarrow> string list \<Rightarrow> header_map \<Rightarrow> header_map result" where
  "put_headers W c idx [] hs = Inr hs"
| "put_headers W c idx (chunk # rest) hs =
    bindr (with_context ''invalid HTTP header name'' (header_name W (numbered_key c ''-'' idx))) (\<lambda>n.
    bindr (ensure (header_value_ok W chunk) ''failed to parse header value'') (\<lambda>_.
    put_headers W c (Suc idx) rest (hdr_insert n chunk hs)))"

fun put_cookies ::
    "'u web \<Rightarrow> transport_config \<Rightarrow> nat \<Rightarrow> string list \<Rightarrow> header_map \<Rightarrow> header_map result" where
  "put_cookies W c idx [] hs = Inr hs"
| "put_cookies W c idx (chunk # rest) hs =
    bindr (from_utf8 (as_bytes chunk)) (\<lambda>text.
    bindr (append_cookie W hs (numbered_key c ''_'' idx) text) (\<lambda>hs'.
    put_cookies W c (Suc idx) rest hs'))"

definition put_payload ::
    "'u web \<Rightarrow> transport_config \<Rightarrow> bytes \<Rightarrow> header_map \<Rightarrow> (bytes option \<times> header_map) result" where
  "put_payload W c payload hs =
    (case data_placement c of
       BodyPlace \<Rightarrow> Inr (Some payload, hs)
     | AutoPlace \<Rightarrow> Inr (Some payload, hs)
     | HeaderPlace \<Rightarrow>
         bindr (put_headers W c 0 (chunks 3000 (b64_encode W payload)) hs) (\<lambda>hs'. Inr (None, hs'))
     | CookiePlace \<Rightarrow>
         bindr (put_cookies W c 0 (chunks 2000 (b64_encode W payload)) hs) (\<lambda>hs'. Inr (None, hs'))
     | _ \<Rightarrow> Inl (Bail ''invalid payload placement''))"

text \<open>
  \<open>for index in 0..\<close> runs until a key is missing. The recursion carries fuel; a request has
  finitely many headers and cookies, and \<open>numbered_fuel\<close> of them is always enough
  (\<open>collect_headers_returns\<close>, \<open>collect_cookies_returns\<close> below).
\<close>

fun collect_numbered ::
    "nat \<Rightarrow> transport_config \<Rightarrow> (string \<Rightarrow> string option) \<Rightarrow> string \<Rightarrow> nat \<Rightarrow> string option" where
  "collect_numbered 0 c lookup separator idx = None"
| "collect_numbered (Suc fuel) c lookup separator idx =
    (case lookup (numbered_key c separator idx) of
       None \<Rightarrow> Some []
     | Some value \<Rightarrow>
         map_option (\<lambda>rest. value @ rest) (collect_numbered fuel c lookup separator (Suc idx)))"

definition numbered_fuel :: "'u web \<Rightarrow> header_map \<Rightarrow> nat" where
  "numbered_fuel W hs = Suc (length hs + length (cookie_parts W hs))"

definition collect_headers :: "'u web \<Rightarrow> transport_config \<Rightarrow> header_map \<Rightarrow> string option" where
  "collect_headers W c hs =
    collect_numbered (numbered_fuel W hs) c (\<lambda>key. hdr_text_of W key hs) ''-'' 0"

definition collect_cookies :: "'u web \<Rightarrow> transport_config \<Rightarrow> header_map \<Rightarrow> string option" where
  "collect_cookies W c hs =
    collect_numbered (numbered_fuel W hs) c (cookie_value W hs) ''_'' 0"

definition decode_payload :: "'u web \<Rightarrow> string \<Rightarrow> bytes result" where
  "decode_payload W encoded = with_context ''invalid base64url packet payload'' (b64_decode W encoded)"

definition extract_payload ::
    "'u web \<Rightarrow> transport_config \<Rightarrow> header_map \<Rightarrow> bytes \<Rightarrow> bytes result option" where
  "extract_payload W c hs body =
    (case data_placement c of
       AutoPlace \<Rightarrow>
         Option.bind (collect_headers W c hs) (\<lambda>in_headers.
         Option.bind (collect_cookies W c hs) (\<lambda>in_cookies. Some (
           bindr (if in_headers = [] then Inr [] else decode_payload W in_headers) (\<lambda>a.
           bindr (if in_cookies = [] then Inr [] else decode_payload W in_cookies) (\<lambda>b.
           Inr (a @ b @ body))))))
     | BodyPlace \<Rightarrow> Some (Inr body)
     | HeaderPlace \<Rightarrow> map_option (decode_payload W) (collect_headers W c hs)
     | CookiePlace \<Rightarrow> map_option (decode_payload W) (collect_cookies W c hs)
     | _ \<Rightarrow> Some (Inl (Bail ''invalid payload placement'')))"

definition extract_payload_bytes ::
    "'u web \<Rightarrow> transport_config \<Rightarrow> header_map \<Rightarrow> bytes \<Rightarrow> bytes result option" where
  "extract_payload_bytes W c hs body =
    (case data_placement c of
       BodyPlace \<Rightarrow> Some (Inr body)
     | _ \<Rightarrow> extract_payload W c hs body)"

section \<open>What the crates promise\<close>

definition visible :: "char \<Rightarrow> bool" where
  "visible c \<longleftrightarrow> 0x20 \<le> byte_of_char c \<and> byte_of_char c \<le> 0x7E"

text \<open>The characters of identifiers, decimal numbers and unpadded base64url text.\<close>

definition plain_char :: "char \<Rightarrow> bool" where
  "plain_char c \<longleftrightarrow>
    (let b = byte_of_char c in
     (0x30 \<le> b \<and> b \<le> 0x39) \<or> (0x41 \<le> b \<and> b \<le> 0x5A) \<or> (0x61 \<le> b \<and> b \<le> 0x7A) \<or>
     b = 0x2D \<or> b = 0x5F)"

definition plain :: "string \<Rightarrow> bool" where
  "plain s \<longleftrightarrow> list_all plain_char s"

text \<open>
  The documented behaviour the transport relies on: header names are compared in lower case,
  visible ASCII is a header value and its text, a URL is parsed back from its text, a path that is
  the path of a URL extended by a plain segment is kept as it is, an appended query pair is the
  last one, and base64 decodes what it encoded.
\<close>

definition web_laws :: "'u web \<Rightarrow> bool" where
  "web_laws W \<longleftrightarrow>
    (\<forall>s n. header_name W s = Some n \<longrightarrow> n = to_ascii_lowercase s) \<and>
    (\<forall>v. list_all visible v \<longrightarrow> header_value_ok W v \<and> header_text W v) \<and>
    (\<forall>u. url_parse W (url_text W u) = Some u \<and> list_all visible (url_text W u)) \<and>
    (\<forall>u v. plain v \<longrightarrow>
       url_path W (url_set_path W (trim_end_matches CHR ''/'' (url_path W u) @ ''/'' @ v) u) =
       trim_end_matches CHR ''/'' (url_path W u) @ ''/'' @ v) \<and>
    (\<forall>p u. url_pairs W (url_set_path W p u) = url_pairs W u) \<and>
    (\<forall>k v u. url_pairs W (url_append_pair W k v u) = url_pairs W u @ [(k, v)]) \<and>
    (\<forall>k v u. url_path W (url_append_pair W k v u) = url_path W u) \<and>
    (\<forall>b. b64_decode W (b64_encode W b) = Some b \<and> plain (b64_encode W b))"

lemma web_lawsD:
  assumes "web_laws W"
  shows "\<And>s n. header_name W s = Some n \<Longrightarrow> n = to_ascii_lowercase s"
    and "\<And>v. list_all visible v \<Longrightarrow> header_value_ok W v"
    and "\<And>v. list_all visible v \<Longrightarrow> header_text W v"
    and "\<And>u. url_parse W (url_text W u) = Some u"
    and "\<And>u. list_all visible (url_text W u)"
    and "\<And>u v. plain v \<Longrightarrow>
       url_path W (url_set_path W (trim_end_matches CHR ''/'' (url_path W u) @ CHR ''/'' # v) u) =
       trim_end_matches CHR ''/'' (url_path W u) @ CHR ''/'' # v"
    and "\<And>p u. url_pairs W (url_set_path W p u) = url_pairs W u"
    and "\<And>k v u. url_pairs W (url_append_pair W k v u) = url_pairs W u @ [(k, v)]"
    and "\<And>k v u. url_path W (url_append_pair W k v u) = url_path W u"
    and "\<And>b. b64_decode W (b64_encode W b) = Some b"
    and "\<And>b. plain (b64_encode W b)"
  using assms by (auto simp: web_laws_def)

lemma plain_char_props:
  "plain_char c \<Longrightarrow> visible c \<and> is_ascii c \<and> \<not> ascii_space c \<and> c \<notin> set '';=/''"
  by (auto simp: plain_char_def visible_def is_ascii_def ascii_space_def Let_def
      word_le_nat_alt word_less_nat_alt word_unat_eq_iff unat_byte_of_char)

lemma plain_visible: "plain s \<Longrightarrow> list_all visible s"
  by (auto simp: plain_def list_all_iff dest: plain_char_props)

lemma plain_no_sep:
  "plain s \<Longrightarrow> CHR '';'' \<notin> set s \<and> CHR ''='' \<notin> set s \<and> CHR ''/'' \<notin> set s"
  using plain_char_props by (fastforce simp: plain_def list_all_iff)

lemma plain_append [simp]: "plain (s @ t) \<longleftrightarrow> plain s \<and> plain t"
  by (simp add: plain_def)

lemma plain_nat_to_string: "plain (nat_to_string n)"
proof (induction n rule: nat_to_string.induct)
  case (1 n)
  have d: "plain [digit_char d]" if "d < 10" for d
    using less_10_cases [OF that]
    by (elim disjE; simp add: plain_def plain_char_def digit_char_def byte_of_char_def)
  show ?case
    using 1 d [of n] d [of "n mod 10"] by (cases "n < 10") (simp_all add: nat_to_string.simps [of n])
qed

lemma nat_to_string_inj: "nat_to_string m = nat_to_string n \<longleftrightarrow> m = n"
  by (metis parse_digits_nat_to_string option.inject)

lemma parse_u64_to_string: "parse_u64 (nat_to_string (unat n)) = Some n"
proof -
  have "unat n < 2 ^ 64" using unsigned_less [of n] by simp
  then show ?thesis by (simp add: parse_u64_def parse_uint_nat_to_string)
qed

section \<open>Reading back headers, cookies and pairs\<close>

lemma hdr_get_all_insert [simp]:
  "hdr_get_all n (hdr_insert m v hs) = (if n = m then [v] else hdr_get_all n hs)"
proof (cases "n = m")
  case False
  then have "filter (\<lambda>e. fst e \<noteq> m \<and> fst e = n) hs = filter (\<lambda>e. fst e = n) hs"
    by (intro filter_cong) auto
  with False show ?thesis by (simp add: hdr_get_all_def hdr_insert_def)
qed (simp add: hdr_get_all_def hdr_insert_def)

lemma hdr_get_all_append [simp]:
  "hdr_get_all n (hdr_append m v hs) = hdr_get_all n hs @ (if n = m then [v] else [])"
  by (simp add: hdr_get_all_def hdr_append_def)

lemma hdr_text_insert [simp]:
  "hdr_text W n (hdr_insert m v hs) =
    (if n = m then (if header_text W v then Some v else None) else hdr_text W n hs)"
  by (simp add: hdr_text_def)

lemma hdr_text_append_other [simp]:
  "n \<noteq> m \<Longrightarrow> hdr_text W n (hdr_append m v hs) = hdr_text W n hs"
  by (simp add: hdr_text_def)

lemma find_some_append:
  "find_some f (xs @ ys) = (case find_some f xs of Some y \<Rightarrow> Some y | None \<Rightarrow> find_some f ys)"
  by (induction xs) (auto split: option.splits)

lemma find_some_Some: "find_some f xs = Some y \<Longrightarrow> \<exists>x \<in> set xs. f x = Some y"
  by (induction xs) (auto split: option.splits)

lemma cookie_value_insert_other [simp]:
  "n \<noteq> ''cookie'' \<Longrightarrow> cookie_value W (hdr_insert n v hs) key = cookie_value W hs key"
  by (simp add: cookie_value_def cookie_parts_def)

definition cookie_key :: "string \<Rightarrow> bool" where
  "cookie_key k \<longleftrightarrow> list_all visible k \<and> CHR '';'' \<notin> set k \<and> CHR ''='' \<notin> set k \<and>
    (k \<noteq> [] \<longrightarrow> \<not> ascii_space (hd k))"

lemma trim_ascii_id:
  "s \<noteq> [] \<Longrightarrow> \<not> ascii_space (hd s) \<Longrightarrow> \<not> ascii_space (last s) \<Longrightarrow> trim_ascii s = s"
proof -
  assume s: "s \<noteq> []" "\<not> ascii_space (hd s)" "\<not> ascii_space (last s)"
  then have "dropWhile ascii_space s = s" by (cases s) auto
  moreover from s have "dropWhile ascii_space (rev s) = rev s" by (cases s rule: rev_cases) auto
  ultimately show ?thesis by (simp add: trim_ascii_def)
qed

lemma equals_not_space: "\<not> ascii_space CHR ''=''"
  by (simp add: ascii_space_def byte_of_char_def)

lemma plain_last: "plain v \<Longrightarrow> v \<noteq> [] \<Longrightarrow> \<not> ascii_space (last v)"
  using plain_char_props by (auto simp: plain_def list_all_iff)

lemma cookie_part_made:
  assumes "cookie_key k" and "plain v"
  shows "cookie_part key (k @ ''='' @ v) = (if k = key then Some v else None)"
proof -
  have "trim_ascii (k @ CHR ''='' # v) = k @ CHR ''='' # v"
    using assms by (intro trim_ascii_id)
      (auto simp: cookie_key_def equals_not_space plain_last hd_append)
  moreover have "split_once CHR ''='' (k @ CHR ''='' # v) = Some (k, v)"
    using assms by (intro split_once_append) (simp add: cookie_key_def)
  ultimately show ?thesis by (simp add: cookie_part_def)
qed

lemma cookie_text:
  "web_laws W \<Longrightarrow> cookie_key k \<Longrightarrow> plain v \<Longrightarrow>
   header_value_ok W (k @ ''='' @ v) \<and> header_text W (k @ ''='' @ v)"
  using web_lawsD(2,3) [of W "k @ ''='' @ v"] plain_visible [of v]
  by (auto simp: cookie_key_def visible_def byte_of_char_def)

lemma append_cookie_ok:
  "web_laws W \<Longrightarrow> cookie_key k \<Longrightarrow> plain v \<Longrightarrow>
   append_cookie W hs k v = Inr (hdr_append ''cookie'' (k @ ''='' @ v) hs)"
  using cookie_text [of W k v] by (simp add: append_cookie_def)

lemma cookie_value_append:
  assumes "web_laws W" and "cookie_key k" and "plain v"
  shows "cookie_value W (hdr_append ''cookie'' (k @ ''='' @ v) hs) key =
    (case cookie_value W hs key of
       Some x \<Rightarrow> Some x
     | None \<Rightarrow> if k = key then Some v else None)"
proof -
  have "CHR '';'' \<notin> set (k @ ''='' @ v)"
    using assms plain_no_sep [of v] by (auto simp: cookie_key_def)
  then have "cookie_parts W (hdr_append ''cookie'' (k @ ''='' @ v) hs) =
      cookie_parts W hs @ [k @ ''='' @ v]"
    using cookie_text [OF assms] by (simp add: cookie_parts_def split_on_no_sep)
  then show ?thesis
    using cookie_part_made [OF assms(2,3), of key]
    by (auto simp: cookie_value_def find_some_append split: option.splits)
qed

definition last_pair :: "string \<Rightarrow> (string \<times> string) list \<Rightarrow> string option" where
  "last_pair key ps = fold (\<lambda>(name, value) found. if name = key then Some value else found) ps None"

lemma last_pair_snoc [simp]:
  "last_pair key (ps @ [(k, v)]) = (if k = key then Some v else last_pair key ps)"
  by (simp add: last_pair_def)

lemma first_pair_snoc:
  "first_pair key (ps @ [(k, v)]) =
    (case first_pair key ps of Some x \<Rightarrow> Some x | None \<Rightarrow> if k = key then Some v else None)"
  by (simp add: first_pair_def find_some_append split: option.splits)

text \<open>The request target the server sees is the URL the client requested.\<close>

definition carries :: "'u web \<Rightarrow> 'u \<Rightarrow> uri \<Rightarrow> bool" where
  "carries W url u \<longleftrightarrow> uri_path u = url_path W url \<and> query_pairs W u = url_pairs W url"

section \<open>The metadata round trip\<close>

text \<open>A path of the configured base with the segments \<open>vs\<close> behind it.\<close>

definition seg_path :: "transport_config \<Rightarrow> string list \<Rightarrow> string" where
  "seg_path c vs = trim_end_matches CHR ''/'' (tc_path c) @ concat (map (\<lambda>v. CHR ''/'' # v) vs)"

definition path_at :: "transport_config \<Rightarrow> string \<Rightarrow> string list \<Rightarrow> bool" where
  "path_at c path vs \<longleftrightarrow>
    trim_end_matches CHR ''/'' path = seg_path c vs \<and> path_values c path = vs"

definition base_path :: "transport_config \<Rightarrow> string \<Rightarrow> bool" where
  "base_path c path \<longleftrightarrow> path = tc_path c \<or> path = tc_path c @ ''/''"

lemma strip_prefix_append [simp]: "strip_prefix (p @ s) p = Some s"
  by (simp add: strip_prefix_def starts_with_def)

lemma concat_slashes:
  "vs \<noteq> [] \<Longrightarrow> concat (map (\<lambda>v. CHR ''/'' # v) vs) = CHR ''/'' # join ''/'' vs"
  by (induction "''/''" vs rule: join.induct) auto

lemma trim_end_append: "s \<noteq> [] \<Longrightarrow> last s \<noteq> c \<Longrightarrow> trim_end_matches c (p @ s) = p @ s"
  by (rule trim_end_matches_id) simp

lemma trim_end_snoc: "trim_end_matches c (s @ [c]) = trim_end_matches c s"
  by (simp add: trim_end_matches_def)

lemma ends_notin: "s \<noteq> [] \<Longrightarrow> c \<notin> set s \<Longrightarrow> hd s \<noteq> c \<and> last s \<noteq> c"
  by (metis hd_in_set last_in_set)

lemma join_ends:
  assumes "vs \<noteq> []" and "list_all (\<lambda>v. v \<noteq> [] \<and> CHR ''/'' \<notin> set v) vs"
  shows "join ''/'' vs \<noteq> [] \<and> hd (join ''/'' vs) \<noteq> CHR ''/'' \<and> last (join ''/'' vs) \<noteq> CHR ''/''"
  using assms by (induction "''/''" vs rule: join.induct) (auto simp: hd_append dest: ends_notin)

lemma trim_matches_slashed:
  assumes "s \<noteq> []" and "hd s \<noteq> CHR ''/''" and "last s \<noteq> CHR ''/''"
  shows "trim_matches CHR ''/'' s = s" and "trim_matches CHR ''/'' (CHR ''/'' # s) = s"
  using assms
  by (cases s; auto simp: trim_matches_def trim_start_matches_def trim_end_matches_id)+

lemma path_normal_cases:
  assumes "path_normal p"
  obtains "p = ''/''" "trim_end_matches CHR ''/'' p = []"
    | "trim_end_matches CHR ''/'' p = p" "p \<noteq> []"
proof (cases "length p > 1")
  case True
  with assms that show ?thesis by (auto simp: path_normal_def trim_end_matches_id)
next
  case False
  with assms have "p = ''/''" by (cases p) (auto simp: path_normal_def)
  with that show ?thesis by (simp add: trim_end_matches_def)
qed

definition segment :: "string \<Rightarrow> bool" where
  "segment v \<longleftrightarrow> v \<noteq> [] \<and> plain v"

lemma segment_slashless: "list_all segment vs \<Longrightarrow> list_all (\<lambda>v. v \<noteq> [] \<and> CHR ''/'' \<notin> set v) vs"
  using plain_no_sep by (auto simp: segment_def list_all_iff)

lemma path_values_seg_path:
  assumes "path_normal (tc_path c)" and "list_all segment vs" and "vs \<noteq> []"
  shows "path_values c (seg_path c vs) = vs"
proof -
  let ?j = "join ''/'' vs"
  note slashless = segment_slashless [OF assms(2)]
  note ends = join_ends [OF assms(3) slashless]
  have "\<exists>s. strip_prefix (seg_path c vs) (tc_path c) = Some s \<and> trim_matches CHR ''/'' s = ?j"
    using assms(1)
  proof (cases rule: path_normal_cases)
    case 1
    then have "seg_path c vs = tc_path c @ ?j"
      using assms(3) by (simp add: seg_path_def concat_slashes)
    with ends show ?thesis by (simp add: trim_matches_slashed(1))
  next
    case 2
    then have "seg_path c vs = tc_path c @ CHR ''/'' # ?j"
      using assms(3) by (simp add: seg_path_def concat_slashes)
    with ends show ?thesis by (simp add: trim_matches_slashed(2))
  qed
  moreover have "split_on CHR ''/'' ?j = vs"
    using slashless assms(3) by (intro split_on_join) (auto simp: list_all_iff)
  moreover have "filter (\<lambda>v. v \<noteq> []) vs = vs"
    using slashless by (auto simp: list_all_iff intro: filter_True)
  ultimately show ?thesis by (auto simp: path_values_def)
qed

lemma path_at_base:
  assumes "path_normal (tc_path c)" and "base_path c path"
  shows "path_at c path []"
proof -
  have "path_values c path = []"
    using assms(2) strip_prefix_append [of "tc_path c" "[]"]
    by (auto simp: base_path_def path_values_def trim_matches_def trim_start_matches_def
        trim_end_matches_def)
  moreover have "trim_end_matches CHR ''/'' path = trim_end_matches CHR ''/'' (tc_path c)"
    using assms(2) by (auto simp: base_path_def trim_end_snoc)
  ultimately show ?thesis by (simp add: path_at_def seg_path_def)
qed

lemma path_at_push:
  assumes "path_normal (tc_path c)" and "path_at c path vs" and "list_all segment (vs @ [v])"
  shows "path_at c (trim_end_matches CHR ''/'' path @ CHR ''/'' # v) (vs @ [v])"
proof -
  have e: "trim_end_matches CHR ''/'' path @ CHR ''/'' # v = seg_path c (vs @ [v])"
    using assms(2) by (simp add: path_at_def seg_path_def)
  have "v \<noteq> []" "last v \<noteq> CHR ''/''"
    using assms(3) segment_slashless [of "[v]"] by (auto dest: ends_notin)
  then have "trim_end_matches CHR ''/'' (seg_path c (vs @ [v])) = seg_path c (vs @ [v])"
    unfolding seg_path_def by (simp flip: append_assoc add: trim_end_matches_id)
  with e path_values_seg_path [OF assms(1,3)] show ?thesis by (simp add: path_at_def)
qed

text \<open>The keys the configuration must choose: none shadows the cookie header or another key.\<close>

definition key_ok :: "'u web \<Rightarrow> placement \<Rightarrow> string \<Rightarrow> bool" where
  "key_ok W place key \<longleftrightarrow>
    (place = HeaderPlace \<longrightarrow> header_name W key \<noteq> None \<and> header_name W key \<noteq> Some ''cookie'') \<and>
    (place = CookiePlace \<longrightarrow> cookie_key key)"

definition keys_apart :: "transport_config \<Rightarrow> bool" where
  "keys_apart c \<longleftrightarrow>
    (session_placement c = sequence_placement c \<and> session_placement c \<noteq> PathPlace \<longrightarrow>
     to_ascii_lowercase (session_key c) \<noteq> to_ascii_lowercase (sequence_key c))"

definition metadata_keys_ok :: "'u web \<Rightarrow> transport_config \<Rightarrow> bool" where
  "metadata_keys_ok W c \<longleftrightarrow> key_ok W (session_placement c) (session_key c) \<and>
    key_ok W (sequence_placement c) (sequence_key c) \<and> keys_apart c"

text \<open>The base request says nothing under the key.\<close>

definition unclaimed :: "'u web \<Rightarrow> 'u \<Rightarrow> header_map \<Rightarrow> placement \<Rightarrow> string \<Rightarrow> bool" where
  "unclaimed W url hs place key \<longleftrightarrow>
    (case place of
       QueryPlace \<Rightarrow> last_pair key (url_pairs W url) = None
     | HeaderPlace \<Rightarrow> hdr_text_of W key hs = None
     | CookiePlace \<Rightarrow> cookie_value W hs key = None
     | _ \<Rightarrow> True)"

text \<open>What the server reads at a placement, from the segments, the pairs and the headers.\<close>

definition read_at :: "'u web \<Rightarrow> 'u \<Rightarrow> header_map \<Rightarrow> placement \<Rightarrow> string \<Rightarrow> string option" where
  "read_at W url hs place key =
    (case place of
       QueryPlace \<Rightarrow> last_pair key (url_pairs W url)
     | HeaderPlace \<Rightarrow> hdr_text_of W key hs
     | CookiePlace \<Rightarrow> cookie_value W hs key
     | _ \<Rightarrow> None)"

lemma read_value_carried:
  "carries W url u \<Longrightarrow> place \<noteq> PathPlace \<Longrightarrow>
   read_value W u hs place key segs = (read_at W url hs place key, segs)"
  by (cases place) (auto simp: read_value_def read_at_def carries_def query_value_def last_pair_def)

lemma unclaimed_read: "unclaimed W url hs place key \<Longrightarrow> read_at W url hs place key = None"
  by (cases place) (auto simp: unclaimed_def read_at_def)

lemma header_names_apart:
  assumes "web_laws W" and "header_name W a = Some n" and "to_ascii_lowercase a \<noteq> to_ascii_lowercase b"
  shows "header_name W b \<noteq> Some n"
  using assms web_lawsD(1) by metis

definition kept :: "'u web \<Rightarrow> placement \<Rightarrow> string \<Rightarrow> 'u \<times> header_map \<Rightarrow> 'u \<times> header_map \<Rightarrow> bool" where
  "kept W place key req req' \<longleftrightarrow>
    (\<forall>p k. key_ok W p k \<longrightarrow>
      (p = place \<longrightarrow> to_ascii_lowercase k \<noteq> to_ascii_lowercase key) \<longrightarrow>
      read_at W (fst req') (snd req') p k = read_at W (fst req) (snd req) p k)"

lemma apply_value_effect:
  assumes laws: "web_laws W" and place: "metadata_placement place" "key_ok W place key"
    and v: "segment v" and free: "unclaimed W url hs place key"
  obtains url' hs' where "apply_value W place key v (url, hs) = Inr (url', hs')"
    and "url_path W url' =
          (if place = PathPlace then trim_end_matches CHR ''/'' (url_path W url) @ CHR ''/'' # v
           else url_path W url)"
    and "place \<noteq> PathPlace \<longrightarrow> read_at W url' hs' place key = Some v"
    and "kept W place key (url, hs) (url', hs')"
proof -
  have pv: "plain v" and ok: "header_value_ok W v" "header_text W v"
    using v web_lawsD(2,3) [OF laws] plain_visible by (auto simp: segment_def)
  show ?thesis
  proof (cases place)
    case PathPlace
    have "read_at W (url_set_path W p url) hs q k = read_at W url hs q k" for p q k
      by (cases q) (auto simp: read_at_def web_lawsD(7) [OF laws])
    with PathPlace that web_lawsD(6) [OF laws pv, of url] show ?thesis
      by (auto simp: kept_def apply_value_def)
  next
    case QueryPlace
    have "read_at W (url_append_pair W key v url) hs p k = read_at W url hs p k"
      if "p = QueryPlace \<Longrightarrow> to_ascii_lowercase k \<noteq> to_ascii_lowercase key" for p k
      using that by (cases p) (auto simp: read_at_def web_lawsD(8) [OF laws])
    with QueryPlace that show ?thesis
      by (auto simp: kept_def apply_value_def web_lawsD(8,9) [OF laws] read_at_def)
  next
    case HeaderPlace
    then obtain n where n: "header_name W key = Some n" "n \<noteq> ''cookie''"
      using place by (auto simp: key_ok_def)
    have "read_at W url (hdr_insert n v hs) p k = read_at W url hs p k"
      if "key_ok W p k" "p = HeaderPlace \<Longrightarrow> to_ascii_lowercase k \<noteq> to_ascii_lowercase key" for p k
      using that n header_names_apart [OF laws n(1), of k]
      by (cases p) (auto simp: read_at_def hdr_text_of_def split: option.splits)
    with HeaderPlace that n ok show ?thesis
      by (auto simp: kept_def apply_value_def read_at_def hdr_text_of_def)
  next
    case CookiePlace
    then have ck: "cookie_key key" using place by (simp add: key_ok_def)
    have "read_at W url (hdr_append ''cookie'' (key @ ''='' @ v) hs) p k = read_at W url hs p k"
      if "key_ok W p k" "p = CookiePlace \<Longrightarrow> to_ascii_lowercase k \<noteq> to_ascii_lowercase key" for p k
      using that cookie_value_append [OF laws ck pv, of hs k]
      by (cases p) (auto simp: read_at_def hdr_text_of_def key_ok_def split: option.splits)
    moreover have "read_at W url (hdr_append ''cookie'' (key @ ''='' @ v) hs) CookiePlace key = Some v"
      using free CookiePlace cookie_value_append [OF laws ck pv, of hs key]
      by (simp add: read_at_def unclaimed_def)
    ultimately show ?thesis
      using CookiePlace that append_cookie_ok [OF laws ck pv] by (auto simp: kept_def apply_value_def)
  qed (use place in \<open>auto simp: metadata_placement_def\<close>)
qed

lemma apply_metadata_effect:
  assumes laws: "web_laws W" and path: "path_normal (tc_path c)"
    and places: "metadata_placement (session_placement c)" "metadata_placement (sequence_placement c)"
    and keys: "metadata_keys_ok W c" and id: "segment session"
    and base: "base_path c (url_path W url)"
    and free: "unclaimed W url hs (session_placement c) (session_key c)"
      "unclaimed W url hs (sequence_placement c) (sequence_key c)"
  obtains url' hs' where
    "apply_metadata W c (url, hs) (Some session) sequence = Inr (url', hs')"
    and "path_values c (url_path W url') =
          (if session_placement c = PathPlace then [session] else []) @
          (if sequence_placement c = PathPlace
           then map (\<lambda>n. nat_to_string (unat n)) (case sequence of None \<Rightarrow> [] | Some n \<Rightarrow> [n]) else [])"
    and "session_placement c \<noteq> PathPlace \<longrightarrow>
          read_at W url' hs' (session_placement c) (session_key c) = Some session"
    and "sequence_placement c \<noteq> PathPlace \<longrightarrow>
          read_at W url' hs' (sequence_placement c) (sequence_key c) =
          map_option (\<lambda>n. nat_to_string (unat n)) sequence"
proof -
  let ?P = "session_placement c" and ?Q = "sequence_placement c"
  have ok: "key_ok W ?P (session_key c)" "key_ok W ?Q (sequence_key c)"
    and apart: "?P = ?Q \<and> ?P \<noteq> PathPlace \<Longrightarrow>
      to_ascii_lowercase (session_key c) \<noteq> to_ascii_lowercase (sequence_key c)"
    using keys by (auto simp: metadata_keys_ok_def keys_apart_def)
  obtain u1 h1 where one: "apply_value W ?P (session_key c) session (url, hs) = Inr (u1, h1)"
    and p1: "url_path W u1 = (if ?P = PathPlace then
          trim_end_matches CHR ''/'' (url_path W url) @ CHR ''/'' # session else url_path W url)"
    and r1: "?P \<noteq> PathPlace \<longrightarrow> read_at W u1 h1 ?P (session_key c) = Some session"
    and f1: "kept W ?P (session_key c) (url, hs) (u1, h1)"
    using apply_value_effect [OF laws places(1) ok(1) id free(1)] by blast
  have at1: "path_at c (url_path W u1) (if ?P = PathPlace then [session] else [])"
    using path_at_base [OF path base] path_at_push [OF path, of "url_path W url" "[]" session] id
    by (simp add: p1)
  have q1: "read_at W u1 h1 ?Q (sequence_key c) = None"
  proof (cases "?Q = PathPlace")
    case False
    then have "?Q = ?P \<longrightarrow> to_ascii_lowercase (sequence_key c) \<noteq> to_ascii_lowercase (session_key c)"
      using apart by metis
    with f1 ok(2) unclaimed_read [OF free(2)] show ?thesis unfolding kept_def by simp
  qed (simp add: read_at_def)
  show ?thesis
  proof (cases sequence)
    case None
    with that [of u1 h1] one r1 q1 at1 show ?thesis by (auto simp: apply_metadata_def path_at_def)
  next
    case (Some n)
    let ?v = "nat_to_string (unat n)"
    have v: "segment ?v" using nat_to_string_chars plain_nat_to_string by (simp add: segment_def)
    have free2: "unclaimed W u1 h1 ?Q (sequence_key c)"
      using q1 by (cases ?Q) (auto simp: unclaimed_def read_at_def)
    obtain u2 h2 where two: "apply_value W ?Q (sequence_key c) ?v (u1, h1) = Inr (u2, h2)"
      and p2: "url_path W u2 = (if ?Q = PathPlace then
            trim_end_matches CHR ''/'' (url_path W u1) @ CHR ''/'' # ?v else url_path W u1)"
      and r2: "?Q \<noteq> PathPlace \<longrightarrow> read_at W u2 h2 ?Q (sequence_key c) = Some ?v"
      and f2: "kept W ?Q (sequence_key c) (u1, h1) (u2, h2)"
      using apply_value_effect [OF laws places(2) ok(2) v free2] by blast
    have "path_values c (url_path W u2) =
        (if ?P = PathPlace then [session] else []) @ (if ?Q = PathPlace then [?v] else [])"
      using at1 path_at_push [OF path at1, of ?v] v id by (auto simp: p2 path_at_def)
    moreover have "?P \<noteq> PathPlace \<Longrightarrow> read_at W u2 h2 ?P (session_key c) = Some session"
      using f2 ok(1) apart r1 by (auto simp: kept_def)
    ultimately show ?thesis
      using that [of u2 h2] one two r2 Some by (simp add: apply_metadata_def)
  qed
qed

lemma extract_metadata_carried:
  assumes "carries W url u"
    and "path_values c (url_path W url) =
          (if session_placement c = PathPlace then [session] else []) @
          (if sequence_placement c = PathPlace
           then map (\<lambda>n. nat_to_string (unat n)) (case sequence of None \<Rightarrow> [] | Some n \<Rightarrow> [n]) else [])"
    and "session_placement c \<noteq> PathPlace \<Longrightarrow>
          read_at W url hs (session_placement c) (session_key c) = Some session"
    and "sequence_placement c \<noteq> PathPlace \<Longrightarrow>
          read_at W url hs (sequence_placement c) (sequence_key c) =
          map_option (\<lambda>n. nat_to_string (unat n)) sequence"
  shows "extract_metadata W c u hs = (Some session, sequence)"
proof -
  have p: "uri_path u = url_path W url" using assms(1) by (simp add: carries_def)
  have path: "read_value W u hs PathPlace key segs =
      (case segs of [] \<Rightarrow> (None, []) | s # rest \<Rightarrow> (Some s, rest))" for key segs
    by (simp add: read_value_def)
  show ?thesis
    using assms
    by (cases "session_placement c = PathPlace"; cases "sequence_placement c = PathPlace";
        cases sequence)
      (simp_all add: extract_metadata_def p path read_value_carried [OF assms(1)] parse_u64_to_string)
qed

section \<open>The payload round trip\<close>

lemma concat_chunks: "0 < n \<Longrightarrow> concat (chunks n xs) = xs"
proof (induction n xs rule: chunks.induct)
  case (1 n xs)
  then show ?case by (cases "xs = []") (simp_all add: chunks.simps)
qed

lemma chunks_subset: "k \<in> set (chunks n xs) \<Longrightarrow> set k \<subseteq> set xs"
proof (induction n xs rule: chunks.induct)
  case (1 n xs)
  then show ?case
    by (auto simp: chunks.simps [of n xs] split: if_splits dest: in_set_takeD in_set_dropD)
qed

lemma chunk_length: "k \<in> set (chunks n xs) \<Longrightarrow> 0 < length k \<and> length k \<le> n"
proof (induction n xs rule: chunks.induct)
  case (1 n xs)
  then show ?case by (auto simp: chunks.simps [of n xs] split: if_splits)
qed

lemma collect_numbered_eq:
  assumes "\<And>i. i < length cs \<Longrightarrow> lookup (numbered_key c sep (k + i)) = Some (cs ! i)"
    and "lookup (numbered_key c sep (k + length cs)) = None" and "length cs < fuel"
  shows "collect_numbered fuel c lookup sep k = Some (concat cs)"
  using assms
proof (induction cs arbitrary: fuel k)
  case Nil
  then show ?case by (cases fuel) auto
next
  case (Cons x cs)
  from Cons.prems(3) obtain f where f: "fuel = Suc f" by (cases fuel) auto
  have "collect_numbered f c lookup sep (Suc k) = Some (concat cs)"
    using Cons.prems(1) [of "Suc i" for i] Cons.prems(2,3) f by (intro Cons.IH) auto
  with Cons.prems(1) [of 0] f show ?case by simp
qed

lemma collect_numbered_stuck:
  "collect_numbered fuel c lookup sep k = None \<Longrightarrow> i < fuel \<Longrightarrow>
   lookup (numbered_key c sep (k + i)) \<noteq> None"
proof (induction fuel arbitrary: k i)
  case (Suc fuel)
  then show ?case
    using Suc.IH [of "Suc k" "i - 1"] by (cases i) (auto split: option.splits)
qed simp

lemma digit_lower: "ascii_lower (digit_char d) = digit_char d" if "d < 10"
  using less_10_cases [OF that] by (elim disjE; simp add: ascii_lower_def digit_char_def byte_of_char_def)

lemma nat_to_string_lower: "to_ascii_lowercase (nat_to_string n) = nat_to_string n"
proof (induction n rule: nat_to_string.induct)
  case (1 n)
  then show ?case
    by (cases "n < 10") (simp_all add: nat_to_string.simps [of n] to_ascii_lowercase_def digit_lower)
qed

lemma numbered_key_inj: "numbered_key c sep i = numbered_key c sep j \<longleftrightarrow> i = j"
  by (simp add: numbered_key_def nat_to_string_inj)

lemma numbered_key_lower_inj:
  "to_ascii_lowercase (numbered_key c sep i) = to_ascii_lowercase (numbered_key c sep j) \<longleftrightarrow> i = j"
  using nat_to_string_lower nat_to_string_inj
  by (simp add: numbered_key_def to_ascii_lowercase_def)

text \<open>Distinct keys are found in distinct entries, so there are no more of them than entries.\<close>

lemma found_bounded:
  assumes "\<And>i. i < n \<Longrightarrow> \<exists>x \<in> set xs. f i x" and "\<And>i j x. f i x \<Longrightarrow> f j x \<Longrightarrow> i = j"
  shows "n \<le> length xs"
proof -
  obtain g where g: "\<And>i. i < n \<Longrightarrow> g i \<in> set xs \<and> f i (g i)" using assms(1) by metis
  then have "inj_on g {..<n}" by (intro inj_onI) (metis assms(2) lessThan_iff)
  then have "card {..<n} \<le> card (set xs)" using g by (intro card_inj_on_le) auto
  then show ?thesis using card_length [of xs] by simp
qed

lemma hdr_text_of_found:
  assumes "web_laws W" and "hdr_text_of W key hs = Some v"
  shows "\<exists>x \<in> set hs. fst x = to_ascii_lowercase key"
proof -
  obtain n where n: "header_name W key = Some n" "hdr_text W n hs = Some v"
    using assms(2) by (auto simp: hdr_text_of_def split: option.splits)
  then have "filter (\<lambda>e. fst e = n) hs \<noteq> []"
    by (auto simp: hdr_text_def hdr_get_all_def split: list.splits)
  then show ?thesis using web_lawsD(1) [OF assms(1) n(1)] by (auto simp: filter_empty_conv)
qed

lemma cookie_part_key: "cookie_part k part = Some v \<Longrightarrow> cookie_part k' part = Some v' \<Longrightarrow> k = k'"
  by (auto simp: cookie_part_def split: option.splits if_splits)

lemma header_keys_bounded:
  assumes "web_laws W" and "\<And>i. i < n \<Longrightarrow> hdr_text_of W (numbered_key c sep i) hs \<noteq> None"
  shows "n \<le> length hs"
proof (rule found_bounded [where f = "\<lambda>i x. fst x = to_ascii_lowercase (numbered_key c sep i)"])
  show "\<exists>x \<in> set hs. fst x = to_ascii_lowercase (numbered_key c sep i)" if "i < n" for i
    using assms(2) [OF that] hdr_text_of_found [OF assms(1)] by auto
qed (auto simp: numbered_key_lower_inj)

lemma cookie_keys_bounded:
  assumes "\<And>i. i < n \<Longrightarrow> cookie_value W hs (numbered_key c sep i) \<noteq> None"
  shows "n \<le> length (cookie_parts W hs)"
proof (rule found_bounded [where f = "\<lambda>i part. cookie_part (numbered_key c sep i) part \<noteq> None"])
  show "\<exists>part \<in> set (cookie_parts W hs). cookie_part (numbered_key c sep i) part \<noteq> None"
    if "i < n" for i
    using assms [OF that] find_some_Some by (fastforce simp: cookie_value_def)
qed (auto dest: cookie_part_key simp: numbered_key_inj)

lemma collect_headers_returns:
  assumes "web_laws W"
  shows "\<exists>s. collect_headers W c hs = Some s"
proof (rule ccontr)
  assume "\<nexists>s. collect_headers W c hs = Some s"
  then have "hdr_text_of W (numbered_key c ''-'' i) hs \<noteq> None" if "i < numbered_fuel W hs" for i
    using collect_numbered_stuck [OF _ that, of c "\<lambda>key. hdr_text_of W key hs" "''-''" 0]
    by (simp add: collect_headers_def)
  then have "numbered_fuel W hs \<le> length hs" by (rule header_keys_bounded [OF assms])
  then show False by (simp add: numbered_fuel_def)
qed

lemma collect_cookies_returns: "\<exists>s. collect_cookies W c hs = Some s"
proof (rule ccontr)
  assume "\<nexists>s. collect_cookies W c hs = Some s"
  then have "cookie_value W hs (numbered_key c ''_'' i) \<noteq> None" if "i < numbered_fuel W hs" for i
    using collect_numbered_stuck [OF _ that, of c "cookie_value W hs" "''_''" 0]
    by (simp add: collect_cookies_def)
  then have "numbered_fuel W hs \<le> length (cookie_parts W hs)" by (rule cookie_keys_bounded)
  then show False by (simp add: numbered_fuel_def)
qed

definition header_family :: "'u web \<Rightarrow> transport_config \<Rightarrow> bool" where
  "header_family W c \<longleftrightarrow> (\<forall>i. header_name W (numbered_key c ''-'' i) \<noteq> None)"

lemma put_headers_effect:
  assumes "web_laws W" and "header_family W c" and "list_all plain cs"
  shows "\<exists>hs'. put_headers W c k cs hs = Inr hs' \<and>
    (\<forall>i. hdr_text_of W (numbered_key c ''-'' i) hs' =
      (if k \<le> i \<and> i < k + length cs then Some (cs ! (i - k))
       else hdr_text_of W (numbered_key c ''-'' i) hs))"
  using assms(3)
proof (induction cs arbitrary: k hs)
  case (Cons x cs)
  obtain n where n: "header_name W (numbered_key c ''-'' k) = Some n"
    using assms(2) by (auto simp: header_family_def)
  have x: "header_value_ok W x" "header_text W x"
    using Cons.prems web_lawsD(2,3) [OF assms(1)] plain_visible by auto
  have one: "hdr_text_of W (numbered_key c ''-'' i) (hdr_insert n x hs) =
      (if i = k then Some x else hdr_text_of W (numbered_key c ''-'' i) hs)" for i
    using n x header_names_apart [OF assms(1) n, of "numbered_key c ''-'' i"]
    by (auto simp: hdr_text_of_def numbered_key_lower_inj split: option.splits)
  obtain hs' where put: "put_headers W c (Suc k) cs (hdr_insert n x hs) = Inr hs'"
    and hs': "\<forall>i. hdr_text_of W (numbered_key c ''-'' i) hs' =
      (if Suc k \<le> i \<and> i < Suc k + length cs then Some (cs ! (i - Suc k))
       else hdr_text_of W (numbered_key c ''-'' i) (hdr_insert n x hs))"
    using Cons.IH [of "Suc k" "hdr_insert n x hs"] Cons.prems by auto
  have "hdr_text_of W (numbered_key c ''-'' i) hs' =
      (if k \<le> i \<and> i < k + length (x # cs) then Some ((x # cs) ! (i - k))
       else hdr_text_of W (numbered_key c ''-'' i) hs)" for i
    using hs' [rule_format, of i] by (auto simp: one nth_Cons' Suc_le_eq)
  with put n x show ?case by simp
qed auto

lemma put_cookies_effect:
  assumes "web_laws W" and "cookie_key (data_key c)" and "list_all plain cs"
    and "\<And>i. k \<le> i \<Longrightarrow> cookie_value W hs (numbered_key c ''_'' i) = None"
  shows "\<exists>hs'. put_cookies W c k cs hs = Inr hs' \<and>
    (\<forall>i. cookie_value W hs' (numbered_key c ''_'' i) =
      (if k \<le> i \<and> i < k + length cs then Some (cs ! (i - k))
       else cookie_value W hs (numbered_key c ''_'' i)))"
  using assms(3,4)
proof (induction cs arbitrary: k hs)
  case (Cons x cs)
  have key: "cookie_key (numbered_key c ''_'' i)" for i
    using assms(2) plain_no_sep [OF plain_nat_to_string] plain_visible [OF plain_nat_to_string]
    by (auto simp: cookie_key_def numbered_key_def visible_def ascii_space_def byte_of_char_def hd_append)
  let ?h = "hdr_append ''cookie'' (numbered_key c ''_'' k @ ''='' @ x) hs"
  have x: "plain x" "utf8_string x"
    using Cons.prems(1) plain_char_props
    by (auto simp: plain_def list_all_iff intro!: utf8_string_ascii)
  have one: "cookie_value W ?h (numbered_key c ''_'' i) =
      (if i = k then Some x else cookie_value W hs (numbered_key c ''_'' i))" for i
    using cookie_value_append [OF assms(1) key x(1), of k hs] Cons.prems(2) [of k]
    by (auto simp: numbered_key_inj split: option.splits)
  obtain hs' where put: "put_cookies W c (Suc k) cs ?h = Inr hs'"
    and hs': "\<forall>i. cookie_value W hs' (numbered_key c ''_'' i) =
      (if Suc k \<le> i \<and> i < Suc k + length cs then Some (cs ! (i - Suc k))
       else cookie_value W ?h (numbered_key c ''_'' i))"
    using Cons.IH [of "Suc k" ?h] Cons.prems one by auto
  have "cookie_value W hs' (numbered_key c ''_'' i) =
      (if k \<le> i \<and> i < k + length (x # cs) then Some ((x # cs) ! (i - k))
       else cookie_value W hs (numbered_key c ''_'' i))" for i
    using hs' [rule_format, of i] unfolding one by (auto simp: nth_Cons' Suc_le_eq)
  with put x append_cookie_ok [OF assms(1) key x(1)] show ?case by simp
qed auto

definition payload_keys_ok :: "'u web \<Rightarrow> transport_config \<Rightarrow> bool" where
  "payload_keys_ok W c \<longleftrightarrow>
    (data_placement c = HeaderPlace \<longrightarrow> header_family W c) \<and>
    (data_placement c = CookiePlace \<longrightarrow> cookie_key (data_key c))"

definition payload_unclaimed :: "'u web \<Rightarrow> transport_config \<Rightarrow> header_map \<Rightarrow> bool" where
  "payload_unclaimed W c hs \<longleftrightarrow>
    (\<forall>i. hdr_text_of W (numbered_key c ''-'' i) hs = None \<and>
         cookie_value W hs (numbered_key c ''_'' i) = None)"

lemma plain_chunks: "plain s \<Longrightarrow> list_all plain (chunks n s)"
  using chunks_subset by (fastforce simp: plain_def list_all_iff)

lemma collect_headers_eq:
  assumes "web_laws W" and "\<And>i. hdr_text_of W (numbered_key c ''-'' i) hs =
      (if i < length cs then Some (cs ! i) else None)"
  shows "collect_headers W c hs = Some (concat cs)"
proof -
  have "length cs \<le> length hs" 
    using assms(2) by (intro header_keys_bounded [OF assms(1), of _ c "''-''"]) auto
  then show ?thesis
    unfolding collect_headers_def
    by (intro collect_numbered_eq) (simp_all add: assms(2) numbered_fuel_def)
qed

lemma collect_cookies_eq:
  assumes "\<And>i. cookie_value W hs (numbered_key c ''_'' i) =
      (if i < length cs then Some (cs ! i) else None)"
  shows "collect_cookies W c hs = Some (concat cs)"
proof -
  have "length cs \<le> length (cookie_parts W hs)" 
    using assms by (intro cookie_keys_bounded [of _ _ _ c "''_''"]) auto
  then show ?thesis
    unfolding collect_cookies_def
    by (intro collect_numbered_eq) (simp_all add: assms numbered_fuel_def)
qed

lemma put_payload_extracted:
  assumes laws: "web_laws W" and place: "payload_placement (data_placement c)"
    and keys: "payload_keys_ok W c" and free: "payload_unclaimed W c hs"
  obtains body hs' where "put_payload W c payload hs = Inr (body, hs')"
    and "extract_payload_bytes W c hs' (case body of Some b \<Rightarrow> b | None \<Rightarrow> []) = Some (Inr payload)"
proof -
  let ?e = "b64_encode W payload"
  have plain: "list_all plain (chunks n ?e)" for n
    using plain_chunks web_lawsD(11) [OF laws] by blast
  have dec: "decode_payload W ?e = Inr payload"
    by (simp add: decode_payload_def web_lawsD(10) [OF laws])
  show ?thesis
  proof (cases "data_placement c")
    case HeaderPlace
    then have "header_family W c" using keys by (simp add: payload_keys_ok_def)
    from put_headers_effect [OF laws this plain [of 3000], of 0 hs] free
    obtain hs' where "put_headers W c 0 (chunks 3000 ?e) hs = Inr hs'"
      and hs': "\<forall>i. hdr_text_of W (numbered_key c ''-'' i) hs' =
        (if i < length (chunks 3000 ?e) then Some (chunks 3000 ?e ! i) else None)"
      by (auto simp: payload_unclaimed_def)
    moreover have "collect_headers W c hs' = Some (concat (chunks 3000 ?e))"
      by (rule collect_headers_eq [OF laws]) (rule hs' [rule_format])
    ultimately show ?thesis using HeaderPlace that dec
      by (simp add: put_payload_def extract_payload_bytes_def extract_payload_def concat_chunks)
  next
    case CookiePlace
    then have "cookie_key (data_key c)" using keys by (simp add: payload_keys_ok_def)
    from put_cookies_effect [OF laws this plain [of 2000], of 0 hs] free
    obtain hs' where "put_cookies W c 0 (chunks 2000 ?e) hs = Inr hs'"
      and hs': "\<forall>i. cookie_value W hs' (numbered_key c ''_'' i) =
        (if i < length (chunks 2000 ?e) then Some (chunks 2000 ?e ! i) else None)"
      by (auto simp: payload_unclaimed_def)
    moreover have "collect_cookies W c hs' = Some (concat (chunks 2000 ?e))"
      by (rule collect_cookies_eq) (rule hs' [rule_format])
    ultimately show ?thesis using CookiePlace that dec
      by (simp add: put_payload_def extract_payload_bytes_def extract_payload_def concat_chunks)
  next
    case AutoPlace
    have "collect_headers W c hs = Some []" "collect_cookies W c hs = Some []"
      using free collect_headers_eq [OF laws, of c hs "[]"] collect_cookies_eq [of W hs c "[]"]
      by (auto simp: payload_unclaimed_def)
    with AutoPlace that show ?thesis
      by (simp add: put_payload_def extract_payload_bytes_def extract_payload_def)
  next
    case BodyPlace
    with that show ?thesis by (simp add: put_payload_def extract_payload_bytes_def)
  qed (use place in \<open>auto simp: payload_placement_def\<close>)
qed

section \<open>The padding round trip\<close>

text \<open>
  The padding text is always alphanumeric. The conditions on the key are those of the metadata,
  with the first pair of the query instead of the last.
\<close>

definition padding_key_ok :: "'u web \<Rightarrow> transport_config \<Rightarrow> bool" where
  "padding_key_ok W c \<longleftrightarrow>
    (case padding_target c of (place, key, header) \<Rightarrow>
      ((place = HeaderPlace \<or> place = QueryInHeader) \<longrightarrow> header_name W header \<noteq> None) \<and>
      (place = CookiePlace \<longrightarrow> cookie_key key))"

definition padding_unclaimed :: "'u web \<Rightarrow> transport_config \<Rightarrow> 'u \<Rightarrow> header_map \<Rightarrow> bool" where
  "padding_unclaimed W c url hs \<longleftrightarrow>
    (case padding_target c of (place, key, header) \<Rightarrow>
      ((place = QueryPlace \<or> place = QueryInHeader) \<longrightarrow> first_pair key (url_pairs W url) = None) \<and>
      (place = CookiePlace \<longrightarrow> cookie_value W hs key = None))"

lemma alphabet_plain: "plain alphabet"
  by (simp add: alphabet_def plain_def plain_char_def byte_of_char_def)

lemma alphabet_nth: "plain [alphabet ! (n mod length alphabet)]"
proof -
  have "length alphabet = 62" by (simp add: alphabet_def)
  then have "alphabet ! (n mod length alphabet) \<in> set alphabet" by (intro nth_mem) simp
  with alphabet_plain show ?thesis by (simp add: plain_def list_all_iff)
qed

lemma token_loop_plain: "plain s \<Longrightarrow> plain (token_loop W len n i s)"
  by (induction n arbitrary: i s) (simp_all add: Let_def alphabet_nth)

lemma padding_value_plain: "plain (padding_value W method len)"
proof -
  have "plain (replicate len CHR ''X'')"
    by (simp add: plain_def list_all_iff plain_char_def byte_of_char_def)
  moreover have "plain (token_loop W len (len + len div 2 + 8) 0 [])"
    by (rule token_loop_plain) (simp add: plain_def)
  ultimately show ?thesis by (simp add: padding_value_def)
qed

lemma padding_target_placement:
  "padding_placement_ok (padding_placement c) \<Longrightarrow> padding_placement_ok (fst (padding_target c))"
  by (auto simp: padding_target_def padding_placement_ok_def)

lemma padding_found_applied:
  assumes laws: "web_laws W" and place: "padding_placement_ok (padding_placement c)"
    and key: "padding_key_ok W c" and free: "padding_unclaimed W c url hs"
    and ap: "apply_padding W c draw url hs = (url', hs')" and sent: "carries W url' u"
  shows "padding_found W c u hs' = Some (padding_value W (padding_method c) (padding_length c draw))"
proof -
  let ?v = "padding_value W (padding_method c) (padding_length c draw)"
  have pv: "plain ?v" by (rule padding_value_plain)
  then have v: "header_value_ok W ?v" "header_text W ?v"
    using web_lawsD(2,3) [OF laws] plain_visible by auto
  have t: "header_value_ok W (url_text W r)" "header_text W (url_text W r)" for r
    using web_lawsD(2,3,5) [OF laws] by auto
  obtain p k h where pt: "padding_target c = (p, k, h)" by (cases "padding_target c")
  then have "padding_placement_ok p" using padding_target_placement [OF place] by simp
  then consider "p = HeaderPlace" | "p = CookiePlace" | "p = QueryPlace" | "p = QueryInHeader"
    by (auto simp: padding_placement_ok_def)
  then show ?thesis
  proof cases
    case 1
    with ap v key show ?thesis
      by (auto simp: apply_padding_def padding_found_def pt hdr_text_of_def padding_key_ok_def Let_def)
  next
    case 2
    with key have ck: "cookie_key k" by (simp add: padding_key_ok_def pt)
    with 2 ap free show ?thesis
      using append_cookie_ok [OF laws ck pv] cookie_value_append [OF laws ck pv]
      by (auto simp: apply_padding_def padding_found_def pt padding_unclaimed_def Let_def)
  next
    case 3
    with ap sent free show ?thesis
      by (auto simp: apply_padding_def padding_found_def pt padding_unclaimed_def Let_def carries_def
          web_lawsD(8) [OF laws] first_pair_snoc)
  next
    case 4
    with ap t key free show ?thesis
      by (auto simp: apply_padding_def padding_found_def pt hdr_text_of_def padding_key_ok_def
          padding_unclaimed_def Let_def web_lawsD(4,8) [OF laws] first_pair_snoc)
  qed
qed

lemma padding_length_range:
  "padding_min c \<le> padding_max c \<Longrightarrow> padding_min c \<le> draw \<Longrightarrow> draw \<le> padding_max c \<Longrightarrow>
   padding_min c \<le> padding_length c draw \<and> padding_length c draw \<le> padding_max c"
  by (simp add: padding_length_def)

text \<open>
  The \<open>tokenish\<close> loop. HPACK codes the characters of the alphabet in five to eight bits
  (RFC 7541, appendix B), 397 bits for the whole alphabet, and pads to a byte. The loop walks
  through the alphabet in steps of 37, which is prime to 62, so that any 62 characters in a row
  are the whole alphabet and the capacity of the vector is enough to reach the length.
\<close>

definition hpack_bits :: "char \<Rightarrow> nat" where
  "hpack_bits c =
    (if c \<in> set ''012aceiost'' then 5 else if c \<in> set ''3456789Abdfghlmnpru'' then 6
     else if c \<in> set ''XZ'' then 8 else 7)"

definition hpack_law :: "'u web \<Rightarrow> bool" where
  "hpack_law W \<longleftrightarrow>
    (\<forall>s. set s \<subseteq> set alphabet \<longrightarrow>
      (\<exists>e. huffman W (as_bytes s) = Some e \<and> length e = (sum_list (map hpack_bits s) + 7) div 8))"

definition token_char :: "nat \<Rightarrow> nat \<Rightarrow> char" where
  "token_char len i = alphabet ! ((i * 37 + len * 17) mod length alphabet)"

definition token_bits :: "nat \<Rightarrow> nat \<Rightarrow> nat \<Rightarrow> nat" where
  "token_bits len i n = (\<Sum>j<n. hpack_bits (token_char len (i + j)))"

lemma length_alphabet [simp]: "length alphabet = 62"
  by (simp add: alphabet_def)

lemma token_char_alphabet: "token_char len i \<in> set alphabet"
  unfolding token_char_def by (intro nth_mem) simp

lemma hpack_bits_bounds: "5 \<le> hpack_bits c" "hpack_bits c \<le> 8"
  by (auto simp: hpack_bits_def)

lemma token_bits_Suc: "token_bits len i (Suc n) = hpack_bits (token_char len i) + token_bits len (Suc i) n"
  unfolding token_bits_def by (subst sum.lessThan_Suc_shift) simp

lemma token_bits_add: "token_bits len i (m + n) = token_bits len i m + token_bits len (i + m) n"
  by (induction m arbitrary: i) (simp_all add: token_bits_Suc token_bits_def [of _ _ 0])

lemma token_bits_lower: "5 * n \<le> token_bits len i n"
proof (induction n arbitrary: i)
  case (Suc n)
  show ?case
    using hpack_bits_bounds(1) [of "token_char len i"] Suc [of "Suc i"]
    unfolding token_bits_Suc mult_Suc_right by linarith
qed (simp add: token_bits_def)

lemma steps_inj: "inj_on (\<lambda>j. ((i + j) * 37 + o') mod 62) {..<62 :: nat}"
proof (rule inj_onI)
  fix a b :: nat
  assume ab: "a \<in> {..<62}" "b \<in> {..<62}"
    and "((i + a) * 37 + o') mod 62 = ((i + b) * 37 + o') mod 62"
  then have "int (((i + a) * 37 + o') mod 62) = int (((i + b) * 37 + o') mod 62)" by simp
  then have "(62 :: int) dvd 37 * (int a - int b)"
    by (simp add: zmod_int mod_eq_dvd_iff algebra_simps)
  moreover have "coprime (62 :: int) 37" by (simp add: coprime_iff_gcd_eq_1 gcd_non_0_int)
  ultimately have "(62 :: int) dvd int a - int b"
    by (simp only: coprime_dvd_mult_right_iff)
  then obtain k where k: "int a - int b = 62 * k" by (elim dvdE)
  then have "62 * k < 62" "- 62 < 62 * k" using ab by auto
  then have "k = 0" by simp
  with k show "a = b" by simp
qed

lemma token_bits_cycle: "token_bits len i 62 = 397"
proof -
  let ?f = "\<lambda>j. ((i + j) * 37 + len * 17) mod 62"
  have "?f ` {..<62} = {..<62}"
    using steps_inj [of i "len * 17"] by (intro endo_inj_surj) auto
  then have "(\<Sum>j<62. hpack_bits (alphabet ! ?f j)) = (\<Sum>k<62. hpack_bits (alphabet ! k))"
    using sum.reindex [OF steps_inj [of i "len * 17"], of "\<lambda>k. hpack_bits (alphabet ! k)"] by simp
  also have "\<dots> = sum_list (map hpack_bits alphabet)"
    using sum_list_sum_nth [of "map hpack_bits alphabet"] by (simp add: atLeast0LessThan)
  also have "\<dots> = 397" by (simp add: alphabet_def hpack_bits_def)
  finally show ?thesis by (simp add: token_bits_def token_char_def)
qed

lemma token_bits_cycles: "397 * q + 5 * r \<le> token_bits len i (62 * q + r)"
proof (induction q arbitrary: i)
  case 0
  then show ?case using token_bits_lower by simp
next
  case (Suc q)
  have "token_bits len i (62 * Suc q + r) = 397 + token_bits len (i + 62) (62 * q + r)"
    using token_bits_add [of len i 62 "62 * q + r"] by (simp add: token_bits_cycle add.assoc)
  with Suc [of "i + 62"] show ?case by simp
qed

lemma token_bits_enough: "8 * len \<le> token_bits len 0 (len + len div 2 + 8) + 7"
proof -
  define n where "n = len + len div 2 + 8"
  define q r where "q = n div 62" and "r = n mod 62"
  have n: "n = 62 * q + r" "r < 62" by (simp_all add: q_def r_def)
  have "397 * q + 5 * r \<le> token_bits len 0 n" using token_bits_cycles n(1) by metis
  moreover have "2 * n \<ge> 3 * len + 15" unfolding n_def by presburger
  ultimately show ?thesis using n unfolding n_def [symmetric] by linarith
qed

lemma huffman_length_law:
  "hpack_law W \<Longrightarrow> set s \<subseteq> set alphabet \<Longrightarrow>
   huffman_length W s = (sum_list (map hpack_bits s) + 7) div 8"
  by (auto simp: hpack_law_def huffman_length_def)

lemma token_loop_length:
  assumes law: "hpack_law W" and "set s \<subseteq> set alphabet" and "huffman_length W s < len"
    and "8 * len \<le> sum_list (map hpack_bits s) + token_bits len i n + 7"
  shows "huffman_length W (token_loop W len n i s) = len"
  using assms(2-)
proof (induction n arbitrary: i s)
  case 0
  then show ?case by (simp add: token_bits_def huffman_length_law [OF law])
next
  case (Suc n)
  let ?s = "s @ [token_char len i]"
  have s: "set ?s \<subseteq> set alphabet" using Suc.prems(1) token_char_alphabet by auto
  have "huffman_length W ?s \<le> huffman_length W s + 1"
    using hpack_bits_bounds(2) [of "token_char len i"] s
    by (simp add: huffman_length_law [OF law])
  with Suc.prems(2) have "huffman_length W ?s \<ge> len \<Longrightarrow> huffman_length W ?s = len" by simp
  moreover have "huffman_length W ?s < len \<Longrightarrow>
      huffman_length W (token_loop W len n (Suc i) ?s) = len"
    using Suc.prems(3) s by (intro Suc.IH) (simp_all add: token_bits_Suc add.assoc)
  ultimately show ?case by (auto simp: Let_def token_char_def)
qed

lemma tokenish_length:
  assumes "hpack_law W"
  shows "huffman_length W (padding_value W ''tokenish'' len) = max len 1"
proof (cases "len = 0")
  case True
  have "set [token_char 0 0] \<subseteq> set alphabet" using token_char_alphabet by simp
  then have "huffman_length W [token_char 0 0] = 1"
    using hpack_bits_bounds [of "token_char 0 0"] huffman_length_law [OF assms, of "[token_char 0 0]"]
    by simp
  moreover have "padding_value W ''tokenish'' 0 = [token_char 0 0]"
    using token_loop.simps(2) [of W 0 7 0 "[]"] by (simp add: padding_value_def token_char_def)
  ultimately show ?thesis using True by simp
next
  case False
  have "huffman_length W [] = 0" using huffman_length_law [OF assms, of "[]"] by simp
  with False show ?thesis
    using token_loop_length [OF assms, of "[]" len 0 "len + len div 2 + 8"] token_bits_enough [of len]
    by (simp add: padding_value_def)
qed

lemma padding_accepted:
  assumes laws: "web_laws W" "padding_method c = ''tokenish'' \<longrightarrow> hpack_law W" and ok: "fields_ok c"
    and key: "padding_key_ok W c" and free: "padding_unclaimed W c url hs"
    and draw: "padding_min c \<le> draw" "draw \<le> padding_max c"
    and ap: "apply_padding W c draw url hs = (url', hs')" and sent: "carries W url' u"
  shows "valid_padding W c u hs'"
proof -
  have range: "padding_min c \<le> padding_length c draw \<and> padding_length c draw \<le> padding_max c"
    using ok draw by (intro padding_length_range) (auto simp: fields_ok_def)
  have "padding_found W c u hs' = Some (padding_value W (padding_method c) (padding_length c draw))"
    using ok by (intro padding_found_applied [OF laws(1) _ key free ap sent]) (simp add: fields_ok_def)
  moreover have "padding_method c \<noteq> ''tokenish'' \<Longrightarrow>
      length (padding_value W (padding_method c) len) = len" for len
    by (simp add: padding_value_def)
  ultimately show ?thesis
    using range laws(2) tokenish_length [of W "padding_length c draw"]
    by (cases "padding_method c = ''tokenish''") (auto simp: valid_padding_def Let_def)
qed

end
