(* ===== verification/Xhttp_Server.thy ===== *)
theory Xhttp_Server
  imports Xhttp_Protocol
begin

text \<open>
  The XHTTP server of \<open>server.rs\<close>: which requests are admitted and how they are dispatched, the
  table of sessions shared by all requests, and the task that puts the packets of a session back
  into order. The table is a state machine whose steps are the atomic operations of the code, so
  that every interleaving of requests, timers and tasks is a run of it.
\<close>

section \<open>Admission and dispatch\<close>

datatype http_status =
  StatusOk | NotFound | MethodNotAllowed | ServiceUnavailable | Conflict | PayloadTooLarge | BadRequest

record xrequest =
  rq_method :: string
  rq_uri :: uri
  rq_headers :: header_map

definition valid_path :: "string \<Rightarrow> string \<Rightarrow> bool" where
  "valid_path base path \<longleftrightarrow>
    path = base \<or>
    (case strip_prefix path base of None \<Rightarrow> False | Some v \<Rightarrow> starts_with v ''/'')"

text \<open>Collecting the pairs into a \<open>HashMap\<close> keeps the last value of a key.\<close>

definition valid_query :: "'u web \<Rightarrow> string option \<Rightarrow> string option \<Rightarrow> bool" where
  "valid_query W expected actual =
    (case expected of
       None \<Rightarrow> True
     | Some e \<Rightarrow>
         (let have_pairs = (case actual of None \<Rightarrow> [] | Some q \<Rightarrow> form_parse W q) in
          list_all (\<lambda>(key, v). last_pair key have_pairs = Some v) (form_parse W e)))"

definition admitted :: "'u web \<Rightarrow> transport_config \<Rightarrow> xrequest \<Rightarrow> bool" where
  "admitted W c rq \<longleftrightarrow>
    valid_path (tc_path c) (uri_path (rq_uri rq)) \<and>
    valid_query W (tc_query c) (uri_query (rq_uri rq)) \<and>
    (case tc_host c of None \<Rightarrow> True | Some host \<Rightarrow> hdr_text W ''host'' (rq_headers rq) = Some host) \<and>
    authorized W c (rq_headers rq) \<and>
    valid_padding W c (rq_uri rq) (rq_headers rq)"

datatype action =
  Reply http_status | DoStreamOne | DoDownload string | DoPacket string u64 | DoStreamUp string

definition dispatch :: "'u web \<Rightarrow> transport_config \<Rightarrow> xrequest \<Rightarrow> action" where
  "dispatch W c rq =
    (if \<not> admitted W c rq then Reply NotFound
     else if rq_method rq = ''OPTIONS'' then Reply StatusOk
     else (case extract_metadata W c (rq_uri rq) (rq_headers rq) of
         (None, None) \<Rightarrow>
           if rq_method rq = ''POST'' \<and> (tc_mode c = Auto \<or> tc_mode c = StreamOne)
           then DoStreamOne else Reply MethodNotAllowed
       | (Some sid, Some seq) \<Rightarrow>
           if tc_mode c = Auto \<or> tc_mode c = PacketUp then DoPacket sid seq
           else Reply MethodNotAllowed
       | (Some sid, None) \<Rightarrow>
           if rq_method rq = ''GET'' then DoDownload sid
           else if tc_mode c = Auto \<or> tc_mode c = StreamUp then DoStreamUp sid
           else Reply MethodNotAllowed
       | (None, Some _) \<Rightarrow> Reply MethodNotAllowed))"

text \<open>The headers of a streamed response and what \<open>handler\<close> adds to every response.\<close>

definition stream_headers :: header_map where
  "stream_headers =
    [(''cache-control'', ''no-store''), (''x-accel-buffering'', ''no''),
     (''content-type'', ''text/event-stream'')]"

definition finish_response :: "'u web \<Rightarrow> transport_config \<Rightarrow> nat \<Rightarrow> header_map \<Rightarrow> header_map" where
  "finish_response W c draw hs =
    (let hs1 = apply_response_padding W c draw hs;
         hs2 = hdr_insert ''access-control-allow-origin'' ''*'' hs1
     in if no_sse_header c then hdr_remove ''content-type'' hs2 else hs2)"

text \<open>
  The body of a packet: \<open>to_bytes\<close> fails on a broken body (\<open>None\<close>) and on one over the limit.
\<close>

definition packet_payload ::
    "'u web \<Rightarrow> transport_config \<Rightarrow> header_map \<Rightarrow> bytes option \<Rightarrow> http_status + bytes" where
  "packet_payload W c hs body =
    (case body of
       None \<Rightarrow> Inl PayloadTooLarge
     | Some b \<Rightarrow>
         if length b > max_packet_size c then Inl PayloadTooLarge
         else (case extract_payload_bytes W c hs b of
             Some (Inr payload) \<Rightarrow>
               if length payload > max_packet_size c then Inl PayloadTooLarge else Inr payload
           | _ \<Rightarrow> Inl BadRequest))"

section \<open>Putting packets back into order\<close>

text \<open>
  The receiving task of \<open>download\<close>. \<open>pending\<close> is the \<open>BTreeMap\<close>, \<open>rx_next\<close> the number awaited and
  \<open>rx_written\<close> the payloads written to the backend, oldest first. \<open>wok\<close> says whether the backend
  takes a payload after those. The counter is a \<open>u64\<close> that goes up by one for every payload
  written, so it stays below \<open>2 ^ 64\<close>.
\<close>

type_synonym packet = "nat \<times> bytes"

record rx =
  pending :: "(nat \<times> bytes) list"
  rx_next :: nat
  rx_written :: "bytes list"

definition rx_init :: rx where
  "rx_init = \<lparr>pending = [], rx_next = 0, rx_written = []\<rparr>"

text \<open>\<open>while let Some(payload) = pending.remove(&next)\<close>; the flag is false after a failed write.\<close>

function drain :: "(bytes list \<Rightarrow> bytes \<Rightarrow> bool) \<Rightarrow> rx \<Rightarrow> bool \<times> rx" where
  "drain wok s =
    (case hm_get (pending s) (rx_next s) of
       None \<Rightarrow> (True, s)
     | Some payload \<Rightarrow>
         (let s' = s\<lparr>pending := hm_remove (rx_next s) (pending s)\<rparr> in
          if \<not> wok (rx_written s) payload then (False, s')
          else drain wok (s'\<lparr>rx_next := rx_next s + 1, rx_written := rx_written s @ [payload]\<rparr>)))"
  by auto
termination
proof (relation "measure (\<lambda>(wok, s). length (pending s))", goal_cases)
  case (2 wok s payload s')
  then have "rx_next s \<in> fst ` set (pending s)" by (auto simp: map_of_eq_Some_iff dest: map_of_SomeD intro: rev_image_eqI)
  then show ?case using 2 by (auto simp: AList.delete_eq intro!: length_filter_less)
qed simp

declare drain.simps [simp del]

text \<open>One packet: \<open>None\<close> when the task tears the session down.\<close>

definition receive_packet :: "nat \<Rightarrow> (bytes list \<Rightarrow> bytes \<Rightarrow> bool) \<Rightarrow> rx \<Rightarrow> packet \<Rightarrow> rx option" where
  "receive_packet limit wok s packet =
    (case packet of (sequence, payload) \<Rightarrow>
     if sequence < rx_next s then Some s
     else if length (pending s) \<ge> limit \<and> \<not> hm_contains (pending s) sequence then None
     else (case drain wok (s\<lparr>pending := hm_insert sequence payload (pending s)\<rparr>) of
         (True, s') \<Rightarrow> Some s'
       | (False, _) \<Rightarrow> None))"

fun receive_all :: "nat \<Rightarrow> (bytes list \<Rightarrow> bytes \<Rightarrow> bool) \<Rightarrow> rx \<Rightarrow> packet list \<Rightarrow> rx option" where
  "receive_all limit wok s [] = Some s"
| "receive_all limit wok s (p # ps) =
    Option.bind (receive_packet limit wok s p) (\<lambda>s'. receive_all limit wok s' ps)"

text \<open>
  The specification: the task stands for a store of the packets accepted so far, and what it has
  written is the longest prefix of the store without a gap. A packet inside the prefix is a
  duplicate and changes nothing; any other is stored.
\<close>

definition rx_store :: "rx \<Rightarrow> nat \<Rightarrow> bytes option" where
  "rx_store s i = (if i < rx_next s then Some (rx_written s ! i) else hm_get (pending s) i)"

definition spec_receive :: "(nat \<Rightarrow> bytes option) \<Rightarrow> packet \<Rightarrow> nat \<Rightarrow> bytes option" where
  "spec_receive store packet =
    (case packet of (sequence, payload) \<Rightarrow>
     if list_all (\<lambda>i. store i \<noteq> None) [0..<Suc sequence] then store
     else store(sequence \<mapsto> payload))"

definition spec_written :: "(nat \<Rightarrow> bytes option) \<Rightarrow> bytes list \<Rightarrow> bool" where
  "spec_written store written \<longleftrightarrow>
    map store [0..<length written] = map Some written \<and> store (length written) = None"

definition rx_ok :: "rx \<Rightarrow> bool" where
  "rx_ok s \<longleftrightarrow> hm_ok (pending s) \<and> length (rx_written s) = rx_next s \<and>
    list_all (\<lambda>(k, _). rx_next s < k) (pending s)"

text \<open>Before \<open>drain\<close> the awaited packet itself may be pending.\<close>

definition rx_pre :: "rx \<Rightarrow> bool" where
  "rx_pre s \<longleftrightarrow> hm_ok (pending s) \<and> length (rx_written s) = rx_next s \<and>
    list_all (\<lambda>(k, _). rx_next s \<le> k) (pending s)"

lemma list_all_fst: "list_all (\<lambda>(k, _). P k) m \<longleftrightarrow> (\<forall>k \<in> fst ` set m. P k)"
  by (auto simp: list_all_iff)

lemma rx_ok_init: "rx_ok rx_init"
  by (simp add: rx_ok_def rx_init_def)

lemma rx_ok_gap: "rx_ok s \<Longrightarrow> hm_get (pending s) i = Some p \<Longrightarrow> rx_next s < i"
  by (auto simp: rx_ok_def list_all_iff dest!: map_of_SomeD)

lemma rx_ok_pre: "rx_ok s \<Longrightarrow> rx_pre s"
  by (auto simp: rx_ok_def rx_pre_def list_all_iff)

lemma set_hm_remove: "set (hm_remove k m) = {e \<in> set m. fst e \<noteq> k}"
  by (auto simp: AList.delete_eq)

lemma keys_hm_remove: "fst ` set (hm_remove k m) = fst ` set m - {k}"
  by (auto simp: set_hm_remove)

lemma drain_ok:
  assumes "rx_pre s" and "drain wok s = (True, s')"
  shows "rx_ok s' \<and> rx_store s' = rx_store s \<and> rx_next s \<le> rx_next s' \<and>
    set (pending s') \<subseteq> set (pending s)"
  using assms
proof (induction wok s rule: drain.induct)
  case (1 wok s)
  show ?case
  proof (cases "hm_get (pending s) (rx_next s)")
    case None
    then have "rx_next s \<notin> fst ` set (pending s)" by (simp add: map_of_eq_None_iff)
    moreover have "s' = s" using 1(3) None by (simp add: drain.simps [of wok s])
    ultimately show ?thesis
      using 1(2) by (simp add: rx_pre_def rx_ok_def list_all_fst order_le_less) blast
  next
    case (Some payload)
    let ?s = "s\<lparr>pending := hm_remove (rx_next s) (pending s)\<rparr>"
    let ?t = "?s\<lparr>rx_next := rx_next s + 1, rx_written := rx_written s @ [payload]\<rparr>"
    have w: "wok (rx_written s) payload" and d: "drain wok ?t = (True, s')"
      using 1(3) Some by (auto simp: drain.simps [of wok s] Let_def split: if_splits)
    have pre: "rx_pre ?t"
      using 1(2) unfolding rx_pre_def list_all_fst
      by (auto simp: keys_hm_remove Suc_le_eq nat_less_le)
    have "rx_store ?t = rx_store s"
      using 1(2) Some
      by (auto simp: rx_store_def fun_eq_iff nth_append rx_pre_def hm_simps less_Suc_eq)
    with 1(1) [OF Some refl _ pre d] w show ?thesis by (auto simp: set_hm_remove)
  qed
qed

text \<open>A backend that takes every payload.\<close>

definition always :: "bytes list \<Rightarrow> bytes \<Rightarrow> bool" where
  "always written payload = True"

lemma drain_succeeds: "\<exists>s'. drain always s = (True, s')"
proof (induction always s rule: drain.induct)
  case (1 s)
  then show ?case
    by (subst drain.simps) (auto simp: Let_def always_def split: option.splits)
qed

lemma rx_next_frontier: "rx_ok s \<Longrightarrow> i < rx_next s \<longleftrightarrow> list_all (\<lambda>j. rx_store s j \<noteq> None) [0..<Suc i]"
proof
  assume ok: "rx_ok s" and all: "list_all (\<lambda>j. rx_store s j \<noteq> None) [0..<Suc i]"
  show "i < rx_next s"
  proof (rule ccontr)
    assume "\<not> i < rx_next s"
    then have "rx_next s \<in> set [0..<Suc i]" by auto
    then have "rx_store s (rx_next s) \<noteq> None" using all unfolding list_all_iff by blast
    then show False using rx_ok_gap [OF ok, of "rx_next s"] by (auto simp: rx_store_def)
  qed
qed (auto simp: list_all_iff rx_store_def)

lemma rx_ok_written: "rx_ok s \<Longrightarrow> spec_written (rx_store s) (rx_written s)"
  using rx_ok_gap [of s "rx_next s"]
  by (cases "hm_get (pending s) (rx_next s)")
    (auto simp: spec_written_def rx_store_def rx_ok_def intro: nth_equalityI)

lemma receive_packet_simulates:
  assumes ok: "rx_ok s" and rcv: "receive_packet limit wok s packet = Some s'"
  shows "rx_ok s' \<and> rx_store s' = spec_receive (rx_store s) packet \<and> rx_next s \<le> rx_next s' \<and>
    (\<forall>k \<in> fst ` set (pending s'). k \<in> fst ` set (pending s) \<or> k = fst packet)"
proof -
  obtain q p where packet: "packet = (q, p)" by (cases packet)
  show ?thesis
  proof (cases "q < rx_next s")
    case True
    with ok rcv packet show ?thesis
      by (auto simp: receive_packet_def spec_receive_def rx_next_frontier [OF ok])
  next
    case False
    let ?t = "s\<lparr>pending := hm_insert q p (pending s)\<rparr>"
    have d: "drain wok ?t = (True, s')"
      using rcv packet False by (auto simp: receive_packet_def split: if_splits prod.splits bool.splits)
    have keys: "fst ` set (hm_insert q p (pending s)) = insert q (fst ` set (pending s))"
      by (simp add: dom_update)
    have "\<forall>k \<in> fst ` set (pending ?t). rx_next s \<le> k"
      using keys False ok by (auto simp: rx_ok_def list_all_fst intro: less_imp_le)
    then have pre: "rx_pre ?t"
      using ok by (simp add: rx_pre_def rx_ok_def list_all_fst)
    have "rx_store ?t = (rx_store s)(q \<mapsto> p)"
      using False by (auto simp: rx_store_def fun_eq_iff hm_simps)
    moreover have "\<not> list_all (\<lambda>j. rx_store s j \<noteq> None) [0..<Suc q]"
      using False rx_next_frontier [OF ok, of q] by simp
    ultimately have "rx_store ?t = spec_receive (rx_store s) packet"
      by (simp only: spec_receive_def packet prod.case if_False)
    moreover have "\<forall>k \<in> fst ` set (pending s'). k \<in> fst ` set (pending s) \<or> k = fst packet"
    proof -
      have "fst ` set (pending s') \<subseteq> fst ` set (hm_insert q p (pending s))"
        using drain_ok [OF pre d] by (intro image_mono) simp
      then show ?thesis unfolding keys packet by auto
    qed
    ultimately show ?thesis using drain_ok [OF pre d] by simp
  qed
qed

fun spec_all :: "(nat \<Rightarrow> bytes option) \<Rightarrow> packet list \<Rightarrow> nat \<Rightarrow> bytes option" where
  "spec_all store [] = store"
| "spec_all store (p # ps) = spec_all (spec_receive store p) ps"

lemma receive_all_simulates:
  "rx_ok s \<Longrightarrow> receive_all limit wok s ps = Some s' \<Longrightarrow>
   rx_ok s' \<and> rx_store s' = spec_all (rx_store s) ps"
proof (induction ps arbitrary: s)
  case (Cons p ps)
  from Cons.prems(2) obtain t where t: "receive_packet limit wok s p = Some t"
      "receive_all limit wok t ps = Some s'"
    by (auto simp: Option.bind_eq_Some_conv)
  with receive_packet_simulates [OF Cons.prems(1) t(1)] Cons.IH [of t] show ?case by simp
qed simp

text \<open>
  The buffer holds fewer than \<open>limit\<close> packets as long as no packet arrives before \<open>limit\<close> of the
  packets it follows: every number at least \<open>limit\<close> below it has arrived.
\<close>

fun within_window :: "nat \<Rightarrow> nat list \<Rightarrow> packet list \<Rightarrow> bool" where
  "within_window limit seen [] = True"
| "within_window limit seen ((q, p) # ps) =
    (list_all (\<lambda>i. i \<in> set seen) [0..<Suc q - limit] \<and> within_window limit (q # seen) ps)"

definition tracks :: "nat \<Rightarrow> bytes list \<Rightarrow> nat list \<Rightarrow> rx \<Rightarrow> bool" where
  "tracks limit xs seen s \<longleftrightarrow>
    rx_ok s \<and> (\<forall>i. rx_store s i = (if i \<in> set seen then Some (xs ! i) else None)) \<and>
    (\<forall>k \<in> fst ` set (pending s). k < rx_next s + limit)"

lemma hm_length_interval:
  assumes "hm_ok m" and "fst ` set m \<subseteq> {Suc a..<a + n}"
  shows "length m \<le> n - 1"
proof -
  have "length m = card (fst ` set m)"
    using assms(1) distinct_card [of "map fst m"] by (simp add: hm_ok_def)
  also have "\<dots> \<le> card {Suc a..<a + n}" using assms(2) by (intro card_mono) auto
  finally show ?thesis by simp
qed

lemma tracks_receive:
  assumes tr: "tracks limit xs seen s" and win: "list_all (\<lambda>i. i \<in> set seen) [0..<Suc q - limit]"
    and limit: "0 < limit"
  shows "\<exists>s'. receive_packet limit always s (q, xs ! q) = Some s' \<and> tracks limit xs (q # seen) s'"
proof -
  have ok: "rx_ok s" and store: "\<And>i. rx_store s i = (if i \<in> set seen then Some (xs ! i) else None)"
    and low: "\<And>k. k \<in> fst ` set (pending s) \<Longrightarrow> k < rx_next s + limit"
    using tr by (auto simp: tracks_def)
  have "rx_store s (rx_next s) = None"
    using rx_ok_written [OF ok] ok by (simp add: spec_written_def rx_ok_def)
  then have "rx_next s \<notin> set seen" using store [of "rx_next s"] by auto
  then have "rx_next s \<notin> set [0..<Suc q - limit]" using win unfolding list_all_iff by blast
  then have q: "q < rx_next s + limit" by simp
  have high: "\<forall>k \<in> fst ` set (pending s). rx_next s < k"
    using ok by (simp add: rx_ok_def list_all_fst)
  have "fst ` set (pending s) \<subseteq> {Suc (rx_next s)..<rx_next s + limit}"
  proof
    fix k
    assume k: "k \<in> fst ` set (pending s)"
    show "k \<in> {Suc (rx_next s)..<rx_next s + limit}"
      using low [OF k] bspec [OF high k] by simp
  qed
  then have "length (pending s) < limit"
    using hm_length_interval [of "pending s" "rx_next s" limit] ok limit by (simp add: rx_ok_def)
  moreover obtain t where "drain always (s\<lparr>pending := hm_insert q (xs ! q) (pending s)\<rparr>) = (True, t)"
    using drain_succeeds by blast
  ultimately obtain s' where s': "receive_packet limit always s (q, xs ! q) = Some s'"
    by (cases "q < rx_next s") (simp_all add: receive_packet_def)
  note sim = receive_packet_simulates [OF ok s']
  have "rx_store s' i = (if i \<in> set (q # seen) then Some (xs ! i) else None)" for i
  proof (cases "list_all (\<lambda>j. rx_store s j \<noteq> None) [0..<Suc q]")
    case True
    then have "rx_store s' = rx_store s" using sim by (simp only: spec_receive_def prod.case if_True)
    moreover have "q \<in> set seen"
      using True store [of q] by (cases "q \<in> set seen") simp_all
    ultimately show ?thesis using store by auto
  next
    case False
    then have "rx_store s' = (rx_store s)(q \<mapsto> xs ! q)"
      using sim by (simp only: spec_receive_def prod.case if_False)
    then show ?thesis using store by simp
  qed
  moreover have "\<forall>k \<in> fst ` set (pending s'). k < rx_next s' + limit"
  proof
    fix k
    assume "k \<in> fst ` set (pending s')"
    then have "k \<in> fst ` set (pending s) \<or> k = q" using sim by (metis fst_conv)
    then have "k < rx_next s + limit" using low q by blast
    then show "k < rx_next s' + limit" using sim by simp
  qed
  ultimately show ?thesis using sim s' by (simp add: tracks_def)
qed

lemma receive_all_tracks:
  assumes "tracks limit xs seen s" and "within_window limit seen ps" and "0 < limit"
    and "list_all (\<lambda>(q, p). p = xs ! q) ps"
  shows "\<exists>s' seen'. receive_all limit always s ps = Some s' \<and> tracks limit xs seen' s' \<and>
    set seen' = set seen \<union> fst ` set ps"
  using assms(1,2,4)
proof (induction ps arbitrary: seen s)
  case (Cons x ps)
  obtain q p where x: "x = (q, p)" by (cases x)
  with Cons.prems obtain t where t: "receive_packet limit always s x = Some t"
      and tr: "tracks limit xs (q # seen) t"
    using tracks_receive [OF Cons.prems(1) _ assms(3), of q] by auto
  from Cons.IH [OF tr] Cons.prems x obtain s' seen' where
    "receive_all limit always t ps = Some s'" "tracks limit xs seen' s'"
    "set seen' = set (q # seen) \<union> fst ` set ps" by auto
  with t x show ?case by auto
qed auto

lemma tracks_complete:
  assumes "tracks limit xs seen s" and "set seen = {..<length xs}"
  shows "rx_written s = xs \<and> pending s = []"
proof -
  have ok: "rx_ok s" and store: "\<And>i. rx_store s i = (if i < length xs then Some (xs ! i) else None)"
    using assms by (auto simp: tracks_def)
  have len: "length (rx_written s) = rx_next s" using ok by (simp add: rx_ok_def)
  have w: "map (rx_store s) [0..<rx_next s] = map Some (rx_written s)" "rx_store s (rx_next s) = None"
    using rx_ok_written [OF ok] len by (auto simp: spec_written_def)
  have "\<not> rx_next s < length xs" using w(2) store [of "rx_next s"] by auto
  moreover have "\<not> length xs < rx_next s"
    using store [of "length xs"] by (auto simp: rx_store_def)
  ultimately have n: "rx_next s = length xs" by simp
  then have "rx_written s ! i = xs ! i" if "i < length xs" for i
    using that store [of i] by (simp add: rx_store_def)
  then have "rx_written s = xs" using len n by (intro nth_equalityI) auto
  moreover have "pending s = []"
  proof (rule ccontr)
    assume "pending s \<noteq> []"
    then obtain k p where e: "(k, p) \<in> set (pending s)" by (cases "pending s") auto
    then have "hm_get (pending s) k = Some p" using ok by (simp add: rx_ok_def hm_ok_def)
    with rx_ok_gap [OF ok this] n store [of k] show False by (simp add: rx_store_def)
  qed
  ultimately show ?thesis by simp
qed

section \<open>Properties\<close>

lemma rx_store_init: "rx_store rx_init = (\<lambda>_. None)"
  by (simp add: rx_store_def rx_init_def fun_eq_iff)

text \<open>
  C28. The receiving task of a download refines the store of packets: after any sequence of packets
  that does not tear the session down, it stands for the store the specification computes, and what
  it has written to the backend is the longest gapless prefix of that store, in order and each
  packet once.
\<close>

theorem reorder_refines:
  assumes "receive_all limit wok rx_init ps = Some s"
  shows "rx_store s = spec_all (\<lambda>_. None) ps \<and> spec_written (spec_all (\<lambda>_. None) ps) (rx_written s)"
proof -
  have "rx_ok s" "rx_store s = spec_all (\<lambda>_. None) ps"
    using receive_all_simulates [OF rx_ok_init assms] by (simp_all add: rx_store_init)
  with rx_ok_written [of s] show ?thesis by simp
qed

theorem reorder_refines_witness:
  "receive_all 2 always rx_init [(1, [7]), (0, [5]), (1, [9]), (3, [4])] =
     Some \<lparr>pending = [(3, [4])], rx_next = 2, rx_written = [[5], [7]]\<rparr> \<and>
   spec_written (spec_all (\<lambda>_. None) [(1, [7]), (0, [5]), (1, [9]), (3, [4])]) [[5], [7]]"
proof -
  have r: "receive_all 2 always rx_init [(1, [7]), (0, [5]), (1, [9]), (3, [4])] =
     Some \<lparr>pending = [(3, [4])], rx_next = 2, rx_written = [[5], [7]]\<rparr>"
    by code_simp
  with reorder_refines [OF r] show ?thesis by simp
qed

lemma in_order_tracks:
  assumes "0 < limit" and "within_window limit [] ps"
    and "list_all (\<lambda>(q, p). p = xs ! q) ps" and "fst ` set ps = {..<length xs}"
  shows "\<exists>s. receive_all limit always rx_init ps = Some s \<and> rx_written s = xs \<and> pending s = []"
proof -
  have "tracks limit xs [] rx_init"
    by (simp add: tracks_def rx_ok_init rx_store_init) (simp add: rx_init_def)
  from receive_all_tracks [OF this assms(2,1,3)] obtain s seen where
    "receive_all limit always rx_init ps = Some s" "tracks limit xs seen s" "set seen = fst ` set ps"
    by auto
  with tracks_complete [of limit xs seen s] assms(4) show ?thesis by auto
qed

text \<open>
  C29. Whatever the order in which the packets of a stream arrive, with duplicates, as long as none
  arrives before a packet that is \<open>limit\<close> or more ahead of it, the backend receives exactly the
  stream and nothing is left in the buffer.
\<close>

theorem in_order_delivery:
  assumes "0 < limit" and "within_window limit [] ps"
    and "list_all (\<lambda>(q, p). p = xs ! q) ps" and "fst ` set ps = {..<length xs}"
  shows "\<exists>s. receive_all limit always rx_init ps = Some s \<and> rx_written s = xs \<and> pending s = []"
  using assms by (rule in_order_tracks)

theorem in_order_delivery_witness:
  "\<exists>s. receive_all 2 always rx_init [(1, [7]), (0, [5]), (1, [7]), (3, [4]), (2, [6])] = Some s \<and>
    rx_written s = [[5], [7], [6], [4]] \<and> pending s = []"
proof (rule in_order_delivery)
  show "within_window 2 [] [(1, [7]), (0, [5]), (1, [7]), (3, [4]), (2, [6 :: u8])]" by code_simp
  show "fst ` set [(1, [7]), (0, [5]), (1, [7]), (3, [4]), (2, [6 :: u8])] =
      {..<length [[5], [7], [6], [4 :: u8]]}"
    by (auto simp: lessThan_Suc numeral_eq_Suc)
qed simp_all

text \<open>
  A full buffer refuses even the packet it is waiting for, which would drain it: the session is
  torn down instead.
\<close>

lemma full_buffer_refuses_awaited:
  assumes "rx_ok s" and "limit \<le> length (pending s)"
  shows "receive_packet limit wok s (rx_next s, payload) = None"
proof -
  have "\<not> hm_contains (pending s) (rx_next s)"
    using rx_ok_gap [OF assms(1), of "rx_next s"]
    by (cases "hm_get (pending s) (rx_next s)") (auto simp: hm_contains_def)
  with assms(2) show ?thesis by (simp add: receive_packet_def)
qed

lemma full_buffer_reached:
  "receive_all 2 always rx_init [(1, [7]), (2, [8])] =
     Some \<lparr>pending = [(1, [7]), (2, [8])], rx_next = 0, rx_written = []\<rparr> \<and>
   receive_all 2 always rx_init [(1, [7]), (2, [8]), (0, [6])] = None \<and>
   receive_all 2 always rx_init [(1, [7]), (0, [6]), (2, [8])] =
     Some \<lparr>pending = [], rx_next = 3, rx_written = [[6], [7], [8]]\<rparr>"
  by code_simp

text \<open>
  With the root as its base path the server admits nothing below it: behind the base a slash is
  expected, and the base has taken the only one.
\<close>

lemma root_path_admits:
  "valid_path ''/'' path \<longleftrightarrow> path = ''/'' \<or> starts_with path ''//''"
  by (cases path; cases "tl path") (auto simp: valid_path_def strip_prefix_def starts_with_def)

text \<open>
  \<open>validate\<close> accepts the upload method \<open>OPTIONS\<close>, but \<open>handler\<close> answers an admitted \<open>OPTIONS\<close> request
  with success before it looks at the session: the packets of such a client are lost.
\<close>

lemma options_upload_ignored:
  "admitted W c rq \<Longrightarrow> rq_method rq = ''OPTIONS'' \<Longrightarrow> dispatch W c rq = Reply StatusOk"
  by (simp add: dispatch_def)

text \<open>A token that is no header text is never matched, although \<open>validate\<close> asks only for a header value.\<close>

lemma opaque_token_never_authorized:
  "tc_token c = Some t \<Longrightarrow> \<not> header_text W (bearer t) \<Longrightarrow> \<not> admitted W c rq"
  by (auto simp: admitted_def authorized_def hdr_text_def split: option.splits list.splits if_splits)

end
