(* ===== verification/Xhttp_Sessions.thy ===== *)
theory Xhttp_Sessions
  imports Xhttp_Server
begin

text \<open>
  The session table of \<open>server.rs\<close> under concurrency. Requests, timers and relay tasks are threads;
  a step of a thread is one atomic operation of the code on the shared state (a lookup, insertion or
  removal in the concurrent map, an update of the counter, a send or a receive on the channel of a
  session). Every interleaving is a run.
\<close>

section \<open>State\<close>

text \<open>
  A \<open>Session\<close> object: whether the receiver is still in it, the \<open>connected\<close> flag, and its channel,
  a queue that is open until the receiver is dropped. A session is known by its index among the
  objects ever created.
\<close>

record session =
  ses_receiver :: bool
  ses_connected :: bool
  ses_open :: bool
  ses_queue :: "packet list"

definition new_session :: session where
  "new_session = \<lparr>ses_receiver = True, ses_connected = False, ses_open = True, ses_queue = []\<rparr>"

text \<open>What a request wants of the session it looks up.\<close>

datatype job = JobDownload | JobPacket packet | JobStream "bytes list"

text \<open>
  Program points. \<open>Lookup\<close>, \<open>Reserve\<close>, \<open>Insert\<close> and \<open>Undo\<close> are inside \<open>get_session\<close>, \<open>Got\<close> is after
  it; \<open>Took\<close> is \<open>download\<close> between taking the receiver and setting \<open>connected\<close>; \<open>Receiving\<close> and
  \<open>Reading\<close> are its two tasks; \<open>Sending\<close> is an upload; \<open>Remove\<close> and \<open>Release\<close> are the two operations
  of \<open>remove_session\<close>; \<open>Timer\<close> is the task that \<open>get_session\<close> spawns.
\<close>

datatype pc =
    Lookup job string
  | Reserve job string
  | Insert job string
  | Undo job string nat
  | Got job string nat
  | Took string nat
  | Receiving string nat rx
  | Reading string
  | Sending bool nat "packet list"
  | Timer nat string
  | Remove string
  | Release
  | Done http_status

record server =
  sv_sessions :: "(string \<times> nat) list"
  sv_active :: nat
  sv_objects :: "session list"
  sv_clock :: nat
  sv_threads :: "pc list"

definition server_init :: server where
  "server_init = \<lparr>sv_sessions = [], sv_active = 0, sv_objects = [], sv_clock = 0, sv_threads = []\<rparr>"

definition set_object :: "nat \<Rightarrow> (session \<Rightarrow> session) \<Rightarrow> server \<Rightarrow> server" where
  "set_object u f st = st\<lparr>sv_objects := (sv_objects st)[u := f (sv_objects st ! u)]\<rparr>"

text \<open>The threads that keep the sender of a session alive.\<close>

fun keeps_sender :: "nat \<Rightarrow> pc \<Rightarrow> bool" where
  "keeps_sender u (Undo _ _ v) = (u = v)"
| "keeps_sender u (Got _ _ v) = (u = v)"
| "keeps_sender u (Took _ v) = (u = v)"
| "keeps_sender u (Sending _ v _) = (u = v)"
| "keeps_sender u _ = False"

definition senders_gone :: "server \<Rightarrow> nat \<Rightarrow> bool" where
  "senders_gone st u \<longleftrightarrow> u \<notin> snd ` set (sv_sessions st) \<and> \<not> list_ex (keeps_sender u) (sv_threads st)"

section \<open>Steps\<close>

text \<open>
  A step gives the new shared state, the next program point and the tasks spawned; \<open>None\<close> when the
  thread is blocked or finished. \<open>Undo\<close> and \<open>Release\<close> are the \<open>fetch_sub(1)\<close> of the code.
\<close>

fun thread_step ::
    "transport_config \<Rightarrow> (bytes list \<Rightarrow> bytes \<Rightarrow> bool) \<Rightarrow> server \<Rightarrow> pc \<Rightarrow> (server \<times> pc \<times> pc list) option" where
  "thread_step c wok st (Lookup j sid) =
    (if length sid > max_session_id_length c then Some (st, Done ServiceUnavailable, [])
     else (case hm_get (sv_sessions st) sid of
         Some u \<Rightarrow> Some (st, Got j sid u, [])
       | None \<Rightarrow> Some (st, Reserve j sid, [])))"
| "thread_step c wok st (Reserve j sid) =
    (if sv_active st < max_sessions c
     then Some (st\<lparr>sv_active := sv_active st + 1\<rparr>, Insert j sid, [])
     else Some (st, Done ServiceUnavailable, []))"
| "thread_step c wok st (Insert j sid) =
    (case hm_get (sv_sessions st) sid of
       Some u \<Rightarrow> Some (st, Undo j sid u, [])
     | None \<Rightarrow>
         let u = length (sv_objects st) in
         Some (st\<lparr>sv_sessions := hm_insert sid u (sv_sessions st),
                  sv_objects := sv_objects st @ [new_session]\<rparr>,
               Got j sid u, [Timer (sv_clock st + session_timeout c) sid]))"
| "thread_step c wok st (Undo j sid u) =
    Some (st\<lparr>sv_active := sv_active st - 1\<rparr>, Got j sid u, [])"
| "thread_step c wok st (Got j sid u) =
    (case j of
       JobDownload \<Rightarrow>
         if ses_receiver (sv_objects st ! u)
         then Some (set_object u (\<lambda>s. s\<lparr>ses_receiver := False\<rparr>) st, Took sid u, [])
         else Some (st, Done Conflict, [])
     | JobPacket p \<Rightarrow> Some (st, Sending False u [p], [])
     | JobStream parts \<Rightarrow> Some (st, Sending True u (enumerate 0 parts), []))"
| "thread_step c wok st (Took sid u) =
    Some (set_object u (\<lambda>s. s\<lparr>ses_connected := True\<rparr>) st, Done StatusOk,
          [Receiving sid u rx_init, Reading sid])"
| "thread_step c wok st (Receiving sid u rx) =
    (case ses_queue (sv_objects st ! u) of
       [] \<Rightarrow>
         if senders_gone st u
         then Some (set_object u (\<lambda>s. s\<lparr>ses_open := False\<rparr>) st, Done StatusOk, [])
         else None
     | p # queue \<Rightarrow>
         (case receive_packet (max_buffered_packets c) wok rx p of
            Some rx' \<Rightarrow> Some (set_object u (\<lambda>s. s\<lparr>ses_queue := queue\<rparr>) st, Receiving sid u rx', [])
          | None \<Rightarrow>
              Some (set_object u (\<lambda>s. s\<lparr>ses_queue := [], ses_open := False\<rparr>) st, Remove sid, [])))"
| "thread_step c wok st (Reading sid) = Some (st, Remove sid, [])"
| "thread_step c wok st (Sending stream u []) = Some (st, Done StatusOk, [])"
| "thread_step c wok st (Sending stream u (p # ps)) =
    (let s = sv_objects st ! u in
     if \<not> ses_open s then Some (st, Done (if stream then StatusOk else Conflict), [])
     else if length (ses_queue s) < max_buffered_packets c
     then Some (set_object u (\<lambda>s. s\<lparr>ses_queue := ses_queue s @ [p]\<rparr>) st, Sending stream u ps, [])
     else None)"
| "thread_step c wok st (Timer deadline sid) =
    (if sv_clock st < deadline then None
     else (case hm_get (sv_sessions st) sid of
         None \<Rightarrow> Some (st, Done StatusOk, [])
       | Some u \<Rightarrow>
           if ses_connected (sv_objects st ! u) then Some (st, Done StatusOk, [])
           else Some (st, Remove sid, [])))"
| "thread_step c wok st (Remove sid) =
    (if hm_contains (sv_sessions st) sid
     then Some (st\<lparr>sv_sessions := hm_remove sid (sv_sessions st)\<rparr>, Release, [])
     else Some (st, Done StatusOk, []))"
| "thread_step c wok st Release =
    Some (st\<lparr>sv_active := sv_active st - 1\<rparr>, Done StatusOk, [])"
| "thread_step c wok st (Done status) = None"

text \<open>
  The events of a run: a request arrives, a thread is scheduled (with the behaviour of its backend)
  or time passes.
\<close>

datatype server_event =
    Request job string
  | Sched nat "bytes list \<Rightarrow> bytes \<Rightarrow> bool"
  | Tick nat

definition server_step :: "transport_config \<Rightarrow> server \<Rightarrow> server_event \<Rightarrow> server option" where
  "server_step c st ev =
    (case ev of
       Request j sid \<Rightarrow> Some (st\<lparr>sv_threads := sv_threads st @ [Lookup j sid]\<rparr>)
     | Tick d \<Rightarrow> Some (st\<lparr>sv_clock := sv_clock st + d\<rparr>)
     | Sched i wok \<Rightarrow>
         if i < length (sv_threads st) then
           (case thread_step c wok st (sv_threads st ! i) of
              None \<Rightarrow> None
            | Some (st', p, spawned) \<Rightarrow>
                Some (st'\<lparr>sv_threads := (sv_threads st)[i := p] @ spawned\<rparr>))
         else None)"

inductive server_reachable :: "transport_config \<Rightarrow> server \<Rightarrow> bool" for c where
  start: "server_reachable c server_init"
| step: "server_reachable c st \<Longrightarrow> server_step c st ev = Some st' \<Longrightarrow> server_reachable c st'"

fun server_run :: "transport_config \<Rightarrow> server \<Rightarrow> server_event list \<Rightarrow> server option" where
  "server_run c st [] = Some st"
| "server_run c st (ev # evs) = Option.bind (server_step c st ev) (\<lambda>st'. server_run c st' evs)"

lemma server_run_reachable:
  "server_reachable c st \<Longrightarrow> server_run c st evs = Some st' \<Longrightarrow> server_reachable c st'"
proof (induction evs arbitrary: st)
  case (Cons ev evs)
  then show ?case by (auto simp: Option.bind_eq_Some_conv intro: server_reachable.step)
qed simp

section \<open>The counter bounds the table\<close>

text \<open>A thread between a change of the map and the matching change of the counter.\<close>

fun owes :: "pc \<Rightarrow> nat" where
  "owes (Insert _ _) = 1"
| "owes (Undo _ _ _) = 1"
| "owes Release = 1"
| "owes _ = 0"

definition owed :: "pc list \<Rightarrow> nat" where
  "owed ts = sum_list (map owes ts)"

definition counted :: "transport_config \<Rightarrow> server \<Rightarrow> bool" where
  "counted c st \<longleftrightarrow> hm_ok (sv_sessions st) \<and>
    sv_active st = length (sv_sessions st) + owed (sv_threads st) \<and> sv_active st \<le> max_sessions c"

lemma sum_list_update_add:
  fixes xs :: "nat list"
  shows "i < length xs \<Longrightarrow> sum_list (xs[i := v]) + xs ! i = sum_list xs + v"
  by (induction xs arbitrary: i) (auto split: nat.splits)

lemma owed_update:
  "i < length ts \<Longrightarrow> owed (ts[i := p] @ spawned) + owes (ts ! i) = owed ts + owes p + owed spawned"
  using sum_list_update_add [of i "map owes ts" "owes p"] by (simp add: owed_def map_update)

lemma thread_step_threads: "thread_step c wok st p = Some (st', p', sp) \<Longrightarrow> sv_threads st' = sv_threads st"
  by (cases "(c, wok, st, p)" rule: thread_step.cases)
    (auto simp: set_object_def Let_def split: if_splits option.splits job.splits list.splits)

lemma length_hm_remove_one:
  "hm_ok m \<Longrightarrow> hm_contains m k \<Longrightarrow> Suc (length (hm_remove k m)) = length m"
  by (induction m) (auto simp: hm_ok_def hm_contains_def split: if_splits)

lemma thread_step_counted:
  assumes st: "thread_step c wok st p = Some (st', p', sp)" and ok: "hm_ok (sv_sessions st)"
    and active: "sv_active st = length (sv_sessions st) + owes p + rest" "sv_active st \<le> max_sessions c"
  shows "hm_ok (sv_sessions st') \<and>
    sv_active st' = length (sv_sessions st') + owes p' + owed sp + rest \<and>
    sv_active st' \<le> max_sessions c"
proof (cases p)
  case (Insert j sid)
  with st ok active show ?thesis
    by (cases "hm_get (sv_sessions st) sid")
      (auto simp: owed_def length_hm_insert hm_contains_def Let_def)
next
  case (Remove sid)
  with st ok active length_hm_remove_one [OF ok, of sid] show ?thesis
    by (cases "hm_contains (sv_sessions st) sid") (auto simp: owed_def)
next
  case (Sending b u ps)
  with st ok active show ?thesis
    by (cases ps) (auto simp: set_object_def Let_def owed_def split: if_splits)
qed (use st ok active in \<open>auto simp: set_object_def Let_def owed_def
      split: if_splits option.splits job.splits list.splits\<close>)

lemma counted_step:
  assumes "counted c st" and "server_step c st ev = Some st'"
  shows "counted c st'"
proof (cases ev)
  case (Sched i wok)
  with assms(2) obtain t p sp where i: "i < length (sv_threads st)"
    and ts: "thread_step c wok st (sv_threads st ! i) = Some (t, p, sp)"
    and st': "st' = t\<lparr>sv_threads := (sv_threads st)[i := p] @ sp\<rparr>"
    by (auto simp: server_step_def split: if_splits option.splits)
  let ?p = "sv_threads st ! i"
  have le: "owes ?p \<le> owed (sv_threads st)"
    using i by (simp add: owed_def member_le_sum_list)
  then have "sv_active st = length (sv_sessions st) + owes ?p + (owed (sv_threads st) - owes ?p)"
    using assms(1) by (simp add: counted_def)
  from thread_step_counted [OF ts _ this] assms(1)
  show ?thesis
    using owed_update [OF i, of p sp] le by (simp add: counted_def st')
qed (use assms in \<open>auto simp: server_step_def counted_def owed_def\<close>)

lemma counted_reachable: "server_reachable c st \<Longrightarrow> counted c st"
proof (induction rule: server_reachable.induct)
  case start
  then show ?case by (simp add: counted_def server_init_def owed_def)
qed (rule counted_step)

section \<open>Channels and buffers are bounded, a session has one receiver\<close>

fun uid_of :: "pc \<Rightarrow> nat option" where
  "uid_of (Undo _ _ u) = Some u"
| "uid_of (Got _ _ u) = Some u"
| "uid_of (Took _ u) = Some u"
| "uid_of (Receiving _ u _) = Some u"
| "uid_of (Sending _ u _) = Some u"
| "uid_of _ = None"

fun buffer_ok :: "nat \<Rightarrow> pc \<Rightarrow> bool" where
  "buffer_ok limit (Receiving _ _ rx) = (rx_ok rx \<and> length (pending rx) \<le> limit)"
| "buffer_ok limit _ = True"

definition thread_ok :: "transport_config \<Rightarrow> nat \<Rightarrow> pc \<Rightarrow> bool" where
  "thread_ok c n p \<longleftrightarrow> pred_option (\<lambda>u. u < n) (uid_of p) \<and> buffer_ok (max_buffered_packets c) p"

definition table_ok :: "transport_config \<Rightarrow> server \<Rightarrow> bool" where
  "table_ok c st \<longleftrightarrow>
    list_all (\<lambda>(_, u). u < length (sv_objects st)) (sv_sessions st) \<and>
    list_all (\<lambda>s. length (ses_queue s) \<le> max_buffered_packets c) (sv_objects st)"

definition server_ok :: "transport_config \<Rightarrow> server \<Rightarrow> bool" where
  "server_ok c st \<longleftrightarrow> table_ok c st \<and> list_all (thread_ok c (length (sv_objects st))) (sv_threads st)"

lemma drain_pending_length: "drain wok s = (b, s') \<Longrightarrow> length (pending s') \<le> length (pending s)"
proof (induction wok s rule: drain.induct)
  case (1 wok s)
  then show ?case
    using length_hm_remove_le [of "rx_next s" "pending s"]
    by (fastforce simp: drain.simps [of wok s] Let_def split: option.splits if_splits)
qed

lemma receive_packet_length:
  assumes "rx_ok s" and "length (pending s) \<le> limit" and "receive_packet limit wok s p = Some s'"
  shows "length (pending s') \<le> limit"
proof (cases p)
  case (Pair q payload)
  show ?thesis
  proof (cases "q < rx_next s")
    case False
    let ?t = "s\<lparr>pending := hm_insert q payload (pending s)\<rparr>"
    have "drain wok ?t = (True, s')"
      using assms(3) Pair False by (auto simp: receive_packet_def split: if_splits prod.splits bool.splits)
    moreover have "length (pending ?t) \<le> limit"
      using assms Pair False
      by (auto simp: receive_packet_def rx_ok_def length_hm_insert split: if_splits)
    ultimately show ?thesis using drain_pending_length by fastforce
  qed (use assms Pair in \<open>auto simp: receive_packet_def\<close>)
qed

lemma list_all_update: "list_all P xs \<Longrightarrow> P v \<Longrightarrow> list_all P (xs[i := v])"
  by (auto simp: list_all_iff dest: set_update_subset_insert [THEN subsetD])

lemma length_objects_set [simp]: "length (sv_objects (set_object u f st)) = length (sv_objects st)"
  by (simp add: set_object_def)

lemma table_ok_set:
  assumes "table_ok c st" and "length (ses_queue (f (sv_objects st ! u))) \<le> max_buffered_packets c"
  shows "table_ok c (set_object u f st)"
  using assms by (auto simp: table_ok_def set_object_def list_all_update)

lemma table_ok_nth:
  "table_ok c st \<Longrightarrow> u < length (sv_objects st) \<Longrightarrow>
   length (ses_queue (sv_objects st ! u)) \<le> max_buffered_packets c"
  by (auto simp: table_ok_def list_all_length)

lemma table_ok_found:
  "table_ok c st \<Longrightarrow> hm_get (sv_sessions st) sid = Some u \<Longrightarrow> u < length (sv_objects st)"
  by (auto simp: table_ok_def list_all_iff dest: map_of_SomeD)

lemma hm_insert_value: "(k', v') \<in> set (hm_insert k v m) \<Longrightarrow> v' = v \<or> (k', v') \<in> set m"
  by (induction m) (auto split: if_splits)

lemma thread_step_ok:
  assumes st: "thread_step c wok st p = Some (st', p', sp)" and ok: "table_ok c st"
    and p: "thread_ok c (length (sv_objects st)) p"
  shows "table_ok c st' \<and> list_all (thread_ok c (length (sv_objects st'))) (p' # sp) \<and>
    length (sv_objects st) \<le> length (sv_objects st')"
proof (cases p)
  case (Insert j sid)
  have "table_ok c (st\<lparr>sv_sessions := hm_insert sid (length (sv_objects st)) (sv_sessions st),
                       sv_objects := sv_objects st @ [new_session]\<rparr>)"
    using ok by (auto simp: table_ok_def list_all_iff new_session_def dest!: hm_insert_value)
  with Insert st ok show ?thesis
    by (cases "hm_get (sv_sessions st) sid")
      (auto simp: thread_ok_def Let_def dest: table_ok_found)
next
  case (Sending b u ps)
  with st ok p show ?thesis
    by (cases ps) (auto simp: thread_ok_def Let_def intro!: table_ok_set split: if_splits)
next
  case (Receiving sid u rx)
  with p have u: "u < length (sv_objects st)" and rx: "rx_ok rx" "length (pending rx) \<le> max_buffered_packets c"
    by (auto simp: thread_ok_def)
  with Receiving st ok table_ok_nth [OF ok u] show ?thesis
    by (auto simp: thread_ok_def intro!: table_ok_set split: if_splits option.splits list.splits
        dest: receive_packet_length [OF rx] receive_packet_simulates [OF rx(1)])
next
  case (Remove sid)
  with st ok show ?thesis
    by (auto simp: table_ok_def thread_ok_def list_all_iff AList.delete_eq split: if_splits)
next
  case (Took sid u)
  with st ok p table_ok_nth [OF ok, of u] show ?thesis
    by (auto simp: thread_ok_def rx_ok_init intro!: table_ok_set) (simp add: rx_init_def)
next
  case (Got j sid u)
  with st ok p table_ok_nth [OF ok, of u] show ?thesis
    by (auto simp: thread_ok_def intro!: table_ok_set split: job.splits if_splits)
next
  case (Lookup j sid)
  with st ok show ?thesis
    by (auto simp: thread_ok_def dest: table_ok_found split: if_splits option.splits)
qed (use st ok p in \<open>auto simp: thread_ok_def table_ok_def split: if_splits option.splits\<close>)

lemma thread_ok_mono: "thread_ok c n p \<Longrightarrow> n \<le> m \<Longrightarrow> thread_ok c m p"
  by (cases "uid_of p") (auto simp: thread_ok_def)

lemma server_ok_step:
  assumes "server_ok c st" and "server_step c st ev = Some st'"
  shows "server_ok c st'"
proof (cases ev)
  case (Sched i wok)
  with assms(2) obtain t p sp where i: "i < length (sv_threads st)"
    and ts: "thread_step c wok st (sv_threads st ! i) = Some (t, p, sp)"
    and st': "st' = t\<lparr>sv_threads := (sv_threads st)[i := p] @ sp\<rparr>"
    by (auto simp: server_step_def split: if_splits option.splits)
  have all: "list_all (thread_ok c (length (sv_objects st))) (sv_threads st)"
    using assms(1) by (simp add: server_ok_def)
  have ok: "table_ok c t \<and> list_all (thread_ok c (length (sv_objects t))) (p # sp) \<and>
      length (sv_objects st) \<le> length (sv_objects t)"
    using assms(1) all i by (intro thread_step_ok [OF ts]) (auto simp: server_ok_def list_all_length)
  then have "list_all (thread_ok c (length (sv_objects t))) (sv_threads st)"
    using all thread_ok_mono by (auto simp: list_all_iff)
  with ok show ?thesis by (auto simp: server_ok_def table_ok_def st' list_all_update)
qed (use assms in \<open>auto simp: server_step_def server_ok_def table_ok_def thread_ok_def\<close>)

lemma server_ok_reachable: "server_reachable c st \<Longrightarrow> server_ok c st"
proof (induction rule: server_reachable.induct)
  case start
  then show ?case by (simp add: server_ok_def table_ok_def server_init_def)
qed (rule server_ok_step)

text \<open>The receiver of a session is in the object or with exactly one download.\<close>

fun takes :: "nat \<Rightarrow> pc \<Rightarrow> nat" where
  "takes u (Took _ v) = (if u = v then 1 else 0)"
| "takes u (Receiving _ v _) = (if u = v then 1 else 0)"
| "takes u _ = 0"

definition takers :: "nat \<Rightarrow> pc list \<Rightarrow> nat" where
  "takers u ts = sum_list (map (takes u) ts)"

definition in_object :: "nat \<Rightarrow> session list \<Rightarrow> nat" where
  "in_object u ss = (if u < length ss \<and> ses_receiver (ss ! u) then 1 else 0)"

definition one_receiver :: "server \<Rightarrow> bool" where
  "one_receiver st \<longleftrightarrow> (\<forall>u. takers u (sv_threads st) + in_object u (sv_objects st) \<le> 1)"

lemma takes_ok: "thread_ok c n p \<Longrightarrow> n \<le> u \<Longrightarrow> takes u p = 0"
  by (cases p) (auto simp: thread_ok_def)

lemma takers_ok: "list_all (thread_ok c n) ts \<Longrightarrow> n \<le> u \<Longrightarrow> takers u ts = 0"
  by (induction ts) (auto simp: takers_def dest: takes_ok)

lemma in_object_keep:
  "(\<And>s. ses_receiver (f s) = ses_receiver s) \<Longrightarrow>
   in_object u (sv_objects (set_object v f st)) = in_object u (sv_objects st)"
  unfolding in_object_def set_object_def by (cases "u = v") (simp_all cong: conj_cong)

lemma thread_step_receiver:
  assumes st: "thread_step c wok st p = Some (st', p', sp)"
    and p: "thread_ok c (length (sv_objects st)) p" and u: "u < length (sv_objects st)"
  shows "takes u p' + takers u sp + in_object u (sv_objects st') \<le>
    takes u p + in_object u (sv_objects st)"
proof (cases p)
  case (Insert j sid)
  with st u show ?thesis
    by (auto simp: takers_def in_object_def nth_append Let_def split: option.splits)
next
  case (Sending b v ps)
  with st show ?thesis
    by (cases ps) (auto simp: takers_def in_object_keep Let_def split: if_splits)
next
  case (Got j sid v)
  with st p show ?thesis
    by (cases "u = v") (auto simp: takers_def in_object_def set_object_def nth_list_update
        thread_ok_def split: if_splits job.splits)
qed (use st p in \<open>auto simp: takers_def in_object_keep split: if_splits option.splits list.splits\<close>)

lemma thread_step_takers:
  assumes st: "thread_step c wok st p = Some (st', p', sp)"
    and p: "thread_ok c n p" and u: "n \<le> u"
  shows "takes u p' + takers u sp = 0"
proof (cases p)
  case (Sending b v ps)
  with st show ?thesis by (cases ps) (auto simp: takers_def Let_def split: if_splits)
qed (use assms in \<open>auto simp: takers_def thread_ok_def Let_def
       split: if_splits option.splits job.splits list.splits\<close>)

lemma takers_update:
  "i < length ts \<Longrightarrow> takers u (ts[i := p] @ sp) + takes u (ts ! i) = takers u ts + takes u p + takers u sp"
  using sum_list_update_add [of i "map (takes u) ts" "takes u p"] by (simp add: takers_def map_update)

lemma one_receiver_step:
  assumes ok: "server_ok c st" and one: "one_receiver st" and step: "server_step c st ev = Some st'"
  shows "one_receiver st'"
proof (cases ev)
  case (Sched i wok)
  with step obtain t p sp where i: "i < length (sv_threads st)"
    and ts: "thread_step c wok st (sv_threads st ! i) = Some (t, p, sp)"
    and st': "st' = t\<lparr>sv_threads := (sv_threads st)[i := p] @ sp\<rparr>"
    by (auto simp: server_step_def split: if_splits option.splits)
  have all: "list_all (thread_ok c (length (sv_objects st))) (sv_threads st)"
    using ok by (simp add: server_ok_def)
  then have p: "thread_ok c (length (sv_objects st)) (sv_threads st ! i)"
    using i by (simp add: list_all_length)
  have "takers u (sv_threads st') + in_object u (sv_objects st') \<le> 1" for u
  proof (cases "u < length (sv_objects st)")
    case True
    have "takers u (sv_threads st) + in_object u (sv_objects st) \<le> 1"
      using one by (simp add: one_receiver_def)
    with thread_step_receiver [OF ts p True] takers_update [OF i, of u p sp]
    show ?thesis by (simp add: st')
  next
    case False
    have "takes u p + takers u sp = 0"
      using thread_step_takers [OF ts p] False by simp
    moreover have "takers u (sv_threads st) = 0" using takers_ok [OF all] False by simp
    ultimately show ?thesis
      using takers_update [OF i, of u p sp] by (simp add: st' in_object_def)
  qed
  then show ?thesis by (simp add: one_receiver_def)
qed (use one step in \<open>auto simp: server_step_def one_receiver_def takers_def\<close>)

lemma one_receiver_reachable: "server_reachable c st \<Longrightarrow> one_receiver st"
proof (induction rule: server_reachable.induct)
  case start
  then show ?case by (simp add: one_receiver_def server_init_def takers_def in_object_def)
next
  case (step st ev st')
  then show ?case using one_receiver_step server_ok_reachable by blast
qed

section \<open>Looking up a session alone\<close>

text \<open>
  With no other thread in between, \<open>get_session\<close> is the sequential function below: it refuses a long
  identifier, returns the session of the table, or creates one while the limit allows.
\<close>

definition get_session :: "transport_config \<Rightarrow> server \<Rightarrow> string \<Rightarrow> (server \<times> nat) option" where
  "get_session c st sid =
    (if length sid > max_session_id_length c then None
     else (case hm_get (sv_sessions st) sid of
         Some u \<Rightarrow> Some (st, u)
       | None \<Rightarrow>
           if sv_active st < max_sessions c then
             Some (st\<lparr>sv_active := sv_active st + 1,
                      sv_sessions := hm_insert sid (length (sv_objects st)) (sv_sessions st),
                      sv_objects := sv_objects st @ [new_session]\<rparr>, length (sv_objects st))
           else None))"

fun run_alone :: "nat \<Rightarrow> transport_config \<Rightarrow> server \<Rightarrow> pc \<Rightarrow> server \<times> pc" where
  "run_alone 0 c st p = (st, p)"
| "run_alone (Suc n) c st p =
    (case p of
       Got _ _ _ \<Rightarrow> (st, p)
     | _ \<Rightarrow> (case thread_step c always st p of
           None \<Rightarrow> (st, p)
         | Some (st', p', _) \<Rightarrow> run_alone n c st' p'))"

lemma run_alone_get_session:
  "run_alone 3 c st (Lookup j sid) =
    (case get_session c st sid of
       None \<Rightarrow> (st, Done ServiceUnavailable)
     | Some (st', u) \<Rightarrow> (st', Got j sid u))"
  by (auto simp: get_session_def numeral_3_eq_3 Let_def split: option.splits)

section \<open>A timer outlives its session\<close>

text \<open>
  The timer checks only the identifier. A session that is removed and created again under the same
  identifier is removed by the timer of the first one, before its own time is over.
\<close>

definition reused_events :: "string \<Rightarrow> nat \<Rightarrow> server_event list" where
  "reused_events sid half =
    [Request (JobPacket (0, [])) sid, Sched 0 always, Sched 0 always, Sched 0 always,
     Tick half, Request JobDownload sid, Sched 2 always, Sched 2 always, Sched 2 always,
     Sched 4 always, Sched 4 always, Sched 4 always,
     Request (JobPacket (0, [])) sid, Sched 5 always, Sched 5 always, Sched 5 always,
     Tick half, Sched 1 always, Sched 1 always, Sched 1 always]"

lemma stale_timer_removes_new_session:
  assumes "session_timeout c = 2 * half" and "0 < half" and "0 < max_sessions c"
    and "length sid \<le> max_session_id_length c"
  shows "\<exists>st. server_run c server_init (reused_events sid half) = Some st \<and>
    hm_get (sv_sessions st) sid = None \<and>
    Timer (half + session_timeout c) sid \<in> set (sv_threads st) \<and> sv_clock st < half + session_timeout c"
  using assms
  by (simp add: reused_events_def server_step_def server_init_def set_object_def new_session_def
      hm_contains_def Let_def)

section \<open>Properties\<close>

text \<open>
  C30. In every interleaving of requests, timers and tasks the table never holds more than
  \<open>max_sessions\<close> sessions, the counter is the number of sessions plus the threads between a change
  of the table and the matching change of the counter (so it never wraps below zero and nothing
  leaks), and the channel of every session and the buffer of every download hold at most
  \<open>max_buffered_packets\<close> packets.
\<close>

theorem session_table_bounded:
  assumes "server_reachable c st"
  shows "length (sv_sessions st) \<le> max_sessions c \<and>
    sv_active st = length (sv_sessions st) + owed (sv_threads st) \<and>
    list_all (\<lambda>s. length (ses_queue s) \<le> max_buffered_packets c) (sv_objects st) \<and>
    list_all (buffer_ok (max_buffered_packets c)) (sv_threads st)"
  using counted_reachable [OF assms] server_ok_reachable [OF assms]
  by (auto simp: counted_def server_ok_def table_ok_def thread_ok_def list_all_iff)

theorem session_table_bounded_witness:
  "\<exists>st. server_run (transport_default\<lparr>max_sessions := 1\<rparr>) server_init
      [Request JobDownload ''a'', Request JobDownload ''b'', Sched 0 always, Sched 1 always,
       Sched 0 always, Sched 1 always] = Some st \<and>
    sv_threads st = [Insert JobDownload ''a'', Done ServiceUnavailable] \<and>
    sv_active st = length (sv_sessions st) + owed (sv_threads st) \<and> sv_active st = 1"
proof -
  let ?c = "transport_default\<lparr>max_sessions := 1\<rparr>"
  let ?evs = "[Request JobDownload ''a'', Request JobDownload ''b'', Sched 0 always, Sched 1 always,
       Sched 0 always, Sched 1 always]"
  obtain st where st: "server_run ?c server_init ?evs = Some st"
      "sv_threads st = [Insert JobDownload ''a'', Done ServiceUnavailable]" "sv_active st = 1"
    by (auto simp: server_step_def server_init_def transport_default_def)
  from session_table_bounded [OF server_run_reachable [OF server_reachable.start st(1)]] st
  show ?thesis by auto
qed



end
