(* ===== verification/Xmux.thy ===== *)
theory Xmux
  imports Xhttp_Config
begin

text \<open>
  The pool of HTTP clients of \<open>xmux.rs\<close>: which pool serves a connection or a request, when a pool
  is retired or created, and the leases that count the connections of a pool. The HTTP client of a
  pool is not part of the state; a pool is known by its index among the pools ever created.

  Runs interleave at the granularity of the code's critical sections: \<open>pick\<close>, which holds the manager
  lock throughout, is one step, and so is each section under a pool lock. The sections that
  \<open>acquire_connection\<close>, \<open>acquire_request\<close> and \<open>http_for_packet\<close> run after \<open>pick\<close> has returned are
  steps of their own. Inside \<open>pick\<close> the code takes the pool locks one after the other; that a pool
  changes while \<open>pick\<close> looks at another one is not modelled.
\<close>

section \<open>State\<close>

text \<open>
  \<open>mg_objects\<close> holds every pool ever created, since leases keep a pool after its removal;
  \<open>mg_pools\<close> are the entries of \<open>State.pools\<close>. \<open>mg_poisoned\<close> is set by a panic that happens while the
  manager lock is held: every later \<open>lock().expect(..)\<close> panics too.
\<close>

record pool =
  pl_running :: nat
  pl_reuse :: "nat option"
  pl_requests :: "nat option"
  pl_unusable_at :: "instant option"
  pl_retired :: bool

record manager =
  mg_config :: xmux_config
  mg_max_concurrency :: nat
  mg_max_connections :: nat
  mg_pools :: "nat list"
  mg_objects :: "pool list"
  mg_initial :: bool
  mg_poisoned :: bool

record lease =
  ls_connection :: nat
  ls_request :: nat

definition nonzero_budget :: "nat \<Rightarrow> nat option" where
  "nonzero_budget v = (if v \<noteq> 0 then Some v else None)"

definition consume_request :: "pool \<Rightarrow> pool" where
  "consume_request p = p\<lparr>pl_requests := map_option (\<lambda>n. n - 1) (pl_requests p)\<rparr>"

text \<open>\<open>Manager::new\<close>: the draws sample the two ranges; \<open>built\<close> is what
  \<open>build\<close>, which \<open>client.rs\<close> passes in, returns.\<close>

definition manager_new :: "xmux_config \<Rightarrow> (nat \<Rightarrow> nat) \<Rightarrow> unit result \<Rightarrow> manager result" where
  "manager_new cfg draws built =
    bindr built (\<lambda>_.
    bindr (range_sample (draws 0) (max_concurrency cfg)) (\<lambda>mc.
    bindr (range_sample (draws 1) (max_connections cfg)) (\<lambda>mn.
    Inr \<lparr>mg_config = cfg, mg_max_concurrency = mc, mg_max_connections = mn, mg_pools = [],
         mg_objects = [], mg_initial = True, mg_poisoned = False\<rparr>)))"

text \<open>
  \<open>Instant + Duration\<close> panics when the seconds leave the signed 64-bit range of the system clock.
\<close>

definition instant_add :: "instant \<Rightarrow> duration \<Rightarrow> instant result" where
  "instant_add now d = (if as_secs (now + d) < 2 ^ 63 then Inr (now + d) else Inl Panic)"

section \<open>Choosing a pool\<close>

definition exhausted :: "instant \<Rightarrow> pool \<Rightarrow> bool" where
  "exhausted now p \<longleftrightarrow> pl_reuse p = Some 0 \<or> pl_requests p = Some 0 \<or>
    (case pl_unusable_at p of None \<Rightarrow> False | Some deadline \<Rightarrow> deadline \<le> now)"

definition retire_exhausted :: "instant \<Rightarrow> pool \<Rightarrow> pool" where
  "retire_exhausted now p = (if \<not> pl_retired p \<and> exhausted now p then p\<lparr>pl_retired := True\<rparr> else p)"

fun update_all :: "(pool \<Rightarrow> pool) \<Rightarrow> nat list \<Rightarrow> pool list \<Rightarrow> pool list" where
  "update_all f [] ps = ps"
| "update_all f (u # us) ps = update_all f us (ps[u := f (ps ! u)])"

definition set_pool :: "nat \<Rightarrow> (pool \<Rightarrow> pool) \<Rightarrow> manager \<Rightarrow> manager" where
  "set_pool u f m = m\<lparr>mg_objects := (mg_objects m)[u := f (mg_objects m ! u)]\<rparr>"

definition scan :: "instant \<Rightarrow> manager \<Rightarrow> manager" where
  "scan now m = m\<lparr>mg_objects := update_all (retire_exhausted now) (mg_pools m) (mg_objects m)\<rparr>"

definition live :: "manager \<Rightarrow> nat list" where
  "live m = filter (\<lambda>u. \<not> pl_retired (mg_objects m ! u)) (mg_pools m)"

definition available :: "bool \<Rightarrow> manager \<Rightarrow> nat list" where
  "available connection m =
    filter (\<lambda>u. \<not> connection \<or> mg_max_concurrency m = 0 \<or>
                pl_running (mg_objects m ! u) < mg_max_concurrency m) (live m)"

definition drop_finished :: "manager \<Rightarrow> manager" where
  "drop_finished m = m\<lparr>mg_pools := filter (\<lambda>u. \<not> (pl_retired (mg_objects m ! u) \<and>
      pl_running (mg_objects m ! u) = 0)) (mg_pools m)\<rparr>"

text \<open>
  A new pool: the client built at the start, or a new one; the three budgets are sampled. A panic
  happens under the manager lock.
\<close>

definition sample_pool :: "instant \<Rightarrow> (nat \<Rightarrow> nat) \<Rightarrow> xmux_config \<Rightarrow> pool result" where
  "sample_pool now draws cfg =
    bindr (range_sample (draws 0) (c_max_reuse_times cfg)) (\<lambda>reuse.
    bindr (range_sample (draws 1) (h_max_request_times cfg)) (\<lambda>requests.
    bindr (range_sample (draws 2) (h_max_reusable_secs cfg)) (\<lambda>secs.
    bindr (case nonzero_budget secs of None \<Rightarrow> Inr None
           | Some seconds \<Rightarrow> bindr (instant_add now (from_secs seconds)) (\<lambda>t. Inr (Some t))) (\<lambda>unusable.
    Inr \<lparr>pl_running = 0, pl_reuse = nonzero_budget reuse, pl_requests = nonzero_budget requests,
         pl_unusable_at = unusable, pl_retired = False\<rparr>))))"

definition add_pool :: "instant \<Rightarrow> (nat \<Rightarrow> nat) \<Rightarrow> unit result \<Rightarrow> manager \<Rightarrow> manager \<times> nat result" where
  "add_pool now draws built m =
    (case (if mg_initial m then Inr () else built) of
       Inl e \<Rightarrow> (m\<lparr>mg_poisoned := (mg_poisoned m \<or> e = Panic)\<rparr>, Inl e)
     | Inr _ \<Rightarrow> (case sample_pool now draws (mg_config m) of
         Inl e \<Rightarrow> (m\<lparr>mg_initial := False, mg_poisoned := True\<rparr>, Inl e)
       | Inr p \<Rightarrow>
           (m\<lparr>mg_initial := False, mg_objects := mg_objects m @ [p],
              mg_pools := mg_pools m @ [length (mg_objects m)]\<rparr>, Inr (length (mg_objects m)))))"

definition spend_reuse :: "bool \<Rightarrow> nat \<Rightarrow> manager \<Rightarrow> manager" where
  "spend_reuse connection u m =
    (if connection then set_pool u (\<lambda>p. p\<lparr>pl_reuse := map_option (\<lambda>n. n - 1) (pl_reuse p)\<rparr>) m else m)"

definition pick ::
    "bool \<Rightarrow> instant \<Rightarrow> (nat \<Rightarrow> nat) \<Rightarrow> unit result \<Rightarrow> manager \<Rightarrow> manager \<times> nat result" where
  "pick connection now draws built m0 =
    (if mg_poisoned m0 then (m0, Inl Panic) else
     let m = scan now m0; active = available connection m in
     if active = [] \<or> (0 < mg_max_connections m \<and> length (live m) < mg_max_connections m) then
       (case add_pool now draws built (drop_finished m) of
          (m', Inl e) \<Rightarrow> (m', Inl e)
        | (m', Inr u) \<Rightarrow> (spend_reuse connection u m', Inr u))
     else
       (let u = active ! (draws 3 mod length active) in (spend_reuse connection u m, Inr u)))"

section \<open>Leases\<close>

definition count_connection :: "nat \<Rightarrow> manager \<Rightarrow> manager" where
  "count_connection u m = set_pool u (\<lambda>p. consume_request (p\<lparr>pl_running := pl_running p + 1\<rparr>)) m"

definition acquire_connection ::
    "instant \<Rightarrow> (nat \<Rightarrow> nat) \<Rightarrow> unit result \<Rightarrow> manager \<Rightarrow> manager \<times> lease result" where
  "acquire_connection now draws built m =
    (case pick True now draws built m of
       (m', Inl e) \<Rightarrow> (m', Inl e)
     | (m', Inr u) \<Rightarrow> (count_connection u m', Inr \<lparr>ls_connection = u, ls_request = u\<rparr>))"

definition acquire_request ::
    "instant \<Rightarrow> (nat \<Rightarrow> nat) \<Rightarrow> unit result \<Rightarrow> manager \<Rightarrow> manager \<times> nat result" where
  "acquire_request now draws built m =
    (case pick False now draws built m of
       (m', Inl e) \<Rightarrow> (m', Inl e)
     | (m', Inr u) \<Rightarrow> (set_pool u consume_request m', Inr u))"

text \<open>The check and the consumption of a packet are under one lock of the pool.\<close>

definition packet_usable :: "instant \<Rightarrow> pool \<Rightarrow> bool" where
  "packet_usable now p \<longleftrightarrow> \<not> (pl_retired p \<or> pl_requests p = Some 0 \<or>
    (case pl_unusable_at p of None \<Rightarrow> False | Some deadline \<Rightarrow> deadline \<le> now))"

definition check_packet :: "instant \<Rightarrow> nat \<Rightarrow> manager \<Rightarrow> manager \<times> bool" where
  "check_packet now u m =
    (if packet_usable now (mg_objects m ! u) then (set_pool u consume_request m, True)
     else (set_pool u (\<lambda>p. p\<lparr>pl_retired := True\<rparr>) m, False))"

definition http_for_packet ::
    "instant \<Rightarrow> instant \<Rightarrow> (nat \<Rightarrow> nat) \<Rightarrow> unit result \<Rightarrow> lease \<Rightarrow> manager \<Rightarrow> manager \<times> lease result" where
  "http_for_packet now later draws built l m =
    (case check_packet now (ls_request l) m of
       (m', True) \<Rightarrow> (m', Inr l)
     | (m', False) \<Rightarrow>
         (case acquire_request later draws built m' of
            (m'', Inl e) \<Rightarrow> (m'', Inl e)
          | (m'', Inr v) \<Rightarrow> (m'', Inr (l\<lparr>ls_request := v\<rparr>))))"

definition drop_lease :: "lease \<Rightarrow> manager \<Rightarrow> manager" where
  "drop_lease l m = set_pool (ls_connection l) (\<lambda>p. p\<lparr>pl_running := pl_running p - 1\<rparr>) m"

section \<open>Runs\<close>

text \<open>
  \<open>xs_picked\<close> are the connections picked whose counting is still to come. A lease is idle, about to
  pick another pool for its requests, or about to take the request from the pool it picked;
  \<open>http_for_packet\<close> borrows the lease mutably, so only an idle lease is dropped or used again. The
  place of a dropped lease is \<open>None\<close>.
\<close>

datatype lease_phase = Idle | Rotating | Spending nat

record xmux_state =
  xs_manager :: manager
  xs_picked :: "nat list"
  xs_leases :: "(lease \<times> lease_phase) option list"

datatype xmux_event =
    EvPick instant "nat \<Rightarrow> nat" "unit result"
  | EvCount nat
  | EvPacket instant nat
  | EvRotate instant "nat \<Rightarrow> nat" "unit result" nat
  | EvSpend nat
  | EvDrop nat

definition lease_at :: "xmux_state \<Rightarrow> nat \<Rightarrow> (lease \<times> lease_phase) option" where
  "lease_at s i = (if i < length (xs_leases s) then xs_leases s ! i else None)"

definition set_lease :: "nat \<Rightarrow> (lease \<times> lease_phase) option \<Rightarrow> manager \<Rightarrow> xmux_state \<Rightarrow> xmux_state" where
  "set_lease i l m s = s\<lparr>xs_manager := m, xs_leases := (xs_leases s)[i := l]\<rparr>"

fun xmux_step :: "xmux_state \<Rightarrow> xmux_event \<Rightarrow> xmux_state option" where
  "xmux_step s (EvPick now draws built) =
    (case pick True now draws built (xs_manager s) of
       (m', Inl _) \<Rightarrow> Some (s\<lparr>xs_manager := m'\<rparr>)
     | (m', Inr u) \<Rightarrow> Some (s\<lparr>xs_manager := m', xs_picked := xs_picked s @ [u]\<rparr>))"
| "xmux_step s (EvCount i) =
    (if i < length (xs_picked s) then
       (let u = xs_picked s ! i in
        Some \<lparr>xs_manager = count_connection u (xs_manager s),
              xs_picked = take i (xs_picked s) @ drop (Suc i) (xs_picked s),
              xs_leases = xs_leases s @ [Some (\<lparr>ls_connection = u, ls_request = u\<rparr>, Idle)]\<rparr>)
     else None)"
| "xmux_step s (EvPacket now i) =
    (case lease_at s i of
       Some (l, Idle) \<Rightarrow>
         (case check_packet now (ls_request l) (xs_manager s) of
            (m', usable) \<Rightarrow> Some (set_lease i (Some (l, if usable then Idle else Rotating)) m' s))
     | _ \<Rightarrow> None)"
| "xmux_step s (EvRotate now draws built i) =
    (case lease_at s i of
       Some (l, Rotating) \<Rightarrow>
         (case pick False now draws built (xs_manager s) of
            (m', Inl _) \<Rightarrow> Some (set_lease i (Some (l, Idle)) m' s)
          | (m', Inr u) \<Rightarrow> Some (set_lease i (Some (l, Spending u)) m' s))
     | _ \<Rightarrow> None)"
| "xmux_step s (EvSpend i) =
    (case lease_at s i of
       Some (l, Spending u) \<Rightarrow>
         Some (set_lease i (Some (l\<lparr>ls_request := u\<rparr>, Idle)) (set_pool u consume_request (xs_manager s)) s)
     | _ \<Rightarrow> None)"
| "xmux_step s (EvDrop i) =
    (case lease_at s i of
       Some (l, Idle) \<Rightarrow> Some (set_lease i None (drop_lease l (xs_manager s)) s)
     | _ \<Rightarrow> None)"

definition xmux_start :: "manager \<Rightarrow> xmux_state" where
  "xmux_start m = \<lparr>xs_manager = m, xs_picked = [], xs_leases = []\<rparr>"

inductive xmux_reachable :: "manager \<Rightarrow> xmux_state \<Rightarrow> bool" for m where
  start: "xmux_reachable m (xmux_start m)"
| step: "xmux_reachable m s \<Longrightarrow> xmux_step s ev = Some s' \<Longrightarrow> xmux_reachable m s'"

fun xmux_run :: "xmux_state \<Rightarrow> xmux_event list \<Rightarrow> xmux_state option" where
  "xmux_run s [] = Some s"
| "xmux_run s (ev # evs) = Option.bind (xmux_step s ev) (\<lambda>s'. xmux_run s' evs)"

lemma xmux_run_reachable: "xmux_reachable m s \<Longrightarrow> xmux_run s evs = Some s' \<Longrightarrow> xmux_reachable m s'"
proof (induction evs arbitrary: s)
  case (Cons ev evs)
  then show ?case by (auto simp: Option.bind_eq_Some_conv intro: xmux_reachable.step)
qed simp

section \<open>Invariants\<close>

definition manager_ok :: "manager \<Rightarrow> bool" where
  "manager_ok m \<longleftrightarrow> distinct (mg_pools m) \<and> (\<forall>u \<in> set (mg_pools m). u < length (mg_objects m)) \<and>
    (0 < mg_max_connections m \<longrightarrow> mg_max_concurrency m = 0 \<and> length (live m) \<le> mg_max_connections m)"

text \<open>What every operation keeps of a manager: its limits, and the connections of every old pool.\<close>

definition keeps :: "manager \<Rightarrow> manager \<Rightarrow> bool" where
  "keeps m m' \<longleftrightarrow> mg_max_concurrency m' = mg_max_concurrency m \<and>
    mg_max_connections m' = mg_max_connections m \<and>
    length (mg_objects m) \<le> length (mg_objects m') \<and>
    (\<forall>u < length (mg_objects m). pl_running (mg_objects m' ! u) = pl_running (mg_objects m ! u)) \<and>
    (\<forall>u < length (mg_objects m'). length (mg_objects m) \<le> u \<longrightarrow> pl_running (mg_objects m' ! u) = 0)"

lemma length_update_all [simp]: "length (update_all f us ps) = length ps"
  by (induction us arbitrary: ps) auto

lemma update_all_nth:
  "distinct us \<Longrightarrow> \<forall>u \<in> set us. u < length ps \<Longrightarrow> v < length ps \<Longrightarrow>
    update_all f us ps ! v = (if v \<in> set us then f (ps ! v) else ps ! v)"
  by (induction us arbitrary: ps) (auto simp: nth_list_update)

lemma retire_exhausted_simps [simp]:
  "pl_running (retire_exhausted now p) = pl_running p"
  "pl_retired (retire_exhausted now p) \<longleftrightarrow> pl_retired p \<or> exhausted now p"
  "\<not> exhausted now p \<Longrightarrow> retire_exhausted now p = p"
  by (auto simp: retire_exhausted_def)

lemma consume_request_simps [simp]:
  "pl_running (consume_request p) = pl_running p"
  "pl_retired (consume_request p) = pl_retired p"
  by (simp_all add: consume_request_def)

lemma set_pool_simps [simp]:
  "mg_pools (set_pool u f m) = mg_pools m"
  "mg_max_concurrency (set_pool u f m) = mg_max_concurrency m"
  "mg_max_connections (set_pool u f m) = mg_max_connections m"
  "length (mg_objects (set_pool u f m)) = length (mg_objects m)"
  by (simp_all add: set_pool_def)

lemma set_pool_nth:
  "v < length (mg_objects m) \<Longrightarrow>
    mg_objects (set_pool u f m) ! v = (if v = u then f (mg_objects m ! v) else mg_objects m ! v)"
  by (simp add: set_pool_def nth_list_update)

lemma length_filter_mono: "(\<And>x. x \<in> set xs \<Longrightarrow> P x \<Longrightarrow> Q x) \<Longrightarrow> length (filter P xs) \<le> length (filter Q xs)"
  by (induction xs) auto

text \<open>A section under a pool lock that never brings a retired pool back keeps the manager sound.\<close>

lemma set_pool_ok:
  assumes "manager_ok m" and "\<And>p. pl_retired p \<Longrightarrow> pl_retired (f p)"
  shows "manager_ok (set_pool u f m)"
proof -
  have "length (live (set_pool u f m)) \<le> length (live m)"
    using assms by (auto simp: live_def manager_ok_def set_pool_nth split: if_splits intro!: length_filter_mono)
  with assms(1) show ?thesis by (auto simp: manager_ok_def)
qed

lemma scan_ok:
  assumes "manager_ok m"
  shows "manager_ok (scan now m) \<and> keeps m (scan now m)"
proof -
  have nth: "mg_objects (scan now m) ! v =
      (if v \<in> set (mg_pools m) then retire_exhausted now (mg_objects m ! v) else mg_objects m ! v)"
    if "v < length (mg_objects m)" for v
    using assms that update_all_nth by (simp add: manager_ok_def scan_def)
  have "length (live (scan now m)) \<le> length (live m)"
    using assms nth unfolding live_def by (auto simp: scan_def manager_ok_def intro!: length_filter_mono)
  with assms nth show ?thesis by (auto simp: manager_ok_def keeps_def scan_def)
qed

lemma drop_finished_ok:
  assumes "manager_ok m"
  shows "manager_ok (drop_finished m) \<and> keeps m (drop_finished m) \<and> live (drop_finished m) = live m"
proof -
  have "live (drop_finished m) = live m"
    by (auto simp: live_def drop_finished_def intro!: filter_cong)
  with assms show ?thesis by (auto simp: manager_ok_def keeps_def drop_finished_def)
qed

lemma keeps_trans: "keeps a b \<Longrightarrow> keeps b c \<Longrightarrow> keeps a c"
  unfolding keeps_def by (metis le_trans not_le)

lemma keeps_refl [simp]: "keeps m m"
  by (simp add: keeps_def)

lemma keeps_set_pool:
  "(\<And>p. pl_running (f p) = pl_running p) \<Longrightarrow> keeps m (set_pool u f m)"
  by (auto simp: keeps_def set_pool_nth)

lemma sample_pool_fresh:
  assumes "sample_pool now draws cfg = Inr p"
  shows "pl_running p = 0 \<and> \<not> pl_retired p \<and> \<not> exhausted now p"
  using assms
  by (auto simp: sample_pool_def bindr_Inr_iff exhausted_def nonzero_budget_def instant_add_def
      from_secs_def split: option.splits if_splits)

lemma add_pool_ok:
  assumes ok: "manager_ok m" and room: "0 < mg_max_connections m \<Longrightarrow> length (live m) < mg_max_connections m"
    and add: "add_pool now draws built m = (m', r)"
  shows "manager_ok m' \<and> keeps m m' \<and>
    (\<forall>u. r = Inr u \<longrightarrow> u \<in> set (mg_pools m') \<and> u < length (mg_objects m') \<and>
      pl_running (mg_objects m' ! u) = 0 \<and> \<not> pl_retired (mg_objects m' ! u) \<and>
      \<not> exhausted now (mg_objects m' ! u))"
proof (cases "(mg_initial m \<or> built = Inr ()) \<and> (\<exists>p. sample_pool now draws (mg_config m) = Inr p)")
  case True
  then obtain p where p: "sample_pool now draws (mg_config m) = Inr p" by blast
  have m': "m' = m\<lparr>mg_initial := False, mg_objects := mg_objects m @ [p],
      mg_pools := mg_pools m @ [length (mg_objects m)]\<rparr>" and r: "r = Inr (length (mg_objects m))"
    using add True p by (auto simp: add_pool_def)
  have "live m' = live m @ [length (mg_objects m)]"
    using ok sample_pool_fresh [OF p]
    by (auto simp: m' live_def manager_ok_def nth_append intro!: filter_cong)
  with ok room sample_pool_fresh [OF p] show ?thesis
    by (auto simp: m' r manager_ok_def keeps_def nth_append less_Suc_eq)
next
  case False
  then have "mg_pools m' = mg_pools m \<and> mg_objects m' = mg_objects m \<and> (\<forall>u. r \<noteq> Inr u) \<and>
      mg_max_connections m' = mg_max_connections m \<and> mg_max_concurrency m' = mg_max_concurrency m"
    using add by (auto simp: add_pool_def split: if_splits sum.splits)
  with ok show ?thesis by (simp add: manager_ok_def keeps_def live_def)
qed

lemma spend_reuse_ok:
  assumes "manager_ok m"
  shows "manager_ok (spend_reuse connection u m) \<and> keeps m (spend_reuse connection u m) \<and>
    mg_pools (spend_reuse connection u m) = mg_pools m"
  using assms by (auto simp: spend_reuse_def intro: set_pool_ok keeps_set_pool)

text \<open>The pool picked, as it is after its reuse budget has been charged.\<close>

definition serves :: "bool \<Rightarrow> instant \<Rightarrow> manager \<Rightarrow> nat \<Rightarrow> bool" where
  "serves connection now m u \<longleftrightarrow> u \<in> set (mg_pools m) \<and> u < length (mg_objects m) \<and>
    packet_usable now (mg_objects m ! u) \<and>
    (connection \<and> 0 < mg_max_concurrency m \<longrightarrow> pl_running (mg_objects m ! u) < mg_max_concurrency m)"

lemma spend_reuse_serves:
  assumes "u \<in> set (mg_pools m)" and "u < length (mg_objects m)" and "\<not> pl_retired (mg_objects m ! u)"
    and "\<not> exhausted now (mg_objects m ! u)"
    and "connection \<and> 0 < mg_max_concurrency m \<longrightarrow> pl_running (mg_objects m ! u) < mg_max_concurrency m"
  shows "serves connection now (spend_reuse connection u m) u"
  using assms by (auto simp: serves_def spend_reuse_def set_pool_nth packet_usable_def exhausted_def)

lemma pick_ok:
  assumes ok: "manager_ok m" and pick: "pick connection now draws built m = (m', r)"
  shows "manager_ok m' \<and> keeps m m' \<and> (\<forall>u. r = Inr u \<longrightarrow> serves connection now m' u)"
proof (cases "mg_poisoned m")
  case True
  with ok pick show ?thesis by (auto simp: pick_def)
next
  case unpoisoned: False
  define n where "n = scan now m"
  have n: "manager_ok n" "keeps m n" using scan_ok [OF ok] by (simp_all add: n_def)
  show ?thesis
  proof (cases "available connection n = [] \<or> (0 < mg_max_connections n \<and> length (live n) < mg_max_connections n)")
    case True
    obtain k q where k: "add_pool now draws built (drop_finished n) = (k, q)" by fastforce
    note d = drop_finished_ok [OF n(1)]
    have "0 < mg_max_connections (drop_finished n) \<Longrightarrow>
        length (live (drop_finished n)) < mg_max_connections (drop_finished n)"
      using True d n(1) by (auto simp: drop_finished_def manager_ok_def available_def)
    note a = add_pool_ok [OF conjunct1 [OF d] this k]
    have "m' = (case q of Inl e \<Rightarrow> k | Inr u \<Rightarrow> spend_reuse connection u k) \<and> r = q"
      using pick True k unpoisoned by (auto simp: pick_def n_def [symmetric] Let_def split: sum.splits)
    moreover have "keeps m k" using a d n(2) keeps_trans by blast
    ultimately show ?thesis
      using a spend_reuse_ok [of k connection] keeps_trans [of m k]
      by (auto split: sum.splits intro: spend_reuse_serves)
  next
    case False
    define u where "u = available connection n ! (draws 3 mod length (available connection n))"
    have u: "u \<in> set (available connection n)" using False by (simp add: u_def)
    have "\<not> exhausted now (mg_objects n ! u)"
      using u ok update_all_nth [of "mg_pools m" "mg_objects m" u "retire_exhausted now"]
      by (auto simp: available_def live_def n_def scan_def manager_ok_def)
    moreover have "m' = spend_reuse connection u n \<and> r = Inr u"
      using pick False unpoisoned by (auto simp: pick_def n_def [symmetric] u_def Let_def)
    ultimately show ?thesis
      using u n spend_reuse_ok [OF n(1), of connection u]
      by (auto simp: available_def live_def manager_ok_def intro!: spend_reuse_serves dest: keeps_trans)
  qed
qed

section \<open>Leases of a run\<close>

definition holds_connection :: "nat \<Rightarrow> (lease \<times> lease_phase) option \<Rightarrow> bool" where
  "holds_connection u l \<longleftrightarrow> (case l of None \<Rightarrow> False | Some (k, _) \<Rightarrow> ls_connection k = u)"

definition connections :: "xmux_state \<Rightarrow> nat \<Rightarrow> nat" where
  "connections s u = length (filter (holds_connection u) (xs_leases s))"

definition lease_ok :: "nat \<Rightarrow> (lease \<times> lease_phase) option \<Rightarrow> bool" where
  "lease_ok n l \<longleftrightarrow> (case l of None \<Rightarrow> True
    | Some (k, ph) \<Rightarrow> ls_connection k < n \<and> ls_request k < n \<and> (\<forall>u. ph = Spending u \<longrightarrow> u < n))"

definition xmux_inv :: "xmux_state \<Rightarrow> bool" where
  "xmux_inv s \<longleftrightarrow> manager_ok (xs_manager s) \<and>
    list_all (\<lambda>u. u < length (mg_objects (xs_manager s))) (xs_picked s) \<and>
    list_all (lease_ok (length (mg_objects (xs_manager s)))) (xs_leases s) \<and>
    (\<forall>u < length (mg_objects (xs_manager s)).
      pl_running (mg_objects (xs_manager s) ! u) = connections s u)"

definition same_limits :: "manager \<Rightarrow> manager \<Rightarrow> bool" where
  "same_limits m m' \<longleftrightarrow> mg_max_concurrency m' = mg_max_concurrency m \<and>
    mg_max_connections m' = mg_max_connections m"

lemma lease_ok_mono: "n \<le> k \<Longrightarrow> lease_ok n l \<Longrightarrow> lease_ok k l"
  by (fastforce simp: lease_ok_def split: option.splits)

lemma length_filter_update:
  "i < length xs \<Longrightarrow> length (filter P (xs[i := y])) + (if P (xs ! i) then 1 else 0) =
    length (filter P xs) + (if P y then 1 else 0)"
proof (induction xs arbitrary: i)
  case (Cons x xs)
  then show ?case by (cases i) auto
qed simp

lemma connections_update:
  "i < length (xs_leases s) \<Longrightarrow>
    connections (set_lease i l m s) u + (if holds_connection u (xs_leases s ! i) then 1 else 0) =
    connections s u + (if holds_connection u l then 1 else 0)"
  using length_filter_update [of i "xs_leases s" "holds_connection u" l]
  by (simp add: connections_def set_lease_def)

text \<open>A pool that no lease has seen yet has no connection.\<close>

lemma connections_new:
  assumes "list_all (lease_ok n) (xs_leases s)" and "n \<le> u"
  shows "connections s u = 0"
  using assms by (force simp: connections_def list_all_iff lease_ok_def holds_connection_def
      filter_empty_conv split: option.splits)

text \<open>A step that keeps every connection of the manager and of lease \<open>i\<close> keeps the invariant.\<close>

lemma keeps_inv:
  assumes inv: "xmux_inv s" and m': "manager_ok m'" "keeps (xs_manager s) m'"
  shows "xmux_inv (s\<lparr>xs_manager := m'\<rparr>)"
proof -
  let ?n = "length (mg_objects (xs_manager s))"
  have le: "?n \<le> length (mg_objects m')" using m'(2) by (simp add: keeps_def)
  have "pl_running (mg_objects m' ! u) = connections s u" if "u < length (mg_objects m')" for u
    using that inv m'(2) connections_new [of ?n s u]
    by (cases "u < ?n") (auto simp: xmux_inv_def keeps_def)
  with inv m'(1) le show ?thesis
    by (auto simp: xmux_inv_def list_all_iff connections_def intro: lease_ok_mono [OF le])
qed

lemma relabel_inv:
  assumes inv: "xmux_inv s" and i: "lease_at s i = Some (l, ph)"
    and l': "lease_ok (length (mg_objects (xs_manager s))) (Some (l', ph'))"
      "ls_connection l' = ls_connection l"
  shows "xmux_inv (set_lease i (Some (l', ph')) (xs_manager s) s)"
proof -
  have "i < length (xs_leases s)" "xs_leases s ! i = Some (l, ph)"
    using i by (auto simp: lease_at_def split: if_splits)
  then have "connections (set_lease i (Some (l', ph')) (xs_manager s) s) u = connections s u" for u
    using connections_update [of i s "Some (l', ph')" "xs_manager s" u] l'(2)
    by (simp add: holds_connection_def split: if_splits)
  with inv l'(1) show ?thesis
    by (auto simp: xmux_inv_def set_lease_def list_all_iff dest!: set_update_subset_insert [THEN subsetD])
qed

lemma lease_atD:
  assumes "xmux_inv s" and "lease_at s i = Some (l, ph)"
  shows "i < length (xs_leases s)" and "xs_leases s ! i = Some (l, ph)"
    and "lease_ok (length (mg_objects (xs_manager s))) (Some (l, ph))"
proof -
  show i: "i < length (xs_leases s)" "xs_leases s ! i = Some (l, ph)"
    using assms(2) by (auto simp: lease_at_def split: if_splits)
  then show "lease_ok (length (mg_objects (xs_manager s))) (Some (l, ph))"
    using assms(1) by (metis xmux_inv_def list_all_length)
qed

lemma lease_at_manager [simp]: "lease_at (s\<lparr>xs_manager := m\<rparr>) i = lease_at s i"
  by (simp add: lease_at_def)

lemma set_lease_split:
  "set_lease i l m s = set_lease i l (xs_manager (s\<lparr>xs_manager := m\<rparr>)) (s\<lparr>xs_manager := m\<rparr>)"
  by (simp add: set_lease_def)

text \<open>The steps that pick, check or charge a pool: connections stay as they are.\<close>

lemma lease_step_inv:
  assumes inv: "xmux_inv s" and i: "lease_at s i = Some (l, ph)"
    and m': "manager_ok m'" "keeps (xs_manager s) m'"
    and l': "lease_ok (length (mg_objects m')) (Some (l', ph'))" "ls_connection l' = ls_connection l"
  shows "xmux_inv (set_lease i (Some (l', ph')) m' s)"
proof -
  have "lease_at (s\<lparr>xs_manager := m'\<rparr>) i = Some (l, ph)" using i by simp
  from relabel_inv [OF keeps_inv [OF inv m'] this, of l' ph'] l' show ?thesis
    by (subst set_lease_split) simp
qed

lemma check_packet_ok:
  assumes "manager_ok m" and "check_packet now u m = (m', usable)"
  shows "manager_ok m' \<and> keeps m m' \<and> length (mg_objects m') = length (mg_objects m)"
  using assms by (auto simp: check_packet_def split: if_splits intro: set_pool_ok keeps_set_pool)

lemma count_inv:
  assumes inv: "xmux_inv s" and step: "xmux_step s (EvCount i) = Some s'"
  shows "xmux_inv s'"
proof -
  let ?m = "xs_manager s" and ?u = "xs_picked s ! i"
  have i: "i < length (xs_picked s)" using step by (simp split: if_splits)
  then have u: "?u < length (mg_objects ?m)" using inv by (simp add: xmux_inv_def list_all_length)
  have s': "s' = \<lparr>xs_manager = count_connection ?u ?m,
      xs_picked = take i (xs_picked s) @ drop (Suc i) (xs_picked s),
      xs_leases = xs_leases s @ [Some (\<lparr>ls_connection = ?u, ls_request = ?u\<rparr>, Idle)]\<rparr>"
    using step i by (simp add: Let_def)
  have "connections s' v = connections s v + (if v = ?u then 1 else 0)" for v
    by (auto simp: s' connections_def holds_connection_def)
  moreover have "manager_ok (count_connection ?u ?m)"
    using inv by (auto simp: count_connection_def xmux_inv_def intro: set_pool_ok)
  ultimately show ?thesis
    using inv u
    by (auto simp: xmux_inv_def s' count_connection_def set_pool_nth lease_ok_def list_all_iff
        dest: in_set_takeD in_set_dropD)
qed

lemma drop_inv:
  assumes inv: "xmux_inv s" and i: "lease_at s i = Some (l, Idle)"
  shows "xmux_inv (set_lease i None (drop_lease l (xs_manager s)) s)" (is "xmux_inv ?s'")
proof -
  note at = lease_atD [OF inv i]
  have "manager_ok (drop_lease l (xs_manager s))"
    using inv by (auto simp: drop_lease_def xmux_inv_def intro: set_pool_ok)
  moreover have "pl_running (mg_objects (drop_lease l (xs_manager s)) ! u) = connections ?s' u"
    if "u < length (mg_objects (xs_manager s))" for u
    using that inv at(2) connections_update [OF at(1), of None "drop_lease l (xs_manager s)" u]
    by (auto simp: xmux_inv_def drop_lease_def set_pool_nth holds_connection_def split: if_splits)
  ultimately show ?thesis
    using inv by (auto simp: xmux_inv_def set_lease_def drop_lease_def list_all_iff lease_ok_def
        dest!: set_update_subset_insert [THEN subsetD])
qed

lemma pick_step_inv:
  assumes inv: "xmux_inv s" and step: "xmux_step s (EvPick now draws built) = Some s'"
  shows "xmux_inv s' \<and> same_limits (xs_manager s) (xs_manager s')"
proof -
  obtain m' r where p: "pick True now draws built (xs_manager s) = (m', r)" by fastforce
  have "manager_ok (xs_manager s)" using inv by (simp add: xmux_inv_def)
  note ok = pick_ok [OF this p]
  then have inv': "xmux_inv (s\<lparr>xs_manager := m'\<rparr>)" using keeps_inv [OF inv] by blast
  have limits: "same_limits (xs_manager s) m'" using ok by (simp add: same_limits_def keeps_def)
  show ?thesis
  proof (cases r)
    case (Inr u)
    then have "u < length (mg_objects m')" using ok by (simp add: serves_def)
    with inv' limits step p Inr show ?thesis by (auto simp: xmux_inv_def connections_def)
  qed (use inv' limits step p in auto)
qed

lemma rotate_inv:
  assumes inv: "xmux_inv s" and step: "xmux_step s (EvRotate now draws built i) = Some s'"
  shows "xmux_inv s' \<and> same_limits (xs_manager s) (xs_manager s')"
proof -
  obtain m' r where p: "pick False now draws built (xs_manager s) = (m', r)" by fastforce
  have "manager_ok (xs_manager s)" using inv by (simp add: xmux_inv_def)
  note ok = pick_ok [OF this p]
  obtain l where l: "lease_at s i = Some (l, Rotating)"
    using step by (auto split: option.splits lease_phase.splits)
  have le: "length (mg_objects (xs_manager s)) \<le> length (mg_objects m')" using ok by (simp add: keeps_def)
  have s': "s' = set_lease i (Some (l, case r of Inl _ \<Rightarrow> Idle | Inr u \<Rightarrow> Spending u)) m' s"
    using step p l by (auto split: sum.splits)
  have "lease_ok (length (mg_objects m')) (Some (l, case r of Inl _ \<Rightarrow> Idle | Inr u \<Rightarrow> Spending u))"
    using lease_ok_mono [OF le lease_atD(3) [OF inv l]] ok
    by (auto simp: lease_ok_def serves_def split: sum.splits)
  with lease_step_inv [OF inv l] ok show ?thesis
    by (auto simp: s' set_lease_def same_limits_def keeps_def)
qed

lemma packet_inv:
  assumes inv: "xmux_inv s" and step: "xmux_step s (EvPacket now i) = Some s'"
  shows "xmux_inv s' \<and> same_limits (xs_manager s) (xs_manager s')"
proof -
  obtain l where l: "lease_at s i = Some (l, Idle)"
    using step by (auto split: option.splits lease_phase.splits)
  obtain m' usable where p: "check_packet now (ls_request l) (xs_manager s) = (m', usable)" by fastforce
  have "manager_ok (xs_manager s)" using inv by (simp add: xmux_inv_def)
  note ok = check_packet_ok [OF this p]
  have "s' = set_lease i (Some (l, if usable then Idle else Rotating)) m' s"
    using step l p by simp
  with lease_step_inv [OF inv l, of m' l] lease_atD(3) [OF inv l] ok show ?thesis
    by (auto simp: lease_ok_def set_lease_def same_limits_def keeps_def)
qed

lemma spend_inv:
  assumes inv: "xmux_inv s" and step: "xmux_step s (EvSpend i) = Some s'"
  shows "xmux_inv s' \<and> same_limits (xs_manager s) (xs_manager s')"
proof -
  obtain l u where l: "lease_at s i = Some (l, Spending u)"
    using step by (auto split: option.splits lease_phase.splits)
  have "manager_ok (set_pool u consume_request (xs_manager s))"
    using inv by (auto simp: xmux_inv_def intro: set_pool_ok)
  then show ?thesis
    using step l lease_step_inv [OF inv l, of "set_pool u consume_request (xs_manager s)" "l\<lparr>ls_request := u\<rparr>" Idle]
      lease_atD(3) [OF inv l] keeps_set_pool [of consume_request "xs_manager s" u]
    by (auto simp: lease_ok_def set_lease_def same_limits_def)
qed

lemma xmux_step_inv:
  assumes "xmux_inv s" and "xmux_step s ev = Some s'"
  shows "xmux_inv s' \<and> same_limits (xs_manager s) (xs_manager s')"
proof (cases ev)
  case (EvCount i)
  with assms show ?thesis using count_inv [of s i s']
    by (auto simp: same_limits_def count_connection_def Let_def split: if_splits)
next
  case (EvDrop i)
  then obtain l where l: "lease_at s i = Some (l, Idle)"
    using assms(2) by (auto split: option.splits lease_phase.splits)
  with assms EvDrop show ?thesis using drop_inv [OF assms(1) l]
    by (auto simp: same_limits_def set_lease_def drop_lease_def)
qed (use assms pick_step_inv rotate_inv packet_inv spend_inv in blast)+

lemma manager_new_inv: 
  assumes "xmux_ok cfg" and "manager_new cfg draws built = Inr m"
  shows "xmux_inv (xmux_start m) \<and> mg_max_connections m \<le> range_to (max_connections cfg) \<and>
    mg_max_concurrency m \<le> range_to (max_concurrency cfg)"
proof -
  have ok: "range_ok (max_concurrency cfg)" "range_ok (max_connections cfg)"
    using assms(1) by (simp_all add: xmux_ok_def)
  obtain a where a: "range_sample (draws 0) (max_concurrency cfg) = Inr a" "a \<le> range_to (max_concurrency cfg)"
    using range_sample_bounds [OF ok(1)] by metis
  obtain b where b: "range_sample (draws 1) (max_connections cfg) = Inr b" "b \<le> range_to (max_connections cfg)"
    using range_sample_bounds [OF ok(2)] by metis
  have "m = \<lparr>mg_config = cfg, mg_max_concurrency = a, mg_max_connections = b, mg_pools = [],
      mg_objects = [], mg_initial = True, mg_poisoned = False\<rparr>"
    using assms(2) a(1) b(1) by (auto simp: manager_new_def bindr_Inr_iff)
  with a(2) b(2) assms(1) show ?thesis
    by (auto simp: xmux_inv_def xmux_start_def manager_ok_def live_def xmux_ok_def)
qed

lemma xmux_reachable_inv:
  assumes "xmux_reachable m s" and "xmux_inv (xmux_start m)"
  shows "xmux_inv s \<and> same_limits m (xs_manager s)"
  using assms
proof (induction rule: xmux_reachable.induct)
  case start
  then show ?case by (simp add: same_limits_def xmux_start_def)
next
  case (step s ev s')
  then show ?case using xmux_step_inv [of s ev s'] by (simp add: same_limits_def)
qed

section \<open>What the pools promise\<close>

text \<open>The steps of one caller that nobody interrupts are the operations of the code.\<close>

lemma run_alone_acquire_connection:
  assumes "acquire_connection now draws built (xs_manager s) = (m', Inr l)"
  shows "xmux_run s [EvPick now draws built, EvCount (length (xs_picked s))] =
    Some (s\<lparr>xs_manager := m', xs_leases := xs_leases s @ [Some (l, Idle)]\<rparr>)"
  using assms by (auto simp: acquire_connection_def split: prod.splits sum.splits)

lemma run_alone_http_for_packet:
  assumes "lease_at s i = Some (l, Idle)"
    and "check_packet now (ls_request l) (xs_manager s) = (m1, False)"
    and "http_for_packet now later draws built l (xs_manager s) = (m', Inr l')"
  shows "xmux_run s [EvPacket now i, EvRotate later draws built i, EvSpend i] =
    Some (set_lease i (Some (l', Idle)) m' s)"
proof -
  have at: "lease_at (set_lease i x m s) i = x" for x m
    using assms(1) by (simp add: lease_at_def set_lease_def split: if_splits)
  have again: "set_lease i x m (set_lease i y k s) = set_lease i x m s" for x y m k
    by (simp add: set_lease_def)
  have mgr: "xs_manager (set_lease i x m s) = m" for x m by (simp add: set_lease_def)
  show ?thesis
    using assms
    by (auto simp: http_for_packet_def acquire_request_def at again mgr split: prod.splits sum.splits)
qed

text \<open>
  Callers one after the other never exceed \<open>max_concurrency\<close>: a connection is added only to a pool
  below the limit.
\<close>

lemma acquire_connection_within_limit:
  assumes ok: "manager_ok m" and limit: "0 < mg_max_concurrency m"
    and below: "\<forall>u < length (mg_objects m). pl_running (mg_objects m ! u) \<le> mg_max_concurrency m"
    and acq: "acquire_connection now draws built m = (m', r)"
  shows "\<forall>u < length (mg_objects m'). pl_running (mg_objects m' ! u) \<le> mg_max_concurrency m"
proof -
  obtain k q where k: "pick True now draws built m = (k, q)" by fastforce
  note p = pick_ok [OF ok k]
  have old: "pl_running (mg_objects k ! u) \<le> mg_max_concurrency m" if "u < length (mg_objects k)" for u
    using that p below by (cases "u < length (mg_objects m)") (auto simp: keeps_def)
  show ?thesis
    using acq k p old limit
    by (auto simp: acquire_connection_def count_connection_def set_pool_nth serves_def keeps_def Suc_le_eq
        split: sum.splits)
qed

text \<open>
  With concurrent callers the limit is exceeded: both pick the pool before either counts its
  connection, because \<open>acquire_connection\<close> increments \<open>running\<close> after \<open>pick\<close> has released the manager
  lock.
\<close>

definition one_at_a_time :: xmux_config where
  "one_at_a_time = \<lparr>max_concurrency = \<lparr>range_from = 1, range_to = 1\<rparr>,
    max_connections = \<lparr>range_from = 0, range_to = 0\<rparr>, c_max_reuse_times = \<lparr>range_from = 0, range_to = 0\<rparr>,
    h_max_request_times = \<lparr>range_from = 0, range_to = 0\<rparr>,
    h_max_reusable_secs = \<lparr>range_from = 0, range_to = 0\<rparr>, h_keep_alive_period = 0\<rparr>"

definition race :: "xmux_event list" where
  "race = [EvPick 0 (\<lambda>_. 0) (Inr ()), EvPick 0 (\<lambda>_. 0) (Inr ()), EvCount 0, EvCount 0]"

definition one_manager :: manager where
  "one_manager = \<lparr>mg_config = one_at_a_time, mg_max_concurrency = 1, mg_max_connections = 0,
    mg_pools = [], mg_objects = [], mg_initial = True, mg_poisoned = False\<rparr>"

lemma concurrency_limit_race:
  "manager_new one_at_a_time (\<lambda>_. 0) (Inr ()) = Inr one_manager \<and>
    (\<exists>s. xmux_reachable one_manager s \<and> map pl_running (mg_objects (xs_manager s)) = [2])"
proof -
  have new: "manager_new one_at_a_time (\<lambda>_. 0) (Inr ()) = Inr one_manager"
    by (simp add: manager_new_def range_sample_def one_at_a_time_def one_manager_def)
  have "map_option (\<lambda>s. map pl_running (mg_objects (xs_manager s))) (xmux_run (xmux_start one_manager) race) = Some [2]"
    by code_simp
  then obtain s where s: "xmux_run (xmux_start one_manager) race = Some s"
    and two: "map pl_running (mg_objects (xs_manager s)) = [2]" by auto
  show ?thesis
  proof (intro conjI exI)
    show "xmux_reachable one_manager s" by (rule xmux_run_reachable [OF xmux_reachable.start s])
  qed (fact new two)+
qed

text \<open>A validated range of reusable seconds can make the deadline leave the clock: \<open>pick\<close> panics and
  leaves the manager lock poisoned.\<close>

lemma long_deadline_poisons:
  assumes "c_max_reuse_times (mg_config m) = \<lparr>range_from = 0, range_to = 0\<rparr>"
    and "h_max_request_times (mg_config m) = \<lparr>range_from = 0, range_to = 0\<rparr>"
    and "h_max_reusable_secs (mg_config m) = \<lparr>range_from = 2 ^ 63, range_to = 2 ^ 63\<rparr>"
    and "mg_pools m = []" and "mg_initial m" and "\<not> mg_poisoned m"
  shows "\<exists>m'. pick connection now draws built m = (m', Inl Panic) \<and> mg_poisoned m'"
proof -
  have "\<not> as_secs (now + from_secs (2 ^ 63)) < 2 ^ 63"
    by (simp add: as_secs_def from_secs_def)
  then have "sample_pool now draws (mg_config m) = Inl Panic"
    using assms(1-3) by (simp add: sample_pool_def range_sample_def nonzero_budget_def instant_add_def)
  then show ?thesis
    using assms(4-6) by (simp add: pick_def scan_def available_def live_def drop_finished_def add_pool_def Let_def)
qed

text \<open>
  C33. Bounded connections: with a validated configuration that limits \<open>max_connections\<close>, the pools
  that still serve requests never outnumber the sampled limit, which never exceeds the configured
  one, whatever the interleaving of connections, packets, rotations and drops.
\<close>

theorem xmux_connections_bounded:
  assumes "xmux_ok cfg" and "manager_new cfg draws built = Inr m" and "xmux_reachable m s"
    and "0 < mg_max_connections m"
  shows "length (live (xs_manager s)) \<le> mg_max_connections m \<and>
    mg_max_connections m \<le> range_to (max_connections cfg)"
proof -
  note new = manager_new_inv [OF assms(1,2)]
  have "manager_ok (xs_manager s) \<and> mg_max_connections (xs_manager s) = mg_max_connections m"
    using xmux_reachable_inv [OF assms(3) conjunct1 [OF new]] by (simp add: xmux_inv_def same_limits_def)
  with new assms(4) show ?thesis by (auto simp: manager_ok_def)
qed

definition two_connections :: xmux_config where
  "two_connections = one_at_a_time\<lparr>max_concurrency := \<lparr>range_from = 0, range_to = 0\<rparr>,
    max_connections := \<lparr>range_from = 2, range_to = 2\<rparr>\<rparr>"

definition two_manager :: manager where
  "two_manager = one_manager\<lparr>mg_config := two_connections, mg_max_concurrency := 0,
    mg_max_connections := 2\<rparr>"

lemma two_manager_new: "xmux_ok two_connections" "manager_new two_connections (\<lambda>_. 0) (Inr ()) = Inr two_manager"
  by (simp_all add: xmux_ok_def range_ok_def two_connections_def one_at_a_time_def manager_new_def
      range_sample_def two_manager_def one_manager_def)

lemma two_manager_run:
  obtains s where "xmux_reachable two_manager s" and "length (live (xs_manager s)) = 2"
    and "map pl_running (mg_objects (xs_manager s)) = [1, 1]"
proof -
  have "map_option (\<lambda>s. (length (live (xs_manager s)), map pl_running (mg_objects (xs_manager s))))
      (xmux_run (xmux_start two_manager) (race @ [EvPacket 1 0])) = Some (2, [1, 1])"
    by code_simp
  then obtain s where s: "xmux_run (xmux_start two_manager) (race @ [EvPacket 1 0]) = Some s"
    and shape: "length (live (xs_manager s)) = 2" "map pl_running (mg_objects (xs_manager s)) = [1, 1]"
    by (auto simp del: map_eq_Cons_conv list.map_disc_iff One_nat_def)
  show ?thesis using that [OF xmux_run_reachable [OF xmux_reachable.start s] shape] .
qed

theorem xmux_connections_bounded_witness:
  "\<exists>s. xmux_reachable two_manager s \<and> length (live (xs_manager s)) = 2 \<and>
    length (live (xs_manager s)) \<le> mg_max_connections two_manager \<and> mg_max_connections two_manager \<le> 2"
proof -
  obtain s where s: "xmux_reachable two_manager s" "length (live (xs_manager s)) = 2"
    using two_manager_run by metis
  have "0 < mg_max_connections two_manager" by (simp add: two_manager_def)
  from xmux_connections_bounded [OF two_manager_new s(1) this] s show ?thesis
    by (auto simp: two_connections_def)
qed

text \<open>
  C34. Exact leases: in every reachable state the \<open>running\<close> counter of a pool is the number of leases
  that hold a connection of it, so the saturating decrement of \<open>Drop\<close> never loses a count and a pool
  is removed only when no lease holds it.
\<close>

theorem xmux_leases_counted:
  assumes "xmux_ok cfg" and "manager_new cfg draws built = Inr m" and "xmux_reachable m s"
    and "u < length (mg_objects (xs_manager s))"
  shows "pl_running (mg_objects (xs_manager s) ! u) = connections s u"
  using xmux_reachable_inv [OF assms(3) conjunct1 [OF manager_new_inv [OF assms(1,2)]]] assms(4)
  by (simp add: xmux_inv_def)

theorem xmux_leases_counted_witness:
  "\<exists>s. xmux_reachable two_manager s \<and> connections s 0 = 1 \<and> connections s 1 = 1"
proof -
  obtain s where s: "xmux_reachable two_manager s" "map pl_running (mg_objects (xs_manager s)) = [1, 1]"
    using two_manager_run by metis
  obtain p q where pq: "mg_objects (xs_manager s) = [p, q]" "pl_running p = 1" "pl_running q = 1"
    using s(2) by (auto simp: map_eq_Cons_conv)
  have "connections s 0 = 1"
    using xmux_leases_counted [OF two_manager_new s(1), of 0] by (simp add: pq)
  moreover have "connections s 1 = 1"
    using xmux_leases_counted [OF two_manager_new s(1), of 1] by (simp add: pq)
  ultimately show ?thesis using s(1) by blast
qed

end
