(* ===== verification/Xhttp_Client.thy ===== *)
theory Xhttp_Client
  imports Xhttp_Server Xmux
begin

text \<open>
  The XHTTP client of \<open>client.rs\<close>: the checks of \<open>Client::new\<close>, the base request, the request of a
  session or a packet, the upload loop and the choice of the TLS material. The last part shows that
  the server admits what the client builds and reads back what the client wrote.
\<close>

section \<open>Configuration\<close>

record client_tls =
  ct_insecure :: bool
  ct_ca_pem :: "string option"
  ct_ca_certificate :: "string option"
  ct_certificate :: "string option"
  ct_certificate_path :: "string option"
  ct_key :: "string option"
  ct_key_path :: "string option"
  ct_http2_only :: bool
  ct_http3 :: bool
  ct_ech :: "string option"
  ct_ech_path :: "string option"
  ct_ech_bytes :: "bytes option"

record client_config =
  cc_server :: string
  cc_transport :: transport_config
  cc_tls :: client_tls

definition ech_sources :: "client_tls \<Rightarrow> nat" where
  "ech_sources t =
    (if ct_ech t \<noteq> None then 1 else 0) + (if ct_ech_path t \<noteq> None then 1 else 0) +
    (if ct_ech_bytes t \<noteq> None then 1 else 0)"

text \<open>A file is read by \<open>std::fs::read\<close>, the parameter \<open>files\<close>.\<close>

definition load_ech_pem :: "(string \<Rightarrow> bytes option) \<Rightarrow> client_tls \<Rightarrow> bytes option result" where
  "load_ech_pem files t =
    (case (ct_ech t, ct_ech_path t, ct_ech_bytes t) of
       (Some pem, None, None) \<Rightarrow> Inr (Some (as_bytes pem))
     | (None, Some path, None) \<Rightarrow>
         bindr (with_context ''read ECH config'' (files path)) (\<lambda>bs. Inr (Some bs))
     | (None, None, Some bs) \<Rightarrow> Inr (Some bs)
     | (None, None, None) \<Rightarrow> Inr None
     | _ \<Rightarrow> Inl (Bail ''ECH config, config_path and discovered config are mutually exclusive''))"

definition pem_or_path ::
    "(string \<Rightarrow> bytes option) \<Rightarrow> string \<Rightarrow> string \<Rightarrow> string option \<Rightarrow> string option \<Rightarrow> bytes option result" where
  "pem_or_path files reading both pem path =
    (case (pem, path) of
       (Some p, None) \<Rightarrow> Inr (Some (as_bytes p))
     | (None, Some f) \<Rightarrow> bindr (with_context reading (files f)) (\<lambda>bs. Inr (Some bs))
     | (None, None) \<Rightarrow> Inr None
     | (Some _, Some _) \<Rightarrow> Inl (Bail both))"

record tls_material =
  tm_ca :: "bytes option"
  tm_certificate :: "bytes option"
  tm_key :: "bytes option"
  tm_alpn :: "string list"
  tm_ech :: "bytes option"

definition client_alpn :: "client_tls \<Rightarrow> string list" where
  "client_alpn t =
    (if ct_http3 t then [''h3''] else if ct_http2_only t then [''h2''] else [''h2'', ''http/1.1''])"

definition client_material :: "(string \<Rightarrow> bytes option) \<Rightarrow> client_tls \<Rightarrow> tls_material result" where
  "client_material files t =
    bindr (pem_or_path files ''read CA certificate''
             ''CA PEM and CA certificate path are mutually exclusive''
             (ct_ca_pem t) (ct_ca_certificate t)) (\<lambda>ca.
    bindr (pem_or_path files ''read TLS client certificate''
             ''client certificate and client_certificate_path are mutually exclusive''
             (ct_certificate t) (ct_certificate_path t)) (\<lambda>certificate.
    bindr (pem_or_path files ''read TLS client key''
             ''client key and client_key_path are mutually exclusive''
             (ct_key t) (ct_key_path t)) (\<lambda>key.
    bindr (load_ech_pem files t) (\<lambda>ech.
    Inr \<lparr>tm_ca = ca, tm_certificate = certificate, tm_key = key, tm_alpn = client_alpn t,
         tm_ech = ech\<rparr>))))"

section \<open>Requests\<close>

fun append_pairs :: "'u web \<Rightarrow> (string \<times> string) list \<Rightarrow> 'u \<Rightarrow> 'u" where
  "append_pairs W [] url = url"
| "append_pairs W ((k, v) # ps) url = append_pairs W ps (url_append_pair W k v url)"

definition build_request_base :: "'u web \<Rightarrow> client_config \<Rightarrow> ('u \<times> header_map) result" where
  "build_request_base W cc =
    (let c = cc_transport cc in
     bindr (with_context ''invalid server URL'' (url_parse W (cc_server cc))) (\<lambda>url0.
     let url1 = (if url_path W url0 = ''/'' then url_set_path W (tc_path c) url0 else url0);
         url2 = (if ends_with (url_path W url1) ''/'' then url1
                 else url_set_path W (url_path W url1 @ ''/'') url1);
         url3 = (case tc_query c of None \<Rightarrow> url2 | Some q \<Rightarrow> append_pairs W (form_parse W q) url2)
     in
     bindr (add_common_headers W c []) (\<lambda>hs.
     case tc_host c of
       None \<Rightarrow> Inr (url3, hs)
     | Some host \<Rightarrow>
         bindr (ensure (header_value_ok W host) ''failed to parse header value'') (\<lambda>_.
         Inr (url3, hdr_insert ''host'' host hs)))))"

text \<open>\<open>built\<close> is what \<open>build_http_client\<close> returns for the configuration, \<open>draws\<close> the random numbers.\<close>

definition client_new ::
    "'u web \<Rightarrow> (client_config \<Rightarrow> unit result) \<Rightarrow> (nat \<Rightarrow> nat) \<Rightarrow> client_config
     \<Rightarrow> (client_config \<times> manager \<times> 'u \<times> header_map) result" where
  "client_new W built draws cc0 =
    bindr (validate W (cc_transport cc0)) (\<lambda>c.
    let cc = cc0\<lparr>cc_transport := c\<rparr>; n = ech_sources (cc_tls cc) in
    if n > 1 then
      Inl (Bail ''ECH config, config_path and discovered config are mutually exclusive'')
    else if n \<noteq> 0 \<and> \<not> starts_with (cc_server cc) ''https://'' then Inl (Bail ''ECH requires HTTPS'')
    else if n \<noteq> 0 \<and> ct_insecure (cc_tls cc) then
      Inl (Bail ''ECH cannot be combined with insecure certificate verification'')
    else
      bindr (manager_new (tc_xmux c) draws (built cc)) (\<lambda>xmux.
      bindr (build_request_base W cc) (\<lambda>base. Inr (cc, xmux, base))))"

definition client_request ::
    "'u web \<Rightarrow> transport_config \<Rightarrow> 'u \<times> header_map \<Rightarrow> nat \<Rightarrow> string option \<Rightarrow> u64 option
     \<Rightarrow> ('u \<times> header_map) result" where
  "client_request W c base draw session sequence =
    (case base of (url, hs) \<Rightarrow>
     apply_metadata W c (apply_padding W c draw url hs) session sequence)"

text \<open>The header a streamed upload announces itself with.\<close>

definition grpc_header :: "transport_config \<Rightarrow> header_map \<Rightarrow> header_map" where
  "grpc_header c hs =
    (if no_grpc_header c then hs else hdr_insert ''content-type'' ''application/grpc'' hs)"

record 'u sent =
  sn_method :: string
  sn_url :: 'u
  sn_headers :: header_map
  sn_body :: bytes

text \<open>The first request of a connection, by the resolved mode.\<close>

definition opening_request ::
    "'u web \<Rightarrow> transport_config \<Rightarrow> 'u \<times> header_map \<Rightarrow> nat \<Rightarrow> string \<Rightarrow> (string \<times> 'u \<times> header_map) result" where
  "opening_request W c base draw session =
    (case resolved (tc_mode c) of
       StreamOne \<Rightarrow>
         bindr (client_request W c base draw None None) (\<lambda>(url, hs).
         Inr (''POST'', url, grpc_header c hs))
     | _ \<Rightarrow>
         bindr (client_request W c base draw (Some session) None) (\<lambda>(url, hs).
         Inr (''GET'', url, hs)))"

definition stream_up_request ::
    "'u web \<Rightarrow> transport_config \<Rightarrow> 'u \<times> header_map \<Rightarrow> nat \<Rightarrow> string \<Rightarrow> (string \<times> 'u \<times> header_map) result" where
  "stream_up_request W c base draw session =
    bindr (client_request W c base draw (Some session) None) (\<lambda>(url, hs).
    bindr (with_context ''invalid XHTTP uplink method'' (method_of W (uplink_method c))) (\<lambda>m.
    Inr (m, url, grpc_header c hs)))"

definition packet_request ::
    "'u web \<Rightarrow> transport_config \<Rightarrow> 'u \<times> header_map \<Rightarrow> nat \<Rightarrow> string \<Rightarrow> u64 \<Rightarrow> bytes \<Rightarrow> 'u sent result" where
  "packet_request W c base draw session sequence payload =
    bindr (client_request W c base draw (Some session) (Some sequence)) (\<lambda>(url, hs).
    bindr (put_payload W c payload hs) (\<lambda>(body, hs').
    bindr (with_context ''invalid XHTTP uplink method'' (method_of W (uplink_method c))) (\<lambda>m.
    Inr \<lparr>sn_method = m, sn_url = url, sn_headers = hs',
         sn_body = (case body of Some b \<Rightarrow> b | None \<Rightarrow> [])\<rparr>)))"

text \<open>
  \<open>packet_upload\<close>: every read of at most \<open>max_packet_size\<close> bytes is one request, numbered from zero;
  an empty read is the end. \<open>draws\<close> are the padding lengths drawn. \<open>answers\<close> tells what becomes of a
  request: \<open>http_for_packet\<close> gives no client, the request is sent and fails, or it is sent and
  answered with success; a failure ends the loop.
\<close>

datatype send_outcome = NoClient error | Failed error | Accepted

fun packet_upload ::
    "'u web \<Rightarrow> transport_config \<Rightarrow> 'u \<times> header_map \<Rightarrow> (u64 \<Rightarrow> nat) \<Rightarrow> (u64 \<Rightarrow> send_outcome) \<Rightarrow> string \<Rightarrow> u64
     \<Rightarrow> bytes list \<Rightarrow> 'u sent list \<times> unit result" where
  "packet_upload W c base draws answers session sequence [] = ([], Inr ())"
| "packet_upload W c base draws answers session sequence (chunk # rest) =
    (if chunk = [] then ([], Inr ())
     else (case packet_request W c base (draws sequence) session sequence chunk of
         Inl e \<Rightarrow> ([], Inl e)
       | Inr s \<Rightarrow>
           (case answers sequence of
              NoClient e \<Rightarrow> ([], Inl e)
            | Failed e \<Rightarrow> ([s], Inl e)
            | Accepted \<Rightarrow>
                (case packet_upload W c base draws answers session (sequence + 1) rest of
                   (sent, r) \<Rightarrow> (s # sent, r)))))"

section \<open>Slots\<close>

text \<open>
  A request is read through slots: a header name, a cookie or a query key. Every function of the
  protocol that writes a request writes slots, and a write leaves every other slot as it is.
\<close>

datatype slot = HeaderSlot string | CookieSlot string | QuerySlot string

definition slot_values :: "'u web \<Rightarrow> 'u \<times> header_map \<Rightarrow> slot \<Rightarrow> string list" where
  "slot_values W r s =
    (case s of
       HeaderSlot n \<Rightarrow> hdr_get_all n (snd r)
     | CookieSlot k \<Rightarrow> List.map_filter (cookie_part k) (cookie_parts W (snd r))
     | QuerySlot k \<Rightarrow> map snd (filter (\<lambda>e. fst e = k) (url_pairs W (fst r))))"

fun put_slot :: "'u web \<Rightarrow> slot \<times> string \<Rightarrow> 'u \<times> header_map \<Rightarrow> 'u \<times> header_map" where
  "put_slot W (HeaderSlot n, v) (url, hs) = (url, hdr_insert n v hs)"
| "put_slot W (CookieSlot k, v) (url, hs) = (url, hdr_append ''cookie'' (k @ ''='' @ v) hs)"
| "put_slot W (QuerySlot k, v) (url, hs) = (url_append_pair W k v url, hs)"

fun slot_ok :: "slot \<times> string \<Rightarrow> bool" where
  "slot_ok (HeaderSlot n, v) = (n \<noteq> ''cookie'' \<and> list_all visible v)"
| "slot_ok (CookieSlot k, v) = (cookie_key k \<and> plain v)"
| "slot_ok (QuerySlot k, v) = True"

lemma map_filter_find: "find_some f xs = (case List.map_filter f xs of [] \<Rightarrow> None | y # _ \<Rightarrow> Some y)"
  by (induction xs) (auto simp: List.map_filter_simps split: option.splits)

lemma cookie_value_slot:
  "cookie_value W hs k = (case slot_values W (url, hs) (CookieSlot k) of [] \<Rightarrow> None | v # _ \<Rightarrow> Some v)"
  by (simp add: cookie_value_def slot_values_def map_filter_find)

lemma last_pair_values:
  "last_pair k ps = (case map snd (filter (\<lambda>e. fst e = k) ps) of [] \<Rightarrow> None | vs \<Rightarrow> Some (last vs))"
proof (induction ps rule: rev_induct)
  case (snoc p ps)
  then show ?case by (cases p) (auto split: list.splits)
qed (simp add: last_pair_def)

lemma first_pair_values:
  "first_pair k ps = (case map snd (filter (\<lambda>e. fst e = k) ps) of [] \<Rightarrow> None | v # _ \<Rightarrow> Some v)"
  by (induction ps) (auto simp: first_pair_def)

lemma slot_values_put:
  assumes "web_laws W" and "slot_ok (s, v)" and "s' \<noteq> HeaderSlot ''cookie''"
  shows "slot_values W (put_slot W (s, v) r) s' =
    (if s' = s then (case s of HeaderSlot _ \<Rightarrow> [v] | _ \<Rightarrow> slot_values W r s' @ [v])
     else slot_values W r s')"
proof -
  obtain url hs where r: "r = (url, hs)" by (cases r)
  show ?thesis
  proof (cases s)
    case (HeaderSlot n)
    then have "cookie_parts W (hdr_insert n v hs) = cookie_parts W hs"
      using assms(2) by (auto simp: cookie_parts_def)
    with HeaderSlot r show ?thesis by (cases s') (auto simp: slot_values_def)
  next
    case (CookieSlot k)
    let ?c = "k @ ''='' @ v"
    have k: "cookie_key k" "plain v" using assms(2) CookieSlot by auto
    then have "CHR '';'' \<notin> set ?c" using plain_no_sep [of v] by (auto simp: cookie_key_def)
    then have "cookie_parts W (hdr_append ''cookie'' ?c hs) = cookie_parts W hs @ [?c]"
      using cookie_text [OF assms(1) k] by (simp add: cookie_parts_def split_on_no_sep)
    with CookieSlot r assms(3) cookie_part_made [OF k] show ?thesis
      by (cases s') (auto simp: slot_values_def List.map_filter_def)
  next
    case (QuerySlot k)
    with r web_lawsD(8) [OF assms(1)] show ?thesis by (cases s') (auto simp: slot_values_def)
  qed
qed

text \<open>
  \<open>wrote W c base es segs r\<close>: request \<open>r\<close> is \<open>base\<close> with the slots of \<open>es\<close> written and the segments
  \<open>segs\<close> behind the path.
\<close>

definition wrote ::
    "'u web \<Rightarrow> transport_config \<Rightarrow> 'u \<times> header_map \<Rightarrow> (slot \<times> string) list \<Rightarrow> string list \<Rightarrow>
     'u \<times> header_map \<Rightarrow> bool" where
  "wrote W c base es segs r \<longleftrightarrow>
    (\<forall>s. s \<noteq> HeaderSlot ''cookie'' \<longrightarrow>
      slot_values W r s = (case map_of es s of Some v \<Rightarrow> [v] | None \<Rightarrow> slot_values W base s)) \<and>
    path_at c (url_path W (fst r)) segs"

definition unwritten :: "'u web \<Rightarrow> 'u \<times> header_map \<Rightarrow> (slot \<times> string) list \<Rightarrow> slot \<Rightarrow> bool" where
  "unwritten W base es s \<longleftrightarrow> s \<notin> fst ` set es \<and> slot_values W base s = []"

lemma slot_ok_not_cookie: "slot_ok (s, v) \<Longrightarrow> s \<noteq> HeaderSlot ''cookie''"
  by (cases s) auto

lemma wrote_start: "path_at c (url_path W (fst base)) [] \<Longrightarrow> wrote W c base [] [] base"
  by (simp add: wrote_def)

lemma put_slot_path: "web_laws W \<Longrightarrow> url_path W (fst (put_slot W e r)) = url_path W (fst r)"
  using web_lawsD(9) [of W] by (cases r; cases e; cases "fst e") auto

lemma wrote_put:
  assumes laws: "web_laws W" and w: "wrote W c base es segs r" and ok: "slot_ok (s, v)"
    and free: "unwritten W base es s"
  shows "wrote W c base ((s, v) # es) segs (put_slot W (s, v) r)"
proof -
  have "slot_values W r s = []"
    using w free slot_ok_not_cookie [OF ok]
    by (simp add: wrote_def unwritten_def map_of_eq_None_iff [THEN iffD2])
  then have "slot_values W (put_slot W (s, v) r) s' =
      (case map_of ((s, v) # es) s' of Some v \<Rightarrow> [v] | None \<Rightarrow> slot_values W base s')"
    if "s' \<noteq> HeaderSlot ''cookie''" for s'
    using slot_values_put [OF laws ok that, of r] w that
    by (cases "s' = s"; cases s) (simp_all add: wrote_def)
  then show ?thesis using w by (simp add: wrote_def put_slot_path [OF laws])
qed

lemma wrote_push:
  assumes laws: "web_laws W" and normal: "path_normal (tc_path c)"
    and w: "wrote W c base es segs (url, hs)" and v: "list_all segment (segs @ [v])"
  shows "wrote W c base es (segs @ [v])
    (url_set_path W (trim_end_matches CHR ''/'' (url_path W url) @ CHR ''/'' # v) url, hs)"
proof -
  have "slot_values W (url_set_path W p url, hs) s = slot_values W (url, hs) s" for p s
    by (cases s) (simp_all add: slot_values_def web_lawsD(7) [OF laws])
  moreover have "path_at c (url_path W url) segs" using w by (simp add: wrote_def)
  moreover have "plain v" using v by (simp add: segment_def)
  ultimately show ?thesis
    using w path_at_push [OF normal _ v] web_lawsD(6) [OF laws, of v url] by (simp add: wrote_def)
qed

section \<open>The writers write slots\<close>

definition padding_slot :: "transport_config \<Rightarrow> slot" where
  "padding_slot c =
    (case padding_target c of (place, key, header) \<Rightarrow>
       (case place of
          CookiePlace \<Rightarrow> CookieSlot key
        | QueryPlace \<Rightarrow> QuerySlot key
        | _ \<Rightarrow> HeaderSlot (to_ascii_lowercase header)))"

definition metadata_slot :: "placement \<Rightarrow> string \<Rightarrow> slot option" where
  "metadata_slot place key =
    (case place of
       QueryPlace \<Rightarrow> Some (QuerySlot key)
     | HeaderPlace \<Rightarrow> Some (HeaderSlot (to_ascii_lowercase key))
     | CookiePlace \<Rightarrow> Some (CookieSlot key)
     | _ \<Rightarrow> None)"

definition padding_entry :: "'u web \<Rightarrow> transport_config \<Rightarrow> nat \<Rightarrow> 'u \<Rightarrow> string" where
  "padding_entry W c draw url =
    (case padding_target c of (place, key, _) \<Rightarrow>
     let v = padding_value W (padding_method c) (padding_length c draw) in
     if place = QueryInHeader then url_text W (url_append_pair W key v url) else v)"

lemma wrote_padding:
  assumes laws: "web_laws W" and w: "wrote W c base es segs (url, hs)"
    and place: "padding_placement_ok (padding_placement c)" and key: "padding_key_ok W c"
    and free: "unwritten W base es (padding_slot c)" "padding_slot c \<noteq> HeaderSlot ''cookie''"
  shows "wrote W c base ((padding_slot c, padding_entry W c draw url) # es) segs
    (apply_padding W c draw url hs)"
proof -
  let ?v = "padding_value W (padding_method c) (padding_length c draw)"
  have pv: "plain ?v" by (rule padding_value_plain)
  then have v: "list_all visible ?v" "header_value_ok W ?v"
    using web_lawsD(2) [OF laws] plain_visible by auto
  have t: "list_all visible (url_text W r)" "header_value_ok W (url_text W r)" for r
    using web_lawsD(2,5) [OF laws] by auto
  have n: "header_name W h = Some m \<Longrightarrow> m = to_ascii_lowercase h" for h m
    using web_lawsD(1) [OF laws] by blast
  obtain p k h where pt: "padding_target c = (p, k, h)" by (cases "padding_target c")
  then have "padding_placement_ok p" using padding_target_placement [OF place] by simp
  then consider "p = HeaderPlace" | "p = CookiePlace" | "p = QueryPlace" | "p = QueryInHeader"
    by (auto simp: padding_placement_ok_def)
  then have "apply_padding W c draw url hs =
      put_slot W (padding_slot c, padding_entry W c draw url) (url, hs) \<and>
      slot_ok (padding_slot c, padding_entry W c draw url)"
  proof cases
    case 1
    with key obtain m where "header_name W h = Some m" by (auto simp: padding_key_ok_def pt)
    with 1 n [of h m] v free(2) show ?thesis
      by (simp add: apply_padding_def padding_slot_def padding_entry_def pt Let_def)
  next
    case 2
    with key have ck: "cookie_key k" by (simp add: padding_key_ok_def pt)
    with 2 pv append_cookie_ok [OF laws ck pv] show ?thesis
      by (simp add: apply_padding_def padding_slot_def padding_entry_def pt Let_def)
  next
    case 3
    then show ?thesis by (simp add: apply_padding_def padding_slot_def padding_entry_def pt Let_def)
  next
    case 4
    with key obtain m where "header_name W h = Some m" by (auto simp: padding_key_ok_def pt)
    with 4 n [of h m] t free(2) show ?thesis
      by (simp add: apply_padding_def padding_slot_def padding_entry_def pt Let_def)
  qed
  with wrote_put [OF laws w _ free(1)] show ?thesis by simp
qed

lemma wrote_value:
  assumes laws: "web_laws W" and normal: "path_normal (tc_path c)"
    and w: "wrote W c base es segs (url, hs)"
    and place: "metadata_placement place" "key_ok W place key"
    and v: "segment v" "list_all segment segs"
    and free: "pred_option (unwritten W base es) (metadata_slot place key)"
  obtains r where "apply_value W place key v (url, hs) = Inr r"
    and "wrote W c base (case metadata_slot place key of None \<Rightarrow> es | Some s \<Rightarrow> (s, v) # es)
          (if place = PathPlace then segs @ [v] else segs) r"
proof -
  have pv: "plain v" and ok: "list_all visible v" "header_value_ok W v"
    using v web_lawsD(2) [OF laws] plain_visible by (auto simp: segment_def)
  show ?thesis
  proof (cases place)
    case PathPlace
    with wrote_push [OF laws normal w, of v] v that show ?thesis
      by (simp add: apply_value_def metadata_slot_def)
  next
    case QueryPlace
    with wrote_put [OF laws w, of "QuerySlot key" v] free that show ?thesis
      by (simp add: apply_value_def metadata_slot_def)
  next
    case HeaderPlace
    then obtain n where n: "header_name W key = Some n" "n \<noteq> ''cookie''"
      using place by (auto simp: key_ok_def)
    then have "n = to_ascii_lowercase key" using web_lawsD(1) [OF laws] by blast
    with HeaderPlace n ok wrote_put [OF laws w, of "HeaderSlot n" v] free that show ?thesis
      by (simp add: apply_value_def metadata_slot_def)
  next
    case CookiePlace
    then have ck: "cookie_key key" using place by (simp add: key_ok_def)
    with CookiePlace pv append_cookie_ok [OF laws ck pv] wrote_put [OF laws w, of "CookieSlot key" v]
      free that show ?thesis
      by (simp add: apply_value_def metadata_slot_def)
  qed (use place in \<open>auto simp: metadata_placement_def\<close>)
qed

definition data_slot :: "transport_config \<Rightarrow> placement \<Rightarrow> nat \<Rightarrow> slot" where
  "data_slot c place i =
    (if place = HeaderPlace then HeaderSlot (to_ascii_lowercase (numbered_key c ''-'' i))
     else CookieSlot (numbered_key c ''_'' i))"

lemma data_slot_inj: "data_slot c place i = data_slot c place j \<longleftrightarrow> i = j"
  by (simp add: data_slot_def numbered_key_inj numbered_key_lower_inj)

lemma wrote_chunks:
  assumes laws: "web_laws W" and w: "wrote W c base es segs (url, hs)"
    and cs: "list_all plain cs" and place: "place = HeaderPlace \<or> place = CookiePlace"
    and keys: "place = HeaderPlace \<Longrightarrow> header_family W c" "place = CookiePlace \<Longrightarrow> cookie_key (data_key c)"
    and free: "\<And>i. k \<le> i \<Longrightarrow> unwritten W base es (data_slot c place i)"
  obtains hs' where
    "(if place = HeaderPlace then put_headers W c k cs hs else put_cookies W c k cs hs) = Inr hs'"
    and "wrote W c base (rev (map (\<lambda>(i, x). (data_slot c place i, x)) (enumerate k cs)) @ es) segs (url, hs')"
  using w cs free
proof (induction cs arbitrary: k hs es thesis)
  case Nil
  then show ?case by (cases "place = HeaderPlace") auto
next
  case (Cons x cs)
  let ?s = "data_slot c place k"
  have x: "plain x" "list_all visible x" "header_value_ok W x" "utf8_string x"
    using Cons.prems(3) plain_visible web_lawsD(2) [OF laws] plain_char_props
    by (auto simp: plain_def list_all_iff intro!: utf8_string_ascii)
  have ck: "cookie_key (numbered_key c ''_'' k)" if "place = CookiePlace"
    using keys(2) [OF that] plain_no_sep [OF plain_nat_to_string] plain_visible [OF plain_nat_to_string]
    by (auto simp: cookie_key_def numbered_key_def visible_def ascii_space_def byte_of_char_def hd_append)
  have hyphen: "to_ascii_lowercase (numbered_key c ''-'' k) \<noteq> ''cookie''"
  proof
    assume "to_ascii_lowercase (numbered_key c ''-'' k) = ''cookie''"
    moreover have "CHR ''-'' \<in> set (to_ascii_lowercase (numbered_key c ''-'' k))"
      by (simp add: numbered_key_def to_ascii_lowercase_def ascii_lower_def byte_of_char_def)
    ultimately show False by simp
  qed
  have ok: "slot_ok (?s, x)" using place x ck hyphen by (auto simp: data_slot_def)
  have free: "unwritten W base es ?s" using Cons.prems(4) by simp
  define hs1 where "hs1 = snd (put_slot W (?s, x) (url, hs))"
  have w1: "wrote W c base ((?s, x) # es) segs (url, hs1)"
    using wrote_put [OF laws Cons.prems(2) ok free]
    by (cases "place = HeaderPlace") (simp_all add: hs1_def data_slot_def)
  have free1: "unwritten W base ((?s, x) # es) (data_slot c place i)" if "Suc k \<le> i" for i
    using Cons.prems(4) [of i] that by (simp add: unwritten_def data_slot_inj)
  obtain hs' where
    "(if place = HeaderPlace then put_headers W c (Suc k) cs hs1 else put_cookies W c (Suc k) cs hs1) = Inr hs'"
    and "wrote W c base (rev (map (\<lambda>(i, x). (data_slot c place i, x)) (enumerate (Suc k) cs)) @
          (?s, x) # es) segs (url, hs')"
    using Cons.IH [OF _ w1 _ free1] Cons.prems(3) by auto
  moreover have "header_name W (numbered_key c ''-'' k) =
      Some (to_ascii_lowercase (numbered_key c ''-'' k))" if "place = HeaderPlace"
    using keys(1) [OF that] web_lawsD(1) [OF laws, of "numbered_key c ''-'' k"]
    by (auto simp: header_family_def)
  ultimately show ?case
    using Cons.prems(1) place x append_cookie_ok [OF laws ck x(1)]
    by (auto simp: hs1_def data_slot_def)
qed

section \<open>The server reads what was written\<close>

lemma hdr_text_slot:
  "hdr_text W n hs = (case slot_values W (url, hs) (HeaderSlot n) of
     [] \<Rightarrow> None | v # _ \<Rightarrow> if header_text W v then Some v else None)"
  by (simp add: hdr_text_def slot_values_def)

lemma hdr_text_of_slot:
  assumes "web_laws W" and "header_name W key \<noteq> None"
  shows "hdr_text_of W key hs = hdr_text W (to_ascii_lowercase key) hs"
  using assms web_lawsD(1) [OF assms(1)] by (auto simp: hdr_text_of_def)

lemma wrote_slot:
  "wrote W c base es segs r \<Longrightarrow> s \<noteq> HeaderSlot ''cookie'' \<Longrightarrow>
   slot_values W r s = (case map_of es s of Some v \<Rightarrow> [v] | None \<Rightarrow> slot_values W base s)"
  by (simp add: wrote_def)

lemma padding_read:
  assumes laws: "web_laws W" and place: "padding_placement_ok (padding_placement c)"
    and key: "padding_key_ok W c"
    and vals: "slot_values W (url, hs) (padding_slot c) = [padding_entry W c draw bare]"
    and ref: "padding_unclaimed W c bare bareh" and sent: "carries W url u"
  shows "padding_found W c u hs = Some (padding_value W (padding_method c) (padding_length c draw))"
proof -
  let ?v = "padding_value W (padding_method c) (padding_length c draw)"
  have v: "header_text W ?v" using padding_value_plain plain_visible web_lawsD(3) [OF laws] by blast
  have t: "header_text W (url_text W r)" for r using web_lawsD(3,5) [OF laws] by auto
  obtain p k h where pt: "padding_target c = (p, k, h)" by (cases "padding_target c")
  then have "padding_placement_ok p" using padding_target_placement [OF place] by simp
  then consider "p = HeaderPlace" | "p = CookiePlace" | "p = QueryPlace" | "p = QueryInHeader"
    by (auto simp: padding_placement_ok_def)
  then show ?thesis
  proof cases
    case 1
    with key vals v hdr_text_of_slot [OF laws, of h hs] show ?thesis
      by (simp add: padding_found_def padding_slot_def padding_entry_def pt padding_key_ok_def
          hdr_text_slot [of W _ hs url] Let_def)
  next
    case 2
    with vals show ?thesis
      by (simp add: padding_found_def padding_slot_def padding_entry_def pt
          cookie_value_slot [of W hs _ url] Let_def)
  next
    case 3
    with vals sent show ?thesis
      by (simp add: padding_found_def padding_slot_def padding_entry_def pt first_pair_values
          slot_values_def carries_def Let_def)
  next
    case 4
    have "first_pair k (url_pairs W (url_append_pair W k ?v bare)) = Some ?v"
      using ref 4 by (simp add: web_lawsD(8) [OF laws] first_pair_snoc padding_unclaimed_def pt)
    with 4 key vals t hdr_text_of_slot [OF laws, of h hs] show ?thesis
      by (simp add: padding_found_def padding_slot_def padding_entry_def pt padding_key_ok_def
          hdr_text_slot [of W _ hs url] web_lawsD(4) [OF laws] Let_def)
  qed
qed

lemma metadata_read:
  assumes laws: "web_laws W" and key: "key_ok W place key" "metadata_slot place key = Some s"
    and vals: "slot_values W (url, hs) s = (case v of None \<Rightarrow> [] | Some x \<Rightarrow> [x])"
    and v: "pred_option plain v"
  shows "read_at W url hs place key = v"
proof -
  have t: "header_text W x" if "v = Some x" for x
    using v that plain_visible web_lawsD(3) [OF laws] by auto
  show ?thesis
  proof (cases place)
    case HeaderPlace
    then have "header_name W key \<noteq> None" using key by (simp add: key_ok_def)
    with HeaderPlace key vals t hdr_text_of_slot [OF laws this] show ?thesis
      by (cases v) (auto simp: read_at_def metadata_slot_def hdr_text_slot [of W _ hs url])
  next
    case CookiePlace
    with key vals show ?thesis
      by (cases v) (auto simp: read_at_def metadata_slot_def cookie_value_slot [of W hs _ url])
  next
    case QueryPlace
    with key vals show ?thesis
      by (cases v) (auto simp: read_at_def metadata_slot_def last_pair_values slot_values_def)
  qed (use key in \<open>simp_all add: metadata_slot_def\<close>)
qed

section \<open>Conditions on the configuration\<close>

text \<open>
  The slots a request writes must be apart from each other, from the numbered slots of the payload,
  from the headers the server checks, from the configured query, and not written in the base.
\<close>

definition request_slots :: "transport_config \<Rightarrow> slot list" where
  "request_slots c = padding_slot c #
    (case metadata_slot (session_placement c) (session_key c) of None \<Rightarrow> [] | Some s \<Rightarrow> [s]) @
    (case metadata_slot (sequence_placement c) (sequence_key c) of None \<Rightarrow> [] | Some s \<Rightarrow> [s])"

definition data_slots :: "transport_config \<Rightarrow> slot set" where
  "data_slots c = range (data_slot c HeaderPlace) \<union> range (data_slot c CookiePlace)"

definition checked_slots :: "'u web \<Rightarrow> transport_config \<Rightarrow> slot set" where
  "checked_slots W c = {HeaderSlot ''cookie'', HeaderSlot ''host'', HeaderSlot ''authorization''} \<union>
    (case tc_query c of None \<Rightarrow> {} | Some q \<Rightarrow> QuerySlot ` fst ` set (form_parse W q))"

definition slots_apart :: "'u web \<Rightarrow> transport_config \<Rightarrow> 'u \<times> header_map \<Rightarrow> bool" where
  "slots_apart W c base \<longleftrightarrow> distinct (request_slots c) \<and>
    set (request_slots c) \<inter> (data_slots c \<union> checked_slots W c) = {} \<and>
    (\<forall>s \<in> set (request_slots c) \<union> data_slots c. slot_values W base s = [])"

definition names_ok :: "'u web \<Rightarrow> transport_config \<Rightarrow> bool" where
  "names_ok W c \<longleftrightarrow> key_ok W (session_placement c) (session_key c) \<and>
    key_ok W (sequence_placement c) (sequence_key c) \<and> padding_key_ok W c \<and> payload_keys_ok W c"

definition texts_ok :: "'u web \<Rightarrow> transport_config \<Rightarrow> bool" where
  "texts_ok W c \<longleftrightarrow> pred_option (header_text W) (tc_host c) \<and>
    pred_option (\<lambda>t. header_text W (bearer t)) (tc_token c) \<and>
    (case tc_query c of None \<Rightarrow> True | Some q \<Rightarrow> distinct (map fst (form_parse W q)))"

text \<open>The configured path is a path of URLs, and the server URL has no other path.\<close>

definition path_kept :: "'u web \<Rightarrow> client_config \<Rightarrow> bool" where
  "path_kept W cc \<longleftrightarrow>
    (let p = tc_path (cc_transport cc) in
     p \<noteq> ''/'' \<and>
     (\<forall>u. url_path W (url_set_path W p u) = p \<and> url_path W (url_set_path W (p @ ''/'') u) = p @ ''/'') \<and>
     (case url_parse W (cc_server cc) of None \<Rightarrow> False
      | Some u \<Rightarrow> url_path W u \<in> {''/'', p, p @ ''/''}))"

lemma hyphen_apart: "CHR ''-'' \<notin> set n \<Longrightarrow> HeaderSlot n \<notin> data_slots c"
proof
  assume n: "CHR ''-'' \<notin> set n" and "HeaderSlot n \<in> data_slots c"
  then obtain i where "n = to_ascii_lowercase (numbered_key c ''-'' i)"
    by (auto simp: data_slots_def data_slot_def)
  then have "CHR ''-'' \<in> set n"
    by (simp add: numbered_key_def to_ascii_lowercase_def ascii_lower_def byte_of_char_def)
  with n show False by simp
qed

section \<open>The base request\<close>

lemma append_pairs_values:
  assumes "web_laws W"
  shows "url_pairs W (append_pairs W ps url) = url_pairs W url @ ps"
    and "url_path W (append_pairs W ps url) = url_path W url"
  by (induction ps arbitrary: url) (auto simp: web_lawsD(8,9) [OF assms])

lemma last_pair_append_distinct:
  assumes "(k, v) \<in> set qs" and "distinct (map fst qs)"
  shows "last_pair k (ps @ qs) = Some v"
proof -
  have "filter (\<lambda>e. fst e = k) qs = [(k, v)]"
    using assms
  proof (induction qs)
    case (Cons e qs)
    show ?case
    proof (cases "fst e = k")
      case True
      with Cons.prems have "filter (\<lambda>e. fst e = k) qs = []" 
        by (auto simp: filter_empty_conv image_iff)
      moreover have "e = (k, v)" using Cons.prems True by (cases e) force
      ultimately show ?thesis by simp
    qed (use Cons in auto)
  qed simp
  then show ?thesis
    by (cases "map snd (filter (\<lambda>e. fst e = k) ps)") (simp_all add: last_pair_values)
qed

lemma base_request_facts:
  assumes laws: "web_laws W" and base: "build_request_base W cc = Inr (url, hs)"
    and path: "path_kept W cc" and c: "c = cc_transport cc" and normal: "path_normal (tc_path c)"
    and texts: "texts_ok W c"
  shows "url_path W url = tc_path c @ ''/''"
    and "tc_host c = Some host \<Longrightarrow> slot_values W (url, hs) (HeaderSlot ''host'') = [host]"
    and "tc_token c = Some t \<Longrightarrow> slot_values W (url, hs) (HeaderSlot ''authorization'') = [bearer t]"
    and "tc_query c = Some q \<Longrightarrow> (k, v) \<in> set (form_parse W q) \<Longrightarrow>
      last_pair k (url_pairs W url) = Some v"
proof -
  let ?p = "tc_path c"
  from base obtain u0 where u0: "url_parse W (cc_server cc) = Some u0"
    by (auto simp: build_request_base_def Let_def bindr_Inr_iff with_context_Inr_iff)
  have kept: "url_path W (url_set_path W ?p u) = ?p" "url_path W (url_set_path W (?p @ ''/'') u) = ?p @ ''/''" for u
    using path by (simp_all add: path_kept_def c Let_def)
  define u1 where "u1 = (if url_path W u0 = ''/'' then url_set_path W ?p u0 else u0)"
  define u2 where "u2 = (if ends_with (url_path W u1) ''/'' then u1
                 else url_set_path W (url_path W u1 @ ''/'') u1)"
  have root: "?p \<noteq> ''/''" and "url_path W u0 \<in> {''/'', ?p, ?p @ ''/''}"
    using path u0 by (simp_all add: path_kept_def c Let_def)
  then have u1: "url_path W u1 = ?p \<or> url_path W u1 = ?p @ ''/''"
    using kept(1) by (auto simp: u1_def)
  have "\<not> ends_with ?p ''/''"
    using normal root by (cases ?p) (auto simp: path_normal_def ends_with_slash split: if_splits)
  then have u2: "url_path W u2 = ?p @ ''/''"
    using u1 kept(2) by (auto simp: u2_def ends_with_slash)
  have url: "url = (case tc_query c of None \<Rightarrow> u2 | Some q \<Rightarrow> append_pairs W (form_parse W q) u2)"
    and hs: "\<exists>hs0. add_common_headers W c [] = Inr hs0 \<and>
      hs = (case tc_host c of None \<Rightarrow> hs0 | Some h \<Rightarrow> hdr_insert ''host'' h hs0)"
    using base u0
    by (auto simp: build_request_base_def Let_def bindr_Inr_iff with_context_Inr_iff ensure_Inr_iff
        c u1_def u2_def split: option.splits)
  show "url_path W url = ?p @ ''/''"
    using u2 append_pairs_values(2) [OF laws] by (simp add: url split: option.splits)
  show "tc_host c = Some host \<Longrightarrow> slot_values W (url, hs) (HeaderSlot ''host'') = [host]"
    using hs by (auto simp: slot_values_def)
  show "tc_token c = Some t \<Longrightarrow> slot_values W (url, hs) (HeaderSlot ''authorization'') = [bearer t]"
    using hs by (auto simp: slot_values_def add_common_headers_def bindr_Inr_iff split: option.splits)
  show "tc_query c = Some q \<Longrightarrow> (k, v) \<in> set (form_parse W q) \<Longrightarrow>
      last_pair k (url_pairs W url) = Some v"
    using texts last_pair_append_distinct [of k v "form_parse W q" "url_pairs W u2"]
    by (simp add: url append_pairs_values(1) [OF laws] texts_ok_def)
qed

section \<open>From the client to the server\<close>

text \<open>What is assumed of a configuration shared by client and server and of the crates.\<close>

definition pairing ::
    "'u web \<Rightarrow> client_config \<Rightarrow> 'u \<times> header_map \<Rightarrow> bool" where
  "pairing W cc base \<longleftrightarrow>
    (let c = cc_transport cc in
     web_laws W \<and> (padding_method c = ''tokenish'' \<longrightarrow> hpack_law W) \<and> transport_ok W c \<and>
     build_request_base W cc = Inr base \<and> path_kept W cc \<and> names_ok W c \<and> texts_ok W c \<and>
     slots_apart W c base \<and> padding_unclaimed W c (fst base) (snd base))"

lemma pairingD:
  assumes "pairing W cc base" and "c = cc_transport cc"
  shows "web_laws W" "padding_method c = ''tokenish'' \<longrightarrow> hpack_law W" "transport_ok W c"
    "build_request_base W cc = Inr base" "path_kept W cc" "names_ok W c" "texts_ok W c"
    "slots_apart W c base" "padding_unclaimed W c (fst base) (snd base)"
  using assms by (simp_all add: pairing_def Let_def)

definition metadata_entry :: "placement \<Rightarrow> string \<Rightarrow> string option \<Rightarrow> (slot \<times> string) list" where
  "metadata_entry place key v =
    (case metadata_slot place key of None \<Rightarrow> []
     | Some s \<Rightarrow> (case v of None \<Rightarrow> [] | Some x \<Rightarrow> [(s, x)]))"

lemma metadata_entry_None [simp]: "metadata_entry place key None = []"
  by (simp add: metadata_entry_def split: option.splits)

lemma metadata_entry_Some:
  "(case metadata_slot place key of None \<Rightarrow> es | Some s \<Rightarrow> (s, v) # es) =
   metadata_entry place key (Some v) @ es"
  by (simp add: metadata_entry_def split: option.splits)

definition request_entries ::
    "'u web \<Rightarrow> transport_config \<Rightarrow> nat \<Rightarrow> 'u \<Rightarrow> string \<Rightarrow> u64 option \<Rightarrow> (slot \<times> string) list" where
  "request_entries W c draw url session sequence =
    metadata_entry (sequence_placement c) (sequence_key c)
      (map_option (\<lambda>n. nat_to_string (unat n)) sequence) @
    metadata_entry (session_placement c) (session_key c) (Some session) @
    [(padding_slot c, padding_entry W c draw url)]"

definition request_segments :: "transport_config \<Rightarrow> string \<Rightarrow> u64 option \<Rightarrow> string list" where
  "request_segments c session sequence =
    (if session_placement c = PathPlace then [session] else []) @
    (if sequence_placement c = PathPlace
     then map (\<lambda>n. nat_to_string (unat n)) (case sequence of None \<Rightarrow> [] | Some n \<Rightarrow> [n]) else [])"

lemma segment_number: "segment (nat_to_string n)"
  using nat_to_string_chars plain_nat_to_string by (simp add: segment_def)

lemma client_request_wrote:
  assumes pair: "pairing W cc base" and c: "c = cc_transport cc" and id: "segment session"
  obtains r where "client_request W c base draw (Some session) sequence = Inr r"
    and "wrote W c base (request_entries W c draw (fst base) session sequence)
          (request_segments c session sequence) r"
proof -
  note facts = pairingD [OF pair c]
  obtain url hs where b: "base = (url, hs)" by (cases base)
  let ?P = "session_placement c" and ?Q = "sequence_placement c"
  have laws: "web_laws W" and normal: "path_normal (tc_path c)"
    and places: "metadata_placement ?P" "metadata_placement ?Q"
      "padding_placement_ok (padding_placement c)"
    using facts by (auto simp: transport_ok_def fields_ok_def)
  have keys: "key_ok W ?P (session_key c)" "key_ok W ?Q (sequence_key c)" "padding_key_ok W c"
    using facts(6) by (auto simp: names_ok_def)
  have apart: "distinct (request_slots c)" "padding_slot c \<noteq> HeaderSlot ''cookie''"
    and free: "\<And>s. s \<in> set (request_slots c) \<Longrightarrow> slot_values W base s = []"
    using facts(8) by (auto simp: slots_apart_def checked_slots_def request_slots_def)
  have "path_at c (url_path W url) []"
    using base_request_facts(1) [OF laws _ facts(5) c normal facts(7)] facts(4) b
    by (intro path_at_base [OF normal]) (simp add: base_path_def)
  then have "wrote W c base [] [] (url, hs)" using wrote_start [of c W base] b by simp
  then have w0: "wrote W c base [(padding_slot c, padding_entry W c draw url)] []
      (apply_padding W c draw url hs)"
    using free by (intro wrote_padding [OF laws _ places(3) keys(3)])
      (simp_all add: unwritten_def request_slots_def apart(2))
  obtain u1 h1 where p1: "apply_padding W c draw url hs = (u1, h1)" by fastforce
  have "pred_option (unwritten W base [(padding_slot c, padding_entry W c draw url)])
      (metadata_slot ?P (session_key c))"
    using apart(1) free by (cases "metadata_slot ?P (session_key c)")
      (auto simp: unwritten_def request_slots_def)
  then obtain r2 where r2: "apply_value W ?P (session_key c) session (u1, h1) = Inr r2"
    and "wrote W c base (case metadata_slot ?P (session_key c) of
        None \<Rightarrow> [(padding_slot c, padding_entry W c draw url)]
      | Some s \<Rightarrow> [(s, session), (padding_slot c, padding_entry W c draw url)])
      (if ?P = PathPlace then [] @ [session] else []) r2"
    using wrote_value [OF laws normal w0 [unfolded p1] places(1) keys(1) id]
    by (metis list.pred_inject(1))
  then have w2: "wrote W c base (metadata_entry ?P (session_key c) (Some session) @
        [(padding_slot c, padding_entry W c draw url)]) (if ?P = PathPlace then [session] else []) r2"
    by (auto simp: metadata_entry_def split: option.splits if_splits)
  show ?thesis
  proof (cases sequence)
    case None
    then have "wrote W c base (request_entries W c draw url session sequence)
        (request_segments c session sequence) r2"
      using w2 by (simp add: request_entries_def request_segments_def)
    with r2 None that [of r2] p1 b show ?thesis
      by (simp add: client_request_def apply_metadata_def)
  next
    case (Some n)
    obtain u2 h2 where p2: "r2 = (u2, h2)" by (cases r2)
    have "pred_option (unwritten W base (metadata_entry ?P (session_key c) (Some session) @
        [(padding_slot c, padding_entry W c draw url)])) (metadata_slot ?Q (sequence_key c))"
      using apart(1) free
      by (cases "metadata_slot ?P (session_key c)"; cases "metadata_slot ?Q (sequence_key c)")
        (auto simp: unwritten_def request_slots_def metadata_entry_def)
    moreover have "list_all segment (if ?P = PathPlace then [session] else [])" using id by simp
    ultimately obtain r3 where
      r3: "apply_value W ?Q (sequence_key c) (nat_to_string (unat n)) (u2, h2) = Inr r3"
      and w3: "wrote W c base (case metadata_slot ?Q (sequence_key c) of
          None \<Rightarrow> metadata_entry ?P (session_key c) (Some session) @
            [(padding_slot c, padding_entry W c draw url)]
        | Some s \<Rightarrow> (s, nat_to_string (unat n)) # metadata_entry ?P (session_key c) (Some session) @
            [(padding_slot c, padding_entry W c draw url)])
        (if ?Q = PathPlace then (if ?P = PathPlace then [session] else []) @ [nat_to_string (unat n)]
         else (if ?P = PathPlace then [session] else [])) r3"
      using wrote_value [OF laws normal w2 [unfolded p2] places(2) keys(2) segment_number] by metis
    have "wrote W c base (request_entries W c draw url session sequence)
        (request_segments c session sequence) r3"
      using w3 [unfolded metadata_entry_Some]
      by (cases "?Q = PathPlace") (simp_all add: request_entries_def request_segments_def Some)
    with r3 r2 p1 p2 b Some that [of r3] show ?thesis
      by (simp add: client_request_def apply_metadata_def)
  qed
qed

lemma wrote_payload:
  assumes pair: "pairing W cc base" and c: "c = cc_transport cc"
    and w: "wrote W c base es segs (url, hs)" and es: "fst ` set es \<inter> data_slots c = {}"
  obtains ds body hs' where "put_payload W c payload hs = Inr (body, hs')"
    and "wrote W c base (ds @ es) segs (url, hs')" and "fst ` set ds \<subseteq> data_slots c"
    and "extract_payload_bytes W c hs' (case body of Some b \<Rightarrow> b | None \<Rightarrow> []) = Some (Inr payload)"
proof -
  note facts = pairingD [OF pair c]
  have laws: "web_laws W" and place: "payload_placement (data_placement c)"
    and keys: "payload_keys_ok W c"
    using facts by (auto simp: transport_ok_def fields_ok_def names_ok_def)
  have base: "slot_values W base s = []" if "s \<in> data_slots c" for s
    using facts(8) that by (auto simp: slots_apart_def)
  have free: "unwritten W base es (data_slot c p i)" if "p = HeaderPlace \<or> p = CookiePlace" for p i
    using es base [of "data_slot c p i"] that by (fastforce simp: unwritten_def data_slots_def)
  have empty: "slot_values W (url, hs) s = []" if "s \<in> data_slots c" for s
  proof -
    have "map_of es s = None" using es that by (auto simp: map_of_eq_None_iff)
    moreover have "s \<noteq> HeaderSlot ''cookie''"
      using that hyphen_apart [of "''cookie''" c] by auto
    ultimately show ?thesis using wrote_slot [OF w] base [OF that] by simp
  qed
  have none: "hdr_text_of W (numbered_key c ''-'' i) hs = None" "cookie_value W hs (numbered_key c ''_'' i) = None" for i
  proof -
    have "data_slot c HeaderPlace i \<in> data_slots c" "data_slot c CookiePlace i \<in> data_slots c"
      by (auto simp: data_slots_def)
    from this [THEN empty] show "hdr_text_of W (numbered_key c ''-'' i) hs = None"
      "cookie_value W hs (numbered_key c ''_'' i) = None"
      using hdr_text_of_slot [OF laws, of "numbered_key c ''-'' i" hs]
      by (cases "header_name W (numbered_key c ''-'' i)";
          simp add: hdr_text_of_def hdr_text_slot [of W _ hs url] cookie_value_slot [of W hs _ url]
            data_slot_def)+
  qed
  then have unclaimed: "payload_unclaimed W c hs" by (simp add: payload_unclaimed_def)
  obtain body hs' where put: "put_payload W c payload hs = Inr (body, hs')"
    and ext: "extract_payload_bytes W c hs' (case body of Some b \<Rightarrow> b | None \<Rightarrow> []) = Some (Inr payload)"
    using put_payload_extracted [OF laws place keys unclaimed] by blast
  have chunk: "\<exists>ds. wrote W c base (ds @ es) segs (url, hs') \<and> fst ` set ds \<subseteq> data_slots c"
    if p: "p = HeaderPlace \<or> p = CookiePlace" and n:
      "(if p = HeaderPlace then put_headers W c 0 (chunks n (b64_encode W payload)) hs
        else put_cookies W c 0 (chunks n (b64_encode W payload)) hs) = Inr hs'"
      "data_placement c = p" for p n
  proof -
    have "list_all plain (chunks n (b64_encode W payload))"
      using plain_chunks web_lawsD(11) [OF laws] by blast
    moreover have "p = HeaderPlace \<Longrightarrow> header_family W c" "p = CookiePlace \<Longrightarrow> cookie_key (data_key c)"
      using keys n(2) by (auto simp: payload_keys_ok_def)
    ultimately obtain hs'' where
      "(if p = HeaderPlace then put_headers W c 0 (chunks n (b64_encode W payload)) hs
        else put_cookies W c 0 (chunks n (b64_encode W payload)) hs) = Inr hs''"
      and w': "wrote W c base (rev (map (\<lambda>(i, x). (data_slot c p i, x))
        (enumerate 0 (chunks n (b64_encode W payload)))) @ es) segs (url, hs'')"
      using wrote_chunks [OF laws w _ p, where cs = "chunks n (b64_encode W payload)" and k = 0]
        free [OF p] by blast
    with n(1) have "hs'' = hs'" by simp
    moreover have "data_slot c p i \<in> data_slots c" for i using p by (auto simp: data_slots_def)
    ultimately show ?thesis using w' by (intro exI conjI) auto
  qed
  have "\<exists>ds. wrote W c base (ds @ es) segs (url, hs') \<and> fst ` set ds \<subseteq> data_slots c"
  proof (cases "data_placement c")
    case HeaderPlace
    with put chunk [of HeaderPlace 3000] show ?thesis by (auto simp: put_payload_def bindr_Inr_iff)
  next
    case CookiePlace
    with put chunk [of CookiePlace 2000] show ?thesis by (auto simp: put_payload_def bindr_Inr_iff)
  qed (use put w place in \<open>auto simp: put_payload_def payload_placement_def intro!: exI [of _ "[]"]\<close>)
  with that put ext show ?thesis by blast
qed

lemma trim_end_decomp: "\<exists>n. s = trim_end_matches c s @ replicate n c"
proof (induction s rule: rev_induct)
  case (snoc x xs)
  then obtain n where n: "xs = trim_end_matches c xs @ replicate n c" by blast
  show ?case
  proof (cases "x = c")
    case True
    have "xs @ [c] = trim_end_matches c xs @ replicate (Suc n) c"
      using n by (metis append.assoc replicate_append_same replicate_Suc)
    with True show ?thesis by (metis trim_end_snoc)
  next
    case False
    then show ?thesis by (intro exI [of _ 0]) (simp add: trim_end_matches_id)
  qed
qed (simp add: trim_end_matches_def)

lemma path_at_valid:
  assumes "path_normal (tc_path c)" and "tc_path c \<noteq> ''/''" and "path_at c path segs"
  shows "valid_path (tc_path c) path"
proof -
  have "trim_end_matches CHR ''/'' (tc_path c) = tc_path c"
    using assms(1,2) by (cases rule: path_normal_cases) auto
  then have "trim_end_matches CHR ''/'' path = tc_path c @ concat (map (\<lambda>v. CHR ''/'' # v) segs)"
    using assms(3) by (simp add: path_at_def seg_path_def)
  moreover obtain n where "path = trim_end_matches CHR ''/'' path @ replicate n CHR ''/''"
    using trim_end_decomp by blast
  ultimately obtain rest where "path = tc_path c @ rest" "rest = [] \<or> hd rest = CHR ''/''"
    by (cases segs; cases n) auto
  then show ?thesis by (cases rest) (auto simp: valid_path_def starts_with_def)
qed

lemma request_entries_slots: "fst ` set (request_entries W c draw url session sequence) \<subseteq> set (request_slots c)"
  by (auto simp: request_entries_def request_slots_def metadata_entry_def split: option.splits)

lemma request_entries_lookup:
  assumes "distinct (request_slots c)"
  shows "map_of (request_entries W c draw url session sequence) (padding_slot c) =
      Some (padding_entry W c draw url)"
    and "metadata_slot (session_placement c) (session_key c) = Some s \<Longrightarrow>
      map_of (request_entries W c draw url session sequence) s = Some session"
    and "metadata_slot (sequence_placement c) (sequence_key c) = Some s \<Longrightarrow>
      map_of (request_entries W c draw url session sequence) s =
      map_option (\<lambda>n. nat_to_string (unat n)) sequence"
  using assms
  by (cases "metadata_slot (session_placement c) (session_key c)";
      cases "metadata_slot (sequence_placement c) (sequence_key c)"; cases sequence;
      auto simp: request_entries_def request_slots_def metadata_entry_def)+

lemma metadata_slot_path: "metadata_placement place \<Longrightarrow> place \<noteq> PathPlace \<Longrightarrow> \<exists>s. metadata_slot place key = Some s"
  by (auto simp: metadata_placement_def metadata_slot_def)

lemma map_of_apart: "s \<notin> fst ` set ds \<Longrightarrow> map_of (ds @ es) s = map_of es s"
  by (simp add: map_add_def map_of_eq_None_iff [THEN iffD2] split: option.splits)

lemma wrote_read_back:
  assumes pair: "pairing W cc base" and c: "c = cc_transport cc" and id: "segment session"
    and w: "wrote W c base (ds @ request_entries W c draw (fst base) session sequence)
      (request_segments c session sequence) (url, hs)"
    and ds: "fst ` set ds \<subseteq> data_slots c"
    and draw: "padding_min c \<le> draw" "draw \<le> padding_max c" and sent: "carries W url u"
  shows "valid_padding W c u hs" and "extract_metadata W c u hs = (Some session, sequence)"
proof -
  note facts = pairingD [OF pair c]
  note laws = facts(1)
  let ?es = "request_entries W c draw (fst base) session sequence"
  have ok: "fields_ok c" and places: "metadata_placement (session_placement c)"
      "metadata_placement (sequence_placement c)" "padding_placement_ok (padding_placement c)"
    using facts(3) by (auto simp: transport_ok_def fields_ok_def)
  have keys: "key_ok W (session_placement c) (session_key c)"
      "key_ok W (sequence_placement c) (sequence_key c)" "padding_key_ok W c"
    using facts(6) by (auto simp: names_ok_def)
  have apart: "distinct (request_slots c)"
    and slots: "\<And>s. s \<in> set (request_slots c) \<Longrightarrow> s \<notin> data_slots c \<and> s \<noteq> HeaderSlot ''cookie'' \<and>
      slot_values W base s = []"
    using facts(8) by (auto simp: slots_apart_def checked_slots_def)
  have vals: "slot_values W (url, hs) s = (case map_of ?es s of Some v \<Rightarrow> [v] | None \<Rightarrow> [])"
    if "s \<in> set (request_slots c)" for s
  proof -
    have "map_of (ds @ ?es) s = map_of ?es s" using slots [OF that] ds by (intro map_of_apart) auto
    then show ?thesis
      using wrote_slot [OF w, of s] slots [OF that] by (simp only: split: option.splits) simp
  qed
  have "padding_found W c u hs = Some (padding_value W (padding_method c) (padding_length c draw))"
    using vals [of "padding_slot c"] facts(9)
      request_entries_lookup(1) [OF apart, of W draw "fst base" session sequence]
    by (intro padding_read [OF laws places(3) keys(3) _ _ sent, where bare = "fst base"])
      (simp_all add: request_slots_def)
  then show "valid_padding W c u hs"
    using padding_length_range [of c draw] ok draw facts(2) tokenish_length [of W "padding_length c draw"]
    by (cases "padding_method c = ''tokenish''")
      (auto simp: valid_padding_def Let_def fields_ok_def padding_value_def)
  show "extract_metadata W c u hs = (Some session, sequence)"
  proof (rule extract_metadata_carried [OF sent])
    show "path_values c (url_path W url) =
          (if session_placement c = PathPlace then [session] else []) @
          (if sequence_placement c = PathPlace
           then map (\<lambda>n. nat_to_string (unat n)) (case sequence of None \<Rightarrow> [] | Some n \<Rightarrow> [n]) else [])"
      using w by (simp add: wrote_def path_at_def request_segments_def)
    show "read_at W url hs (session_placement c) (session_key c) = Some session"
      if np: "session_placement c \<noteq> PathPlace"
    proof -
      obtain s where s: "metadata_slot (session_placement c) (session_key c) = Some s"
        using metadata_slot_path [OF places(1) np] by blast
      then have "slot_values W (url, hs) s = [session]"
        using vals [of s] request_entries_lookup(2) [OF apart s, of W draw "fst base" session sequence]
        by (simp add: request_slots_def)
      then show ?thesis
        using id by (intro metadata_read [OF laws keys(1) s]) (simp_all add: segment_def)
    qed
    show "read_at W url hs (sequence_placement c) (sequence_key c) =
          map_option (\<lambda>n. nat_to_string (unat n)) sequence"
      if np: "sequence_placement c \<noteq> PathPlace"
    proof -
      obtain s where s: "metadata_slot (sequence_placement c) (sequence_key c) = Some s"
        using metadata_slot_path [OF places(2) np] by blast
      then have "slot_values W (url, hs) s =
          (case map_option (\<lambda>n. nat_to_string (unat n)) sequence of None \<Rightarrow> [] | Some x \<Rightarrow> [x])"
        using vals [of s] request_entries_lookup(3) [OF apart s, of W draw "fst base" session sequence]
        by (simp add: request_slots_def split: option.splits)
      then show ?thesis
        using plain_nat_to_string
        by (intro metadata_read [OF laws keys(2) s]) (cases sequence; simp)+
    qed
  qed
qed

lemma wrote_admitted:
  assumes pair: "pairing W cc base" and c: "c = cc_transport cc" and id: "segment session"
    and w: "wrote W c base (ds @ request_entries W c draw (fst base) session sequence)
      (request_segments c session sequence) (url, hs)"
    and ds: "fst ` set ds \<subseteq> data_slots c"
    and draw: "padding_min c \<le> draw" "draw \<le> padding_max c" and sent: "carries W url u"
  shows "admitted W c \<lparr>rq_method = m, rq_uri = u, rq_headers = hs\<rparr>"
proof -
  note facts = pairingD [OF pair c]
  have normal: "path_normal (tc_path c)" using facts(3) by (simp add: transport_ok_def)
  obtain url0 hs0 where b: "base = (url0, hs0)" by (cases base)
  note bf = base_request_facts [OF facts(1) facts(4) [unfolded b] facts(5) c normal facts(7)]
  have same: "slot_values W (url, hs) s = slot_values W base s"
    if "s \<in> checked_slots W c" "s \<noteq> HeaderSlot ''cookie''" "s \<notin> data_slots c" for s
  proof -
    have "s \<notin> set (request_slots c)" using facts(8) that(1) by (auto simp: slots_apart_def)
    then have "map_of (ds @ request_entries W c draw (fst base) session sequence) s = None"
      using ds that(3) request_entries_slots [of W c draw "fst base" session sequence]
      by (auto simp: map_of_eq_None_iff)
    with wrote_slot [OF w that(2)] show ?thesis by (simp only: option.case)
  qed
  have host: "hdr_text W ''host'' hs = Some h" if "tc_host c = Some h" for h
    using same [of "HeaderSlot ''host''"] hyphen_apart [of "''host''" c] bf(2) [OF that] facts(7) that b
    by (simp add: hdr_text_slot [of W _ hs url] checked_slots_def texts_ok_def)
  have auth: "hdr_text W ''authorization'' hs = Some (bearer t)" if "tc_token c = Some t" for t
    using same [of "HeaderSlot ''authorization''"] hyphen_apart [of "''authorization''" c]
      bf(3) [OF that] facts(7) that b
    by (simp add: hdr_text_slot [of W _ hs url] checked_slots_def texts_ok_def)
  have query: "last_pair k (query_pairs W u) = Some v"
    if "tc_query c = Some q" "(k, v) \<in> set (form_parse W q)" for q k v
  proof -
    have "QuerySlot k \<notin> data_slots c" by (auto simp: data_slots_def data_slot_def)
    moreover have "QuerySlot k \<in> checked_slots W c" using that by (force simp: checked_slots_def)
    ultimately have "slot_values W (url, hs) (QuerySlot k) = slot_values W base (QuerySlot k)"
      using same by simp
    then have "last_pair k (url_pairs W url) = last_pair k (url_pairs W url0)"
      by (simp add: last_pair_values slot_values_def b)
    with bf(4) [OF that] sent show ?thesis by (simp add: carries_def)
  qed
  have path: "path_at c (url_path W url) (request_segments c session sequence)"
    using w by (simp add: wrote_def)
  have "tc_path c \<noteq> ''/''" using facts(5) by (simp add: path_kept_def c Let_def)
  then have "valid_path (tc_path c) (uri_path u)"
    using path_at_valid [OF normal _ path] sent by (simp add: carries_def)
  moreover have "valid_query W (tc_query c) (uri_query u)"
    using query by (auto simp: valid_query_def query_pairs_def Let_def list_all_iff split: option.splits)
  ultimately show ?thesis
    using wrote_read_back(1) [OF assms] host auth
    by (auto simp: admitted_def authorized_def split: option.splits)
qed

text \<open>What the server makes of a request: the session, the number and the payload of a packet.\<close>

definition server_packet ::
    "'u web \<Rightarrow> transport_config \<Rightarrow> 'u sent \<Rightarrow> uri \<Rightarrow> (string \<times> nat \<times> bytes) option" where
  "server_packet W c s u =
    (case dispatch W c \<lparr>rq_method = sn_method s, rq_uri = u, rq_headers = sn_headers s\<rparr> of
       DoPacket sid seq \<Rightarrow>
         (case packet_payload W c (sn_headers s) (Some (sn_body s)) of
            Inr payload \<Rightarrow> Some (sid, unat seq, payload)
          | Inl _ \<Rightarrow> None)
     | _ \<Rightarrow> None)"

text \<open>The server takes packets, and does not answer the upload method itself.\<close>

definition takes_packets :: "'u web \<Rightarrow> transport_config \<Rightarrow> bool" where
  "takes_packets W c \<longleftrightarrow> (tc_mode c = Auto \<or> tc_mode c = PacketUp) \<and>
    method_of W (uplink_method c) \<noteq> Some ''OPTIONS''"

lemma packet_request_read:
  assumes pair: "pairing W cc base" and c: "c = cc_transport cc" and id: "segment session"
    and mode: "takes_packets W c" and draw: "padding_min c \<le> draw" "draw \<le> padding_max c"
    and size: "length payload \<le> max_packet_size c"
  obtains s where "packet_request W c base draw session sequence payload = Inr s"
    and "\<And>u. carries W (sn_url s) u \<Longrightarrow> server_packet W c s u = Some (session, unat sequence, payload)"
proof -
  note facts = pairingD [OF pair c]
  obtain url hs where req: "client_request W c base draw (Some session) (Some sequence) = Inr (url, hs)"
    and w: "wrote W c base (request_entries W c draw (fst base) session (Some sequence))
          (request_segments c session (Some sequence)) (url, hs)"
    using client_request_wrote [OF pair c id] by (metis prod.exhaust)
  have "fst ` set (request_entries W c draw (fst base) session (Some sequence)) \<inter> data_slots c = {}"
    using request_entries_slots facts(8) by (fastforce simp: slots_apart_def)
  then obtain ds body hs' where put: "put_payload W c payload hs = Inr (body, hs')"
    and w': "wrote W c base (ds @ request_entries W c draw (fst base) session (Some sequence))
      (request_segments c session (Some sequence)) (url, hs')"
    and ds: "fst ` set ds \<subseteq> data_slots c"
    and ext: "extract_payload_bytes W c hs' (case body of Some b \<Rightarrow> b | None \<Rightarrow> []) = Some (Inr payload)"
    using wrote_payload [OF pair c w] by metis
  obtain m where m: "method_of W (uplink_method c) = Some m" "m \<noteq> ''OPTIONS''"
    using facts(3) mode by (auto simp: transport_ok_def http_ok_def takes_packets_def split: option.splits)
  let ?b = "case body of Some b \<Rightarrow> b | None \<Rightarrow> []"
  have "length ?b \<le> max_packet_size c"
    using put size by (auto simp: put_payload_def bindr_Inr_iff split: placement.splits)
  then have payload: "packet_payload W c hs' (Some ?b) = Inr payload"
    using ext size by (simp add: packet_payload_def)
  have "dispatch W c \<lparr>rq_method = m, rq_uri = u, rq_headers = hs'\<rparr> = DoPacket session sequence"
    if "carries W url u" for u
    using wrote_admitted [OF pair c id w' ds draw that, of m] wrote_read_back(2) [OF pair c id w' ds draw that]
      m(2) mode by (auto simp: dispatch_def takes_packets_def)
  with payload req put m(1) that
    [of "\<lparr>sn_method = m, sn_url = url, sn_headers = hs', sn_body = ?b\<rparr>"]
  show ?thesis by (simp add: packet_request_def server_packet_def)
qed

lemma packet_upload_read:
  assumes pair: "pairing W cc base" and c: "c = cc_transport cc" and id: "segment session"
    and mode: "takes_packets W c"
    and draws: "\<And>n. padding_min c \<le> draws n \<and> draws n \<le> padding_max c"
    and parts: "list_all (\<lambda>x. x \<noteq> [] \<and> length x \<le> max_packet_size c) parts"
    and count: "start + length parts < 2 ^ 64"
    and up: "packet_upload W c base draws (\<lambda>_. Accepted) session (word_of_nat start) parts = (sent, r)"
  shows "r = Inr () \<and> length sent = length parts \<and>
    (\<forall>us. list_all2 (\<lambda>s u. carries W (sn_url s) u) sent us \<longrightarrow>
      map2 (server_packet W c) sent us =
      map (\<lambda>(i, x). Some (session, i, x)) (enumerate start parts))"
  using parts count up
proof (induction parts arbitrary: start sent r)
  case (Cons x parts)
  obtain s where s: "packet_request W c base (draws (word_of_nat start)) session (word_of_nat start) x = Inr s"
    and read: "\<And>u. carries W (sn_url s) u \<Longrightarrow>
      server_packet W c s u = Some (session, unat (word_of_nat start :: u64), x)"
    using packet_request_read [OF pair c id mode, of "draws (word_of_nat start)" x "word_of_nat start"]
      draws Cons.prems(1) by auto
  obtain sent' where up': "packet_upload W c base draws (\<lambda>_. Accepted) session (word_of_nat (Suc start)) parts =
      (sent', r)" and sent: "sent = s # sent'"
    using Cons.prems(1,3) s by (auto simp: add.commute split: prod.splits)
  have "unat (word_of_nat start :: u64) = start"
    using Cons.prems(2) by (simp add: unat_of_nat)
  with Cons.IH [OF _ _ up'] Cons.prems(1,2) read sent show ?case
    by (auto simp: list_all2_Cons1)
qed (auto)

end
