(* ===== verification/Web_Sample.thy ===== *)
theory Web_Sample
  imports Xhttp_Client
begin

text \<open>
  A concrete instance of the crates the XHTTP transport calls, which shows that the laws the
  theorems assume of them can hold together. A URL is its path and its query pairs; its text writes
  every byte with two letters.
\<close>

definition nibble :: "nat \<Rightarrow> char" where
  "nibble n = char_of (97 + n)"

definition nibble_value :: "char \<Rightarrow> nat" where
  "nibble_value c = of_char c - 97"

fun letters :: "bytes \<Rightarrow> string" where
  "letters [] = []"
| "letters (b # bs) = nibble (unat b div 16) # nibble (unat b mod 16) # letters bs"

fun unletters :: "string \<Rightarrow> bytes" where
  "unletters (a # b # s) = word_of_nat (16 * nibble_value a + nibble_value b) # unletters s"
| "unletters _ = []"

lemma nibble_value: "n < 16 \<Longrightarrow> nibble_value (nibble n) = n"
  by (simp add: nibble_value_def nibble_def)

lemma nibble_plain: "n < 16 \<Longrightarrow> plain_char (nibble n)"
  by (simp add: plain_char_def nibble_def Let_def word_le_nat_alt unat_byte_of_char)

lemma byte_nibbles: "unat (b :: u8) div 16 < 16" "unat b mod 16 < 16"
proof -
  have "unat b < 2 ^ 8" using unsigned_less [of b] by simp
  then show "unat b div 16 < 16" "unat b mod 16 < 16"
    using less_mult_imp_div_less [of "unat b" 16 16] by auto
qed

lemma unletters_letters [simp]: "unletters (letters bs) = bs"
  by (induction bs) (simp_all add: nibble_value byte_nibbles)

lemma letters_plain: "plain (letters bs)"
  by (induction bs) (simp_all add: plain_def nibble_plain byte_nibbles)

definition enc_texts :: "string list \<Rightarrow> string" where
  "enc_texts ss = join ''.'' (map (\<lambda>s. letters (as_bytes s)) ss)"

definition dec_texts :: "string \<Rightarrow> string list" where
  "dec_texts s = map (\<lambda>p. map char_of_byte (unletters p)) (split_on CHR ''.'' s)"

lemma letters_no_dot: "CHR ''.'' \<notin> set (letters bs)"
proof
  assume "CHR ''.'' \<in> set (letters bs)"
  then have "plain_char CHR ''.''" using letters_plain [of bs] by (simp add: plain_def list_all_iff)
  then show False by (simp add: plain_char_def byte_of_char_def)
qed

lemma dec_enc_texts: "ss \<noteq> [] \<Longrightarrow> dec_texts (enc_texts ss) = ss"
  by (simp add: dec_texts_def enc_texts_def split_on_join list_all_iff letters_no_dot comp_def)

lemma join_visible: "list_all (list_all visible) ps \<Longrightarrow> list_all visible (join ''.'' ps)"
  by (induction "''.''" ps rule: join.induct) (auto simp: visible_def byte_of_char_def)

lemma enc_texts_visible: "list_all visible (enc_texts ss)"
  unfolding enc_texts_def using plain_visible [OF letters_plain]
  by (intro join_visible) (simp add: list_all_iff)

fun unpair :: "string list \<Rightarrow> (string \<times> string) list" where
  "unpair (k # v # r) = (k, v) # unpair r"
| "unpair _ = []"

definition flat_pairs :: "(string \<times> string) list \<Rightarrow> string list" where
  "flat_pairs ps = concat (map (\<lambda>(k, v). [k, v]) ps)"

lemma unpair_flat [simp]: "unpair (flat_pairs ps) = ps"
  by (induction ps) (auto simp: flat_pairs_def)

definition sample_web :: "(string \<times> (string \<times> string) list) web" where
  "sample_web =
    \<lparr>header_name = (\<lambda>s. if s = [] then None else Some (to_ascii_lowercase s)),
     header_value_ok = list_all visible, header_text = list_all visible, method_of = Some,
     url_parse = (\<lambda>s. Some (hd (dec_texts s), unpair (tl (dec_texts s)))),
     url_text = (\<lambda>u. enc_texts (fst u # flat_pairs (snd u))),
     url_path = fst, url_set_path = (\<lambda>p u. (p, snd u)),
     url_pairs = snd, url_append_pair = (\<lambda>k v u. (fst u, snd u @ [(k, v)])),
     form_parse = (\<lambda>q. unpair (tl (dec_texts q))),
     b64_encode = letters, b64_decode = (\<lambda>s. Some (unletters s)), huffman = (\<lambda>_. None)\<rparr>"

lemma sample_web_laws: "web_laws sample_web"
  by (auto simp: web_laws_def sample_web_def dec_enc_texts enc_texts_visible letters_plain
      split: if_splits)

definition sample_uri :: "string \<times> (string \<times> string) list \<Rightarrow> uri" where
  "sample_uri u = \<lparr>uri_path = fst u, uri_query = Some (enc_texts ([] # flat_pairs (snd u)))\<rparr>"

lemma sample_carries: "carries sample_web url (sample_uri url)"
  by (simp add: carries_def sample_uri_def query_pairs_def sample_web_def dec_enc_texts)

text \<open>A client of the default configuration.\<close>

definition sample_client :: client_config where
  "sample_client =
    \<lparr>cc_server = enc_texts [''/''], cc_transport = transport_default,
     cc_tls = \<lparr>ct_insecure = False, ct_ca_pem = None, ct_ca_certificate = None,
       ct_certificate = None, ct_certificate_path = None, ct_key = None, ct_key_path = None,
       ct_http2_only = False, ct_http3 = False, ct_ech = None, ct_ech_path = None,
       ct_ech_bytes = None\<rparr>\<rparr>"

lemma sample_base: "build_request_base sample_web sample_client = Inr ((''/xhttp/'', []), [])"
  by (simp add: build_request_base_def sample_client_def sample_web_def transport_default_def
      dec_enc_texts add_common_headers_def ends_with_def)

lemma sample_transport_ok: "transport_ok sample_web transport_default"
  by (simp add: transport_ok_def transport_default_def sample_web_def path_normal_def fields_ok_def
      http_ok_def metadata_placement_def payload_placement_def padding_placement_ok_def xmux_ok_def
      xmux_default_def range_default_def range_ok_def to_ascii_uppercase_def ascii_upper_def
      byte_of_char_def)

lemma sample_slots_empty: "slot_values sample_web ((p, []), []) s = []"
  by (cases s) (simp_all add: slot_values_def hdr_get_all_def cookie_parts_def sample_web_def
      List.map_filter_def)

lemma sample_pairing: "pairing sample_web sample_client ((''/xhttp/'', []), [])"
proof -
  have fields: "tc_query transport_default = None" "tc_host transport_default = None"
      "tc_token transport_default = None" "session_placement transport_default = PathPlace"
      "sequence_placement transport_default = PathPlace" "data_placement transport_default = BodyPlace"
      "padding_obfs transport_default = False" "padding_method transport_default = ''repeat-x''"
    by (simp_all add: transport_default_def)
  have slots: "request_slots transport_default = [HeaderSlot ''referer'']"
  proof -
    have "to_ascii_lowercase ''Referer'' = ''referer''" by code_simp
    then show ?thesis
      by (simp add: request_slots_def padding_slot_def padding_target_def transport_default_def
          metadata_slot_def)
  qed
  have "slots_apart sample_web transport_default ((''/xhttp/'', []), [])"
    using hyphen_apart [of "''referer''" transport_default]
    by (simp add: slots_apart_def slots sample_slots_empty checked_slots_def fields)
  moreover have "path_kept sample_web sample_client"
    by (simp add: path_kept_def sample_client_def sample_web_def transport_default_def dec_enc_texts)
  moreover have "names_ok sample_web transport_default" "texts_ok sample_web transport_default"
    by (simp_all add: names_ok_def key_ok_def padding_key_ok_def padding_target_def
        payload_keys_ok_def texts_ok_def fields) (simp add: sample_web_def)
  moreover have "padding_unclaimed sample_web transport_default (''/xhttp/'', []) []"
    by (simp add: padding_unclaimed_def padding_target_def fields)
      (simp add: sample_web_def first_pair_def)
  moreover have "cc_transport sample_client = transport_default" by (simp add: sample_client_def)
  ultimately show ?thesis
    using sample_web_laws sample_transport_ok sample_base
    by (simp add: pairing_def fields)
qed

text \<open>A configuration as a user writes it, and what validation makes of it.\<close>

definition raw_transport :: transport_config where
  "raw_transport = transport_default\<lparr>tc_path := ''xhttp//?ed=1'', uplink_method := ''put''\<rparr>"

lemma raw_accepted:
  "accepted raw_transport =
    transport_default\<lparr>tc_path := ''/xhttp'', tc_query := Some ''ed=1'', uplink_method := ''PUT''\<rparr>"
proof -
  have "split_once CHR ''?'' ''xhttp//?ed=1'' = Some (''xhttp//'', ''ed=1'')"
    "pop_slashes ''/xhttp//'' = ''/xhttp''" "starts_with ''xhttp//'' ''/'' = False"
    "to_ascii_uppercase ''put'' = ''PUT''" by code_simp+
  then show ?thesis
    by (simp add: accepted_def normalise_path_def raw_transport_def)
qed

lemma raw_transport_ok: "transport_ok sample_web (accepted raw_transport)"
  by (simp add: raw_accepted transport_ok_def transport_default_def sample_web_def path_normal_def fields_ok_def
      http_ok_def metadata_placement_def payload_placement_def padding_placement_ok_def xmux_ok_def
      xmux_default_def range_default_def range_ok_def to_ascii_uppercase_def ascii_upper_def
      byte_of_char_def)

end
