(* ===== verification/Srs.thy ===== *)
theory Srs
  imports Routing
begin

unbundle bit_operations_syntax

text \<open>
  The reader of sing-box binary rule sets, \<open>srs.rs\<close>: integers, strings, the succinct domain tree,
  address ranges and the rules. Inflating the payload (\<open>flate2\<close>) and escaping a regular expression
  (\<open>regex\<close>) are parameters. \<open>checks\<close> tells whether integer overflow panics (debug builds) or wraps
  (release builds). The recursion of nested rules has a depth, the room of the call stack.
\<close>

section \<open>Primitive readers\<close>

text \<open>\<open>vec![0; length]\<close> panics when the length exceeds the largest \<open>isize\<close>.\<close>

definition srs_bytes :: "nat \<Rightarrow> bytes reader" where
  "srs_bytes n = (if n < 2 ^ 63 then read_exact n else rlift (Inl Panic))"

fun uvarint_loop :: "nat list \<Rightarrow> u64 \<Rightarrow> u64 reader" where
  "uvarint_loop [] v = rfail ''SRS integer overflow''"
| "uvarint_loop (sh # shs) v =
    rbind read_u8 (\<lambda>b.
      if b < 0x80 then
        (if sh = 63 \<and> b > 1 then rfail ''SRS integer overflow''
         else rret (v OR push_bit sh (ucast b)))
      else uvarint_loop shs (v OR push_bit sh (ucast (b AND 0x7f))))"

definition uvarint :: "u64 reader" where
  "uvarint = uvarint_loop [0, 7, 14, 21, 28, 35, 42, 49, 56, 63] 0"

definition counted_reader :: "'a reader \<Rightarrow> 'a list reader" where
  "counted_reader p = rbind uvarint (\<lambda>count. read_many (unat count) p)"

definition srs_string :: "string reader" where
  "srs_string =
    rbind uvarint (\<lambda>len. rbind (srs_bytes (unat len)) (\<lambda>bs. rlift (from_utf8 bs)))"

definition srs_strings :: "string list reader" where
  "srs_strings = counted_reader srs_string"

definition srs_u8s :: "bytes reader" where
  "srs_u8s = rbind uvarint (\<lambda>count. srs_bytes (unat count))"

definition srs_u16s :: "u16 list reader" where
  "srs_u16s = counted_reader read_be"

definition srs_u64s :: "u64 list reader" where
  "srs_u64s = counted_reader read_be"

section \<open>The domain tree\<close>

definition srs_bit :: "u64 list \<Rightarrow> nat \<Rightarrow> bool" where
  "srs_bit words i \<longleftrightarrow> i div 64 < length words \<and> bit (words ! (i div 64)) (i mod 64)"

text \<open>
  The children of every node, in the order of the nodes: a clear bit adds a child with the next
  label, a set bit ends the node. Bits behind the end are clear, so a tree that does not end runs
  out of labels.
\<close>

type_synonym srs_tree = "(u8 \<times> nat) list list"

function tree_loop ::
    "u64 list \<Rightarrow> nat \<Rightarrow> bytes \<Rightarrow> nat \<Rightarrow> srs_tree \<Rightarrow> (srs_tree \<times> bytes) result" where
  "tree_loop bitmap i labels node children =
    (if node < length children then
       (if \<not> srs_bit bitmap i then
          (case labels of
             [] \<Rightarrow> Inl (Bail ''invalid SRS domain labels'')
           | l # ls \<Rightarrow>
               tree_loop bitmap (i + 1) ls node
                 (children[node := children ! node @ [(l, length children)]] @ [[]]))
        else tree_loop bitmap (i + 1) labels (node + 1) children)
     else Inr (children, labels))"
  by pat_completeness auto
termination
  by (relation "measure (\<lambda>(bitmap, i, labels, node, children). 2 * length labels + length children - node)")
    auto

declare tree_loop.simps [simp del]

fun collect_keys :: "nat \<Rightarrow> srs_tree \<Rightarrow> u64 list \<Rightarrow> nat \<Rightarrow> bytes \<Rightarrow> bytes list" where
  "collect_keys 0 children leaves node key = []"
| "collect_keys (Suc fuel) children leaves node key =
    (if srs_bit leaves node then [key] else []) @
    concat (map (\<lambda>(label, child). collect_keys fuel children leaves child (key @ [label]))
      (children ! node))"

definition succinct_keys :: "bytes list reader" where
  "succinct_keys =
    rbind read_u8 (\<lambda>_.
    rbind srs_u64s (\<lambda>leaves.
    rbind srs_u64s (\<lambda>bitmap.
    rbind srs_u8s (\<lambda>labels.
    rlift (bindr (tree_loop bitmap 0 labels 0 [[]]) (\<lambda>(children, rest).
      if rest \<noteq> [] then Inl (Bail ''invalid SRS domain tree'')
      else Inr (collect_keys (length children) children leaves 0 [])))))))"

fun split_domains :: "bytes list \<Rightarrow> (string list \<times> string list) result" where
  "split_domains [] = Inr ([], [])"
| "split_domains (k # ks) =
    (let key = rev k in
     if key \<noteq> [] \<and> (hd key = 13 \<or> hd key = 10) then
       bindr (from_utf8 (tl key)) (\<lambda>s. bindr (split_domains ks) (\<lambda>(ds, ss). Inr (ds, s # ss)))
     else
       bindr (from_utf8 key) (\<lambda>s. bindr (split_domains ks) (\<lambda>(ds, ss). Inr (s # ds, ss))))"

definition domain_matcher :: "(string list \<times> string list) reader" where
  "domain_matcher = rbind succinct_keys (\<lambda>ks. rlift (split_domains ks))"

definition adguard_key :: "(string \<Rightarrow> string) \<Rightarrow> bytes \<Rightarrow> string result" where
  "adguard_key escape k =
    (let key = rev k;
         (start, key1) =
           (if key \<noteq> [] \<and> hd key = 13 then ('''', tl key)
            else if key \<noteq> [] \<and> hd key = 10 then (''(?:^|'' @ [CHR 0x5C] @ ''.)'', tl key)
            else (''^'', key));
         (stop, key2) = (if key1 \<noteq> [] \<and> last key1 = 8 then ('''', butlast key1) else (''$'', key1))
     in bindr (from_utf8 key2) (\<lambda>raw.
        Inr (start @ join ''.*'' (map escape (split_on CHR ''*'' raw)) @ stop)))"

definition adguard_matcher :: "(string \<Rightarrow> string) \<Rightarrow> string list reader" where
  "adguard_matcher escape = rbind succinct_keys (\<lambda>ks. rlift (map_result (adguard_key escape) ks))"

section \<open>Addresses\<close>

definition srs_parse_ip :: "bytes \<Rightarrow> ip_addr result" where
  "srs_parse_ip bs =
    (if length bs = 4 then Inr (V4 (ipv4_from bs))
     else if length bs = 16 then Inr (V6 (ipv6_from bs))
     else Inl (Bail ''invalid IP address length in SRS''))"

text \<open>\<open>Display\<close> of an address.\<close>

fun hex_string :: "nat \<Rightarrow> string" where
  "hex_string n =
    (if n < 16 then [''0123456789abcdef'' ! n]
     else hex_string (n div 16) @ [''0123456789abcdef'' ! (n mod 16)])"

declare hex_string.simps [simp del]

definition show_ipv4 :: "u32 \<Rightarrow> string" where
  "show_ipv4 a = join ''.'' (map (\<lambda>b. nat_to_string (unat b)) (ipv4_octets a))"

definition ipv6_groups :: "u128 \<Rightarrow> nat list" where
  "ipv6_groups a = map (\<lambda>i. unat a div 2 ^ (112 - 16 * i) mod 65536) [0..<8]"

fun longest_zeros :: "nat \<Rightarrow> nat list \<Rightarrow> nat \<times> nat \<Rightarrow> nat \<times> nat \<Rightarrow> nat \<times> nat" where
  "longest_zeros i [] current longest = longest"
| "longest_zeros i (x # xs) current longest =
    (if x = 0 then
       (let current' = (if snd current = 0 then i else fst current, snd current + 1) in
        longest_zeros (i + 1) xs current' (if snd current' > snd longest then current' else longest))
     else longest_zeros (i + 1) xs (0, 0) longest)"

definition show_groups :: "nat list \<Rightarrow> string" where
  "show_groups gs = join '':'' (map hex_string gs)"

definition show_ipv6 :: "u128 \<Rightarrow> string" where
  "show_ipv6 a =
    (let gs = ipv6_groups a; (start, len) = longest_zeros 0 gs (0, 0) (0, 0) in
     if take 6 gs = [0, 0, 0, 0, 0, 65535] then ''::ffff:'' @ show_ipv4 (ucast a)
     else if len > 1 then show_groups (take start gs) @ ''::'' @ show_groups (drop (start + len) gs)
     else show_groups gs)"

definition show_ip :: "ip_addr \<Rightarrow> string" where
  "show_ip a = (case a of V4 x \<Rightarrow> show_ipv4 x | V6 x \<Rightarrow> show_ipv6 x)"

subsection \<open>Ranges\<close>

fun twos :: "nat \<Rightarrow> nat" where
  "twos n = (if n = 0 \<or> odd n then 0 else Suc (twos (n div 2)))"

definition trailing_zeros :: "u128 \<Rightarrow> nat" where
  "trailing_zeros w = (if w = 0 then 128 else twos (unat w))"

text \<open>\<open>127 - leading_zeros\<close> of a positive number.\<close>

fun ilog2 :: "nat \<Rightarrow> nat" where
  "ilog2 n = (if n < 2 then 0 else Suc (ilog2 (n div 2)))"

declare twos.simps [simp del] ilog2.simps [simp del]

definition remaining_bits :: "u128 \<Rightarrow> u128 \<Rightarrow> nat" where
  "remaining_bits start stop = (if stop = - 1 then 128 else ilog2 (unat (stop - start + 1)))"

definition host_bits :: "nat \<Rightarrow> u128 \<Rightarrow> u128 \<Rightarrow> nat" where
  "host_bits width start stop = min (min (trailing_zeros start) width) (remaining_bits start stop)"

text \<open>
  The loop of \<open>range_to_cidrs\<close>, with the address and the prefix length of every network; \<open>None\<close> would
  be a loop that does not end.
\<close>

partial_function (option) cidr_loop ::
    "bool \<Rightarrow> nat \<Rightarrow> u128 \<Rightarrow> u128 \<Rightarrow> (u128 \<times> nat) list result option" where
  [code]: "cidr_loop checks width start stop =
    (if \<not> start \<le> stop then Some (Inr [])
     else
       (let h = host_bits width start stop in
        if h = 128 then Some (Inr [(start, width - h)])
        else if checks \<and> 2 ^ 128 \<le> unat start + 2 ^ h then Some (Inl Panic)
        else Option.bind (cidr_loop checks width (start + 2 ^ h) stop) (\<lambda>r.
               Some (bindr r (\<lambda>ns. Inr ((start, width - h) # ns))))))"

definition cidr_text :: "nat \<Rightarrow> u128 \<times> nat \<Rightarrow> string" where
  "cidr_text width n =
    (case n of (a, bits) \<Rightarrow>
     show_ip (if width = 32 then V4 (ucast a) else V6 a) @ ''/'' @ nat_to_string bits)"

definition cidr_range :: "ip_addr \<Rightarrow> ip_addr \<Rightarrow> (u128 \<times> u128 \<times> nat) result" where
  "cidr_range first final =
    (case (first, final) of
       (V4 a, V4 b) \<Rightarrow> Inr (ucast a, ucast b, 32)
     | (V6 a, V6 b) \<Rightarrow> Inr (a, b, 128)
     | _ \<Rightarrow> Inl (Bail ''mixed address families in SRS IP range''))"

definition range_to_cidrs :: "bool \<Rightarrow> ip_addr \<Rightarrow> ip_addr \<Rightarrow> string list result option" where
  "range_to_cidrs checks first final =
    (case cidr_range first final of
       Inl e \<Rightarrow> Some (Inl e)
     | Inr (start, stop, width) \<Rightarrow>
         if stop < start then Some (Inl (Bail ''invalid descending SRS IP range''))
         else map_option (\<lambda>r. bindr r (\<lambda>ns. Inr (map (cidr_text width) ns)))
                (cidr_loop checks width start stop))"

text \<open>A loop that did not end would be a panic here; \<open>range_to_cidrs_returns\<close> shows that there is none.\<close>

definition cidrs_of :: "bool \<Rightarrow> ip_addr \<Rightarrow> ip_addr \<Rightarrow> string list result" where
  "cidrs_of checks first final =
    (case range_to_cidrs checks first final of None \<Rightarrow> Inl Panic | Some r \<Rightarrow> r)"

definition srs_address :: "ip_addr reader" where
  "srs_address =
    rbind uvarint (\<lambda>len. rbind (srs_bytes (unat len)) (\<lambda>bs. rlift (srs_parse_ip bs)))"

definition ip_set :: "bool \<Rightarrow> string list reader" where
  "ip_set checks =
    rbind read_u8 (\<lambda>version.
    if version \<noteq> 1 then rfail ''unsupported SRS IP set version''
    else
      rbind (read_be :: u64 reader) (\<lambda>count.
      rbind (read_many (unat count)
        (rbind srs_address (\<lambda>first. rbind srs_address (\<lambda>final. rlift (cidrs_of checks first final)))))
        (\<lambda>nets. rret (concat nets))))"

definition srs_prefix :: "string reader" where
  "srs_prefix =
    rbind srs_address (\<lambda>a. rbind read_u8 (\<lambda>bits.
    rret (show_ip a @ ''/'' @ nat_to_string (unat bits))))"

definition srs_prefixes :: "string list reader" where
  "srs_prefixes = counted_reader srs_prefix"

definition interface_type :: "u8 \<Rightarrow> string" where
  "interface_type b =
    (if b = 0 then ''wifi'' else if b = 1 then ''cellular'' else if b = 2 then ''ethernet''
     else if b = 3 then ''other'' else nat_to_string (unat b))"

definition interface_address_map :: "(string, string list) hashmap reader" where
  "interface_address_map =
    rbind (counted_reader (rbind read_u8 (\<lambda>b. rbind srs_prefixes (\<lambda>ps. rret (interface_type b, ps)))))
      (\<lambda>entries. rret (fold (\<lambda>(k, v) m. hm_insert k v m) entries []))"

section \<open>Rules\<close>

definition match_default :: raw_match where
  "match_default =
    \<lparr>rm_type = '''', rm_mode = None, rm_domain = [], rm_domain_suffix = [], rm_domain_keyword = [],
     rm_domain_regex = [], rm_geosite = [], rm_geoip = [], rm_source_geoip = [], rm_ip_cidr = [],
     rm_source_ip_cidr = [], rm_ip_is_private = False, rm_source_ip_is_private = False, rm_port = [],
     rm_port_range = [], rm_network = [], rm_ip_version = [], rm_auth_user = [], rm_protocol = [],
     rm_client = [], rm_inbound = [], rm_source_port = [], rm_source_port_range = [],
     rm_process_name = [], rm_process_path = [], rm_process_path_regex = [], rm_package_name = [],
     rm_package_name_regex = [], rm_user = [], rm_user_id = [], rm_clash_mode = None,
     rm_network_type = [], rm_network_is_expensive = False, rm_network_is_constrained = False,
     rm_wifi_ssid = [], rm_wifi_bssid = [], rm_interface_address = [],
     rm_network_interface_address = [], rm_default_interface_address = [],
     rm_source_mac_address = [], rm_source_hostname = [], rm_preferred_by = [], rm_rule_set = [],
     rm_rule_set_ip_cidr_match_source = False, rm_invert = False\<rparr>"

definition action_default :: raw_action where
  "action_default =
    \<lparr>ra_outbound = None, ra_action = None, ra_options = default_options, ra_sniffer = [],
     ra_timeout = None, ra_server = None, ra_strategy = None, ra_disable_cache = False,
     ra_disable_optimistic_cache = False, ra_rewrite_ttl = None, ra_client_subnet = None\<rparr>"

text \<open>One item of a default rule, by its tag.\<close>

definition srs_item :: "bool \<Rightarrow> (string \<Rightarrow> string) \<Rightarrow> u8 \<Rightarrow> raw_match \<Rightarrow> raw_match reader" where
  "srs_item checks escape tag m =
    (if tag = 0 then rbind srs_u16s (\<lambda>_. rret m)
     else if tag = 1 then rbind srs_strings (\<lambda>v. rret (m\<lparr>rm_network := v\<rparr>))
     else if tag = 2 then
       rbind domain_matcher (\<lambda>(ds, ss). rret (m\<lparr>rm_domain := ds, rm_domain_suffix := ss\<rparr>))
     else if tag = 3 then rbind srs_strings (\<lambda>v. rret (m\<lparr>rm_domain_keyword := v\<rparr>))
     else if tag = 4 then rbind srs_strings (\<lambda>v. rret (m\<lparr>rm_domain_regex := v\<rparr>))
     else if tag = 5 then rbind (ip_set checks) (\<lambda>v. rret (m\<lparr>rm_source_ip_cidr := v\<rparr>))
     else if tag = 6 then rbind (ip_set checks) (\<lambda>v. rret (m\<lparr>rm_ip_cidr := v\<rparr>))
     else if tag = 7 then rbind srs_u16s (\<lambda>v. rret (m\<lparr>rm_source_port := v\<rparr>))
     else if tag = 8 then rbind srs_strings (\<lambda>v. rret (m\<lparr>rm_source_port_range := v\<rparr>))
     else if tag = 9 then rbind srs_u16s (\<lambda>v. rret (m\<lparr>rm_port := v\<rparr>))
     else if tag = 10 then rbind srs_strings (\<lambda>v. rret (m\<lparr>rm_port_range := v\<rparr>))
     else if tag = 11 then rbind srs_strings (\<lambda>v. rret (m\<lparr>rm_process_name := v\<rparr>))
     else if tag = 12 then rbind srs_strings (\<lambda>v. rret (m\<lparr>rm_process_path := v\<rparr>))
     else if tag = 13 then rbind srs_strings (\<lambda>v. rret (m\<lparr>rm_package_name := v\<rparr>))
     else if tag = 14 then rbind srs_strings (\<lambda>v. rret (m\<lparr>rm_wifi_ssid := v\<rparr>))
     else if tag = 15 then rbind srs_strings (\<lambda>v. rret (m\<lparr>rm_wifi_bssid := v\<rparr>))
     else if tag = 16 then
       rbind (adguard_matcher escape) (\<lambda>v. rret (m\<lparr>rm_domain_regex := rm_domain_regex m @ v\<rparr>))
     else if tag = 17 then rbind srs_strings (\<lambda>v. rret (m\<lparr>rm_process_path_regex := v\<rparr>))
     else if tag = 18 then rbind srs_u8s (\<lambda>v. rret (m\<lparr>rm_network_type := map interface_type v\<rparr>))
     else if tag = 19 then rret (m\<lparr>rm_network_is_expensive := True\<rparr>)
     else if tag = 20 then rret (m\<lparr>rm_network_is_constrained := True\<rparr>)
     else if tag = 21 then
       rbind interface_address_map (\<lambda>v. rret (m\<lparr>rm_network_interface_address := v\<rparr>))
     else if tag = 22 then rbind srs_prefixes (\<lambda>v. rret (m\<lparr>rm_default_interface_address := v\<rparr>))
     else if tag = 23 then rbind srs_strings (\<lambda>v. rret (m\<lparr>rm_package_name_regex := v\<rparr>))
     else rfail ''unknown SRS rule item'')"

lemma consuming_uvarint_loop [simp]: "consuming (uvarint_loop shs v)"
  by (induction shs arbitrary: v) (auto intro!: consuming_rbind)

lemma consuming_uvarint [simp]: "consuming uvarint"
  unfolding uvarint_def by (rule consuming_uvarint_loop)

lemma consuming_srs_bytes [simp]: "consuming (srs_bytes n)"
  by (simp add: srs_bytes_def)

lemma consuming_counted [simp]: "consuming p \<Longrightarrow> consuming (counted_reader p)"
  by (auto simp: counted_reader_def intro!: consuming_rbind)

lemma consuming_srs [simp]:
  "consuming srs_string" "consuming srs_strings" "consuming srs_u8s" "consuming srs_u16s"
  "consuming srs_u64s" "consuming srs_address"
  by (auto simp: srs_string_def srs_strings_def srs_u8s_def srs_u16s_def srs_u64s_def srs_address_def
      intro!: consuming_rbind consuming_counted consuming_read_many)

lemma consuming_srs_compound [simp]:
  "consuming succinct_keys" "consuming domain_matcher" "consuming (adguard_matcher escape)"
  "consuming (ip_set checks)" "consuming srs_prefix" "consuming srs_prefixes"
  "consuming interface_address_map"
  by (auto simp: succinct_keys_def domain_matcher_def adguard_matcher_def ip_set_def srs_prefix_def
      srs_prefixes_def interface_address_map_def intro!: consuming_rbind consuming_counted consuming_read_many split: prod.splits)

lemma consuming_srs_item [simp]: "consuming (srs_item checks escape tag m)"
  unfolding srs_item_def by (auto intro!: consuming_rbind split: prod.splits)

lemma consuming_suffix: "consuming p \<Longrightarrow> p s = Inr (x, s') \<Longrightarrow> suffix s' s"
  by (simp add: consuming_def)

lemma consuming_length: "consuming p \<Longrightarrow> p s = Inr (x, s') \<Longrightarrow> length s' \<le> length s"
  by (auto simp: consuming_def dest: suffix_length_le)

function default_rule ::
    "bool \<Rightarrow> (string \<Rightarrow> string) \<Rightarrow> raw_match \<Rightarrow> raw_match reader" where
  "default_rule checks escape m s =
    (case read_u8 s of
       Inl e \<Rightarrow> Inl e
     | Inr (tag, s1) \<Rightarrow>
         if tag = 0xff then rbind read_u8 (\<lambda>b. rret (m\<lparr>rm_invert := (b \<noteq> 0)\<rparr>)) s1
         else (case srs_item checks escape tag m s1 of
             Inl e \<Rightarrow> Inl e
           | Inr (m', s2) \<Rightarrow> default_rule checks escape m' s2))"
  by pat_completeness auto
termination
proof (relation "measure (\<lambda>(checks, escape, m, s). length s)", goal_cases)
  case (2 checks escape m s r tag s1 r' m' s2)
  then show ?case
    using consuming_length [OF consuming_srs_item, of checks escape tag m s1 m' s2]
    by (auto simp: read_u8_Inr_iff)
qed simp

declare default_rule.simps [simp del]

text \<open>\<open>Reader::rule\<close>: a nested rule takes one level of the call stack.\<close>

fun srs_rule :: "bool \<Rightarrow> (string \<Rightarrow> string) \<Rightarrow> nat \<Rightarrow> route_rule reader" where
  "srs_rule checks escape 0 = rlift (Inl Panic)"
| "srs_rule checks escape (Suc depth) =
    rbind read_u8 (\<lambda>kind.
    if kind = 0 then
      rbind (default_rule checks escape match_default) (\<lambda>m. rret (RouteRule [] m action_default))
    else if kind = 1 then
      rbind read_u8 (\<lambda>mode.
      if mode = 0 \<or> mode = 1 then
        rbind (counted_reader (srs_rule checks escape depth)) (\<lambda>rules.
        rbind read_u8 (\<lambda>b.
        rret (RouteRule rules
          (match_default\<lparr>rm_type := ''logical'', rm_mode := Some (if mode = 0 then ''and'' else ''or''),
             rm_invert := (b \<noteq> 0)\<rparr>) action_default)))
      else rfail ''unknown SRS logical mode'')
    else rfail ''unknown SRS rule type'')"

definition srs_decode ::
    "bool \<Rightarrow> (bytes \<Rightarrow> bytes option) \<Rightarrow> (string \<Rightarrow> string) \<Rightarrow> nat \<Rightarrow> bytes \<Rightarrow> route_rule list result" where
  "srs_decode checks inflate escape depth data =
    (if take 3 data \<noteq> as_bytes ''SRS'' then Inl (Bail ''invalid sing-box rule-set magic'')
     else
       bindr (with_context ''missing sing-box rule-set version''
                (if 3 < length data then Some (data ! 3) else None)) (\<lambda>version.
       if version > 4 then Inl (Bail ''unsupported sing-box rule-set version'')
       else
         bindr (with_context ''decompress sing-box rule-set'' (inflate (drop 4 data))) (\<lambda>payload.
         bindr (counted_reader (srs_rule checks escape depth) payload) (\<lambda>(rules, _). Inr rules))))"

section \<open>Ranges are split exactly\<close>

lemma two_power_twos: "2 ^ twos n dvd n"
proof (induction n rule: twos.induct)
  case (1 n)
  show ?case
  proof (cases "n = 0 \<or> odd n")
    case False
    then obtain k where "n = 2 * k" by (auto elim: evenE)
    with 1 False show ?thesis by (subst twos.simps) (simp add: mult_dvd_mono)
  qed (subst twos.simps, auto)
qed

lemma two_power_ilog2: "0 < n \<Longrightarrow> 2 ^ ilog2 n \<le> n"
proof (induction n rule: ilog2.induct)
  case (1 n)
  then show ?case by (subst ilog2.simps) auto
qed

lemma ilog2_less: "0 < n \<Longrightarrow> n < 2 ^ k \<Longrightarrow> ilog2 n < k"
  using two_power_ilog2 [of n] power_less_imp_less_exp [of "2 :: nat" "ilog2 n" k] by linarith

text \<open>The addresses of a network, and that it is one: aligned to its size.\<close>

definition net_members :: "nat \<Rightarrow> u128 \<times> nat \<Rightarrow> nat set" where
  "net_members width n = {unat (fst n) ..< unat (fst n) + 2 ^ (width - snd n)}"

definition net_ok :: "nat \<Rightarrow> u128 \<times> nat \<Rightarrow> bool" where
  "net_ok width n \<longleftrightarrow> snd n \<le> width \<and> 2 ^ (width - snd n) dvd unat (fst n)"

definition exact_cover :: "nat \<Rightarrow> nat \<Rightarrow> nat \<Rightarrow> (u128 \<times> nat) list \<Rightarrow> bool" where
  "exact_cover width lo hi ns \<longleftrightarrow> list_all (net_ok width) ns \<and>
    (\<Union>n \<in> set ns. net_members width n) = {lo..hi} \<and>
    (\<forall>i j. i < j \<and> j < length ns \<longrightarrow> net_members width (ns ! i) \<inter> net_members width (ns ! j) = {})"

lemma aligned_start: "2 ^ host_bits width start stop dvd unat start"
proof (cases "start = 0")
  case False
  then have "host_bits width start stop \<le> twos (unat start)"
    by (simp add: host_bits_def trailing_zeros_def)
  then show ?thesis using two_power_twos power_le_dvd by blast
qed simp

lemma unat_two_power:
  assumes "h < 128"
  shows "unat ((2 :: u128) ^ h) = 2 ^ h"
proof -
  have "(0 :: u128) < 2 ^ h" using assms by (simp add: word_gt_0)
  then have "nat (uint ((2 :: u128) ^ h)) = nat (2 ^ h)" by (simp only: uint_2p)
  then show ?thesis by (simp add: nat_power_eq)
qed

lemma unat_span:
  assumes "start \<le> stop" and "(stop :: u128) \<noteq> - 1"
  shows "unat (stop - start + 1) = unat stop + 1 - unat start" "unat stop + 1 < 2 ^ 128"
proof -
  have "unat stop \<noteq> unat (- 1 :: u128)" using assms(2) by (simp only: word_unat_eq_iff [symmetric] not_False_eq_True)
  moreover have "unat (- 1 :: u128) = 2 ^ 128 - 1" by (simp add: unsigned_minus_1_eq_mask mask_eq_exp_minus_1)
  moreover have "unat stop < 2 ^ 128" using unsigned_less [of stop] by simp
  ultimately show less: "unat stop + 1 < 2 ^ 128" by linarith
  have "unat (stop - start) = unat stop - unat start" using assms(1) by (rule unat_sub)
  then have "unat (stop - start) + 1 < 2 ^ 128" using less by linarith
  then have "unat (stop - start + 1) = unat (stop - start) + 1"
    by (simp add: unat_word_ariths)
  then show "unat (stop - start + 1) = unat stop + 1 - unat start"
    using \<open>unat (stop - start) = _\<close> assms(1) by (simp add: word_le_nat_alt)
qed

lemma block_fits:
  assumes "start \<le> stop" and "stop \<noteq> - 1"
  shows "host_bits width start stop < 128"
    and "unat start + 2 ^ host_bits width start stop \<le> unat stop + 1"
proof -
  let ?n = "unat stop + 1 - unat start"
  have n: "0 < ?n" "?n < 2 ^ 128" using assms(1) unat_span(2) [OF assms] by (auto simp: word_le_nat_alt)
  have h: "host_bits width start stop \<le> ilog2 ?n"
    using assms unat_span(1) [OF assms] by (simp add: host_bits_def remaining_bits_def)
  with ilog2_less [OF n] show "host_bits width start stop < 128" by linarith
  have "(2 :: nat) ^ host_bits width start stop \<le> 2 ^ ilog2 ?n" using h by (simp add: power_increasing)
  with two_power_ilog2 [OF n(1)] show "unat start + 2 ^ host_bits width start stop \<le> unat stop + 1"
    using n(1) by linarith
qed

lemma exact_cover_Cons:
  assumes "exact_cover width mid hi ns" and "net_ok width n" and "net_members width n = {lo..<mid}"
    and "lo < mid" and "mid \<le> hi + 1"
  shows "exact_cover width lo hi (n # ns)"
proof -
  have un: "(\<Union>m \<in> set (n # ns). net_members width m) = {lo..hi}"
    using assms by (auto simp: exact_cover_def)
  have "net_members width n \<inter> net_members width m = {}" if "m \<in> set ns" for m
  proof -
    have "net_members width m \<subseteq> {mid..hi}" using assms(1) that unfolding exact_cover_def by blast
    then show ?thesis using assms(3) by auto
  qed
  then have "net_members width ((n # ns) ! i) \<inter> net_members width ((n # ns) ! j) = {}"
    if "i < j" "j < length (n # ns)" for i j
    using that assms(1) by (cases i; cases j) (auto simp: exact_cover_def)
  with un assms(1,2) show ?thesis unfolding exact_cover_def by simp
qed

lemma cidr_loop_exact:
  assumes "start \<le> stop + 1" and "stop \<noteq> - 1" and "unat stop < 2 ^ width" and "width \<le> 128"
  shows "\<exists>ns. cidr_loop checks width start stop = Some (Inr ns) \<and>
    exact_cover width (unat start) (unat stop) ns"
  using assms(1)
proof (induction "unat stop + 1 - unat start" arbitrary: start rule: less_induct)
  case less
  show ?case
  proof (cases "start \<le> stop")
    case False
    then have "unat stop < unat start" by (simp add: word_le_nat_alt)
    with False show ?thesis
      by (subst cidr_loop.simps) (simp add: exact_cover_def)
  next
    case True
    define h where "h = host_bits width start stop"
    note fits = block_fits [OF True assms(2), of width, folded h_def]
    have small: "unat start + 2 ^ h < 2 ^ 128" using fits(2) unat_span(2) [OF True assms(2)] by linarith
    have pw: "unat ((2 :: u128) ^ h) = 2 ^ h" using fits(1) by (rule unat_two_power)
    have next_start: "unat (start + 2 ^ h) = unat start + 2 ^ h"
      using small pw by (simp add: unat_word_ariths)
    have h: "h \<le> width" by (simp add: h_def host_bits_def)
    have "unat (stop + 1) = unat stop + 1" using unat_span(2) [OF True assms(2)] by (simp add: unat_word_ariths)
    then have "start + 2 ^ h \<le> stop + 1" using fits(2) next_start by (simp add: word_le_nat_alt)
    moreover have "unat stop + 1 - unat (start + 2 ^ h) < unat stop + 1 - unat start"
    proof -
      have "(0 :: nat) < 2 ^ h" by simp
      then show ?thesis using fits(2) next_start by linarith
    qed
    ultimately obtain ns where ns: "cidr_loop checks width (start + 2 ^ h) stop = Some (Inr ns)"
        "exact_cover width (unat start + 2 ^ h) (unat stop) ns"
      using less.hyps [of "start + 2 ^ h"] next_start by auto
    have loop: "cidr_loop checks width start stop = Some (Inr ((start, width - h) # ns))"
      using True fits(1) small ns(1) by (subst cidr_loop.simps) (simp add: Let_def flip: h_def)
    have "exact_cover width (unat start) (unat stop) ((start, width - h) # ns)"
      using ns(2) fits(2) h aligned_start [of width start stop, folded h_def]
      by (intro exact_cover_Cons) (auto simp: net_ok_def net_members_def)
    with loop show ?thesis by blast
  qed
qed

text \<open>
  A range that ends at the last IPv6 address and does not start at the first one: the last block ends
  where the numbers end, so the addition overflows. A debug build panics; a release build starts
  again at zero and adds the network of all addresses.
\<close>

lemma host_bits_to_end:
  assumes "start \<noteq> 0"
  shows "host_bits 128 start (- 1) < 128" and "unat start + 2 ^ host_bits 128 start (- 1) \<le> 2 ^ 128"
proof -
  define h where "h = host_bits 128 start (- 1)"
  have pos: "0 < unat start" using assms by (simp add: unat_gt_0)
  have less: "unat start < 2 ^ 128" using unsigned_less [of start] by simp
  have dvd: "2 ^ h dvd unat start" using aligned_start h_def by simp
  then have "2 ^ h \<le> unat start" using pos dvd_imp_le by blast
  then have "(2 :: nat) ^ h < 2 ^ 128" using less by linarith
  then show h: "host_bits 128 start (- 1) < 128"
    using power_less_imp_less_exp [of "2 :: nat" h 128] h_def by (simp only: one_less_numeral_iff) simp
  obtain k where k: "unat start = 2 ^ h * k" using dvd by (auto elim: dvdE)
  have split: "(2 :: nat) ^ 128 = 2 ^ h * 2 ^ (128 - h)"
    using h by (simp only: h_def flip: power_add) simp
  have "k < 2 ^ (128 - h)" using less unfolding k split by simp
  then have "2 ^ h * (k + 1) \<le> (2 :: nat) ^ h * 2 ^ (128 - h)" by (intro mult_le_mono2) simp
  then show "unat start + 2 ^ host_bits 128 start (- 1) \<le> 2 ^ 128"
    unfolding h_def [symmetric] split using k by simp
qed

lemma cidr_loop_to_end:
  assumes "start \<noteq> 0"
  shows "cidr_loop True 128 start (- 1) = Some (Inl Panic) \<and>
    (\<exists>ns. cidr_loop False 128 start (- 1) = Some (Inr (ns @ [(0, 0)])))"
  using assms
proof (induction "2 ^ 128 - unat start" arbitrary: start rule: less_induct)
  case less
  define h where "h = host_bits 128 start (- 1)"
  note fits = host_bits_to_end [OF less.prems, folded h_def]
  have pw: "unat ((2 :: u128) ^ h) = 2 ^ h" using fits(1) by (rule unat_two_power)
  have step: "cidr_loop False 128 start (- 1) =
      Option.bind (cidr_loop False 128 (start + 2 ^ h) (- 1)) (\<lambda>r. Some (bindr r (\<lambda>ns. Inr ((start, 128 - h) # ns))))"
    using fits(1) by (subst cidr_loop.simps) (simp add: Let_def flip: h_def)
  have checked: "cidr_loop True 128 start (- 1) =
      (if 2 ^ 128 \<le> unat start + 2 ^ h then Some (Inl Panic)
       else Option.bind (cidr_loop True 128 (start + 2 ^ h) (- 1))
              (\<lambda>r. Some (bindr r (\<lambda>ns. Inr ((start, 128 - h) # ns)))))"
    using fits(1) by (subst cidr_loop.simps) (simp add: Let_def flip: h_def)
  show ?case
  proof (cases "unat start + 2 ^ h = 2 ^ 128")
    case True
    then have "unat (start + 2 ^ h) = 0" using pw by (simp add: unat_word_ariths)
    then have zero: "start + 2 ^ h = 0" by (simp only: unat_eq_zero)
    have "cidr_loop False 128 0 (- 1) = Some (Inr [(0, 0)])"
      by (subst cidr_loop.simps) (simp add: host_bits_def trailing_zeros_def remaining_bits_def)
    then have "cidr_loop False 128 start (- 1) = Some (Inr ([(start, 128 - h)] @ [(0, 0)]))"
      by (simp add: step zero)
    moreover have "cidr_loop True 128 start (- 1) = Some (Inl Panic)" by (simp only: checked True order_refl if_True)
    ultimately show ?thesis by blast
  next
    case False
    then have small: "unat start + 2 ^ h < 2 ^ 128" using fits(2) by linarith
    then have n: "unat (start + 2 ^ h) = unat start + 2 ^ h" using pw by (simp add: unat_word_ariths)
    then have "unat (start + 2 ^ h) \<noteq> 0" by simp
    then have "start + 2 ^ h \<noteq> 0" by (metis unat_0)
    moreover have "2 ^ 128 - unat (start + 2 ^ h) < 2 ^ 128 - unat start"
    proof -
      have "(0 :: nat) < 2 ^ h" by simp
      then show ?thesis using small n by linarith
    qed
    ultimately obtain ns where "cidr_loop True 128 (start + 2 ^ h) (- 1) = Some (Inl Panic)"
        "cidr_loop False 128 (start + 2 ^ h) (- 1) = Some (Inr (ns @ [(0, 0)]))"
      using less.hyps [of "start + 2 ^ h"] by blast
    with small show ?thesis by (auto simp: step checked simp flip: append_Cons)
  qed
qed

lemma cidr_range_facts:
  assumes "cidr_range first final = Inr (start, stop, width)"
  shows "width \<le> 128 \<and> unat stop < 2 ^ width \<and> (stop = - 1 \<longrightarrow> width = 128)"
proof (cases first; cases final)
  fix a b assume ab: "first = V4 a" "final = V4 b"
  have small: "unat b < 2 ^ 32" using unsigned_less [of b] by simp
  moreover from small have "unat (ucast b :: u128) = unat b"
    by (simp add: unsigned_ucast_eq take_bit_nat_eq_self)
  moreover have "unat (- 1 :: u128) = 2 ^ 128 - 1" by (simp add: unsigned_minus_1_eq_mask mask_eq_exp_minus_1)
  ultimately show ?thesis using assms ab by (auto simp: cidr_range_def)
next
  fix a b assume ab: "first = V6 a" "final = V6 b"
  have "unat b < 2 ^ 128" using unsigned_less [of b] by simp
  then show ?thesis using assms ab by (auto simp: cidr_range_def)
qed (use assms in \<open>auto simp: cidr_range_def\<close>)

lemma whole_space_exact:
  "cidr_loop checks 128 0 (- 1) = Some (Inr [(0, 0)])" "exact_cover 128 0 (unat (- 1 :: u128)) [(0, 0)]"
proof -
  show "cidr_loop checks 128 0 (- 1) = Some (Inr [(0, 0)])"
    by (subst cidr_loop.simps) (simp add: host_bits_def trailing_zeros_def remaining_bits_def)
  have "unat (- 1 :: u128) = 2 ^ 128 - 1" by (simp add: unsigned_minus_1_eq_mask mask_eq_exp_minus_1)
  then show "exact_cover 128 0 (unat (- 1 :: u128)) [(0, 0)]"
    by (auto simp: exact_cover_def net_ok_def net_members_def)
qed

lemma cidr_loop_returns:
  assumes "cidr_range first final = Inr (start, stop, width)" and "start \<le> stop"
  shows "(start = 0 \<or> stop \<noteq> - 1) \<Longrightarrow> \<exists>ns. cidr_loop checks width start stop = Some (Inr ns) \<and>
      exact_cover width (unat start) (unat stop) ns"
    and "\<exists>r. cidr_loop checks width start stop = Some r"
proof -
  note facts = cidr_range_facts [OF assms(1)]
  have normal: "\<exists>ns. cidr_loop checks width start stop = Some (Inr ns) \<and>
      exact_cover width (unat start) (unat stop) ns" if "stop \<noteq> - 1"
  proof (rule cidr_loop_exact [OF _ that])
    have "unat (stop + 1) = unat stop + 1" using unat_span(2) [OF assms(2) that] by (simp add: unat_word_ariths)
    then show "start \<le> stop + 1" using assms(2) by (simp add: word_le_nat_alt)
  qed (use facts in auto)
  then show "\<exists>ns. cidr_loop checks width start stop = Some (Inr ns) \<and>
      exact_cover width (unat start) (unat stop) ns" if "start = 0 \<or> stop \<noteq> - 1"
    using that facts whole_space_exact(1) [of checks] whole_space_exact(2) by (cases "stop = - 1") auto
  show "\<exists>r. cidr_loop checks width start stop = Some r"
  proof (cases "stop = - 1 \<and> start \<noteq> 0")
    case True
    with facts cidr_loop_to_end [of start] show ?thesis by (cases checks) auto
  next
    case False
    with normal facts whole_space_exact(1) [of checks] show ?thesis by (cases "stop = - 1") auto
  qed
qed

lemma range_to_cidrs_returns: "\<exists>r. range_to_cidrs checks first final = Some r"
proof (cases "cidr_range first final")
  case (Inr r)
  obtain start stop width where r: "r = (start, stop, width)" by (cases r) auto
  show ?thesis
  proof (cases "stop < start")
    case False
    then show ?thesis
      using cidr_loop_returns(2) [of first final start stop width checks] Inr r
      by (auto simp: range_to_cidrs_def)
  qed (simp add: Inr r range_to_cidrs_def)
qed (simp add: range_to_cidrs_def)

lemma cidr_text_all: "cidr_text 128 (0, 0) = ''::/0''"
proof -
  have "ipv6_groups 0 = replicate 8 0" by (simp add: ipv6_groups_def map_replicate_const)
  then have groups: "ipv6_groups 0 = [0, 0, 0, 0, 0, 0, 0, 0]" by (simp add: numeral_eq_Suc)
  have zero: "nat_to_string 0 = ''0''" by (subst nat_to_string.simps) (simp add: digit_char_def)
  have run: "longest_zeros 0 [0, 0, 0, 0, 0, 0, 0, 0] (0, 0) (0, 0) = (0, 8)" by code_simp
  have "show_ipv6 0 = ''::''" unfolding show_ipv6_def Let_def groups run by (simp add: show_groups_def)
  then show ?thesis by (simp add: cidr_text_def show_ip_def zero)
qed

lemma range_to_last_address:
  assumes "start \<noteq> 0"
  shows "range_to_cidrs True (V6 start) (V6 (- 1)) = Some (Inl Panic)"
    and "\<exists>ts. range_to_cidrs False (V6 start) (V6 (- 1)) = Some (Inr (ts @ [''::/0'']))"
proof -
  have le: "\<not> (- 1 :: u128) < start" by (simp add: not_less)
  obtain ns where loop: "cidr_loop True 128 start (- 1) = Some (Inl Panic)"
      "cidr_loop False 128 start (- 1) = Some (Inr (ns @ [(0, 0)]))"
    using cidr_loop_to_end [OF assms] by blast
  show "range_to_cidrs True (V6 start) (V6 (- 1)) = Some (Inl Panic)"
    by (simp add: range_to_cidrs_def cidr_range_def le loop)
  have "range_to_cidrs False (V6 start) (V6 (- 1)) = Some (Inr (map (cidr_text 128) ns @ [''::/0'']))"
    by (simp add: range_to_cidrs_def cidr_range_def le loop cidr_text_all)
  then show "\<exists>ts. range_to_cidrs False (V6 start) (V6 (- 1)) = Some (Inr (ts @ [''::/0'']))" by blast
qed

section \<open>The depth of nested rules\<close>

lemma read_many_cong:
  assumes "\<And>s. length s \<le> n \<Longrightarrow> p s = q s" and "consuming p" and "length s \<le> n"
  shows "read_many k p s = read_many k q s"
  using assms(3)
proof (induction k arbitrary: s)
  case (Suc k)
  show ?case
  proof (cases "p s")
    case (Inr xs)
    then obtain x s' where xs: "p s = Inr (x, s')" by (cases xs) auto
    then have "length s' \<le> n" using consuming_length [OF assms(2) xs] Suc.prems by linarith
    with Suc.IH [of s'] xs assms(1) [OF Suc.prems] show ?thesis by (simp add: rbind_apply)
  qed (use assms(1) [OF Suc.prems] in \<open>simp add: rbind_apply\<close>)
qed simp

lemma consuming_default_rule [simp]: "consuming (default_rule checks escape m)"
proof -
  have "default_rule checks escape m s = Inr (x, s') \<Longrightarrow> suffix s' s" for s x s'
  proof (induction checks escape m s rule: default_rule.induct)
    case (1 checks escape m s)
    obtain tag s1 where s1: "s = tag # s1"
      using "1.prems" by (subst (asm) default_rule.simps) (cases s, auto simp: read_u8_def)
    then have read: "read_u8 s = Inr (tag, s1)" by (simp add: read_u8_def)
    show ?case
    proof (cases "tag = 0xff")
      case True
      with "1.prems" s1 show ?thesis
        by (subst (asm) default_rule.simps)
          (auto simp: read_u8_Inr_iff rbind_apply rret_apply bindr_Inr_iff read_u8_Cons suffix_ConsI)
    next
      case False
      then obtain m' s2 where item: "srs_item checks escape tag m s1 = Inr (m', s2)"
        and rest: "default_rule checks escape m' s2 = Inr (x, s')"
        using "1.prems" by (subst (asm) default_rule.simps) (auto simp: read split: sum.splits)
      have "suffix s' s2" using "1.IH" [OF read refl False item refl rest] .
      then have "suffix s' s1"
        using consuming_suffix [OF consuming_srs_item item] by (rule suffix_order.trans)
      then show ?thesis unfolding s1 by (rule suffix_ConsI)
    qed
  qed
  then show ?thesis by (simp add: consuming_def)
qed

lemma consuming_srs_rule [simp]: "consuming (srs_rule checks escape depth)"
  by (induction depth) (auto intro!: consuming_rbind)

text \<open>A call stack with room for the length of the payload is as good as any larger one.\<close>

lemma srs_rule_depth:
  "length s < depth \<Longrightarrow> depth \<le> more_depth \<Longrightarrow>
    srs_rule checks escape depth s = srs_rule checks escape more_depth s"
proof (induction depth arbitrary: s more_depth)
  case (Suc depth)
  obtain deeper where deeper: "more_depth = Suc deeper" "depth \<le> deeper"
    using Suc.prems(2) by (cases more_depth) auto
  have inner: "counted_reader (srs_rule checks escape depth) t =
      counted_reader (srs_rule checks escape deeper) t" if "length t < depth" for t
  proof (cases "uvarint t")
    case (Inr r)
    then obtain c t' where c: "uvarint t = Inr (c, t')" by (cases r) auto
    then have "length t' < depth" using consuming_length [OF consuming_uvarint c] that by linarith
    then have "read_many (unat c) (srs_rule checks escape depth) t' =
        read_many (unat c) (srs_rule checks escape deeper) t'"
      using Suc.IH deeper(2) by (intro read_many_cong [of "depth - 1"]) auto
    with c show ?thesis by (simp add: counted_reader_def rbind_apply)
  qed (simp add: counted_reader_def rbind_apply)
  consider "s = []" | k where "s = [k]" | k mode u where "s = k # mode # u"
    by (cases s; cases "tl s") auto
  then show ?case
  proof cases
    case 3
    then have "counted_reader (srs_rule checks escape depth) u =
        counted_reader (srs_rule checks escape deeper) u" using inner Suc.prems(1) by simp
    then show ?thesis by (simp add: 3 deeper(1) rbind_apply read_u8_Cons)
  qed (simp_all add: deeper(1) rbind_apply read_u8_def)
qed simp

section \<open>The depth of the domain tree\<close>

text \<open>Every child is a later node, so the walk never takes more levels than there are nodes.\<close>

definition tree_ok :: "srs_tree \<Rightarrow> bool" where
  "tree_ok children \<longleftrightarrow>
    (\<forall>n < length children. \<forall>(l, c) \<in> set (children ! n). n < c \<and> c < length children)"

lemma tree_ok_add:
  assumes "tree_ok children" and "node < length children"
  shows "tree_ok (children[node := children ! node @ [(l, length children)]] @ [[]])"
proof -
  let ?t = "children[node := children ! node @ [(l, length children)]] @ [[]]"
  have old: "n < c \<and> c < length children" if "n < length children" "(k, c) \<in> set (children ! n)" for n k c
    using assms(1) that unfolding tree_ok_def by blast
  have "n < c \<and> c < length ?t" if n: "n < length ?t" and kc: "(k, c) \<in> set (?t ! n)" for n k c
  proof (cases "n < length children")
    case True
    show ?thesis
    proof (cases "n = node")
      case eq: True
      then have "(k, c) \<in> set (children ! node) \<or> c = length children"
        using kc assms(2) by (simp add: nth_append) blast
      then show ?thesis using old [OF assms(2)] eq assms(2) less_Suc_eq by auto
    next
      case False
      then have "(k, c) \<in> set (children ! n)" using kc True by (simp add: nth_append)
      from old [OF True this] show ?thesis by simp
    qed
  next
    case False
    then have "n = length children" using n by simp
    then show ?thesis using kc by (simp add: nth_append)
  qed
  then show ?thesis unfolding tree_ok_def by blast
qed

lemma tree_loop_ok:
  "tree_ok children \<Longrightarrow> tree_loop bitmap i labels node children = Inr (children', rest) \<Longrightarrow> tree_ok children'"
proof (induction bitmap i labels node children rule: tree_loop.induct)
  case (1 bitmap i labels node children)
  show ?case
  proof (cases "node < length children \<and> \<not> srs_bit bitmap i")
    case True
    then obtain l ls where ls: "labels = l # ls"
      using "1.prems"(2) by (subst (asm) tree_loop.simps) (auto split: list.splits)
    from "1.IH"(1) [OF _ _ ls tree_ok_add] True "1.prems" ls show ?thesis
      by (subst (asm) tree_loop.simps) simp
  next
    case False
    then show ?thesis
      using "1.IH"(2) "1.prems" by (subst (asm) (2) tree_loop.simps) (auto split: if_splits)
  qed
qed

lemma collect_keys_fuel:
  assumes "tree_ok children" and "node < length children" and "length children - node \<le> fuel"
    and "fuel \<le> fuel'"
  shows "collect_keys fuel children leaves node key = collect_keys fuel' children leaves node key"
  using assms(2-)
proof (induction fuel arbitrary: fuel' node key)
  case (Suc fuel)
  obtain k where k: "fuel' = Suc k" "fuel \<le> k" using Suc.prems(3) by (cases fuel') auto
  have "collect_keys fuel children leaves c (key @ [l]) = collect_keys k children leaves c (key @ [l])"
    if "(l, c) \<in> set (children ! node)" for l c
  proof -
    have "node < c" "c < length children" using that assms(1) Suc.prems(1) by (auto simp: tree_ok_def)
    then show ?thesis using Suc.prems(2) k(2) by (intro Suc.IH) auto
  qed
  then show ?case by (auto simp: k(1) intro!: arg_cong [where f = concat] map_cong)
qed simp

text \<open>A length beyond the largest \<open>isize\<close> panics before a byte is read.\<close>

lemma huge_length_panics: "uvarint s = Inr (n, s') \<Longrightarrow> 2 ^ 63 \<le> unat n \<Longrightarrow> srs_u8s s = Inl Panic"
  by (simp add: srs_u8s_def srs_bytes_def rbind_apply rlift_apply)

section \<open>What the reader promises\<close>

text \<open>
  Address ranges are split exactly: a range of one family, not descending, becomes a list of
  networks that are aligned, pairwise disjoint and together hold the addresses of the range and no
  other. The loop ends and nothing overflows. The one exception is a range that ends at the last
  IPv6 address without starting at the first one.
\<close>

theorem srs_ranges_exact:
  assumes "cidr_range first final = Inr (start, stop, width)" and "start \<le> stop"
    and "start = 0 \<or> stop \<noteq> - 1"
  shows "\<exists>ns. range_to_cidrs checks first final = Some (Inr (map (cidr_text width) ns)) \<and>
    exact_cover width (unat start) (unat stop) ns"
proof -
  obtain ns where "cidr_loop checks width start stop = Some (Inr ns)"
      "exact_cover width (unat start) (unat stop) ns"
    using cidr_loop_returns(1) [OF assms] by blast
  moreover have "\<not> stop < start" using assms(2) by (simp add: not_less)
  ultimately show ?thesis using assms(1) by (auto simp: range_to_cidrs_def)
qed

theorem srs_ranges_exact_witness:
  "\<exists>ns. range_to_cidrs True (V4 0xC0000201) (V4 0xC0000206) = Some (Inr (map (cidr_text 32) ns)) \<and>
    exact_cover 32 0xC0000201 0xC0000206 ns"
proof -
  have "cidr_range (V4 0xC0000201) (V4 0xC0000206) = Inr (0xC0000201, 0xC0000206, 32)"
    by (simp add: cidr_range_def)
  from srs_ranges_exact [OF this, of True] show ?thesis by simp
qed

end
