(* ===== verification/Udp_Nat.thy ===== *)
theory Udp_Nat
  imports Net_Addr
begin

text \<open>
  The UDP NAT table of \<open>proxy/udp_nat.rs\<close>, which the TUN and transparent-proxy inbounds share: mapping
  keys, sessions with the remotes they have sent to, filtering of responses, expiry and eviction.
  A channel to the task of a session is a number, \<open>closed\<close> tells whether its receiver is gone. An
  operation reads the clock once.
\<close>

section \<open>Behaviours and keys\<close>

datatype nat_behavior = EndpointIndependent | AddressDependent | AddressAndPortDependent

definition parse_nat_behavior :: "string option \<Rightarrow> string \<Rightarrow> nat_behavior result" where
  "parse_nat_behavior v field =
    (let s = (case v of None \<Rightarrow> ''endpoint_independent'' | Some s \<Rightarrow> s) in
     if s = ''endpoint_independent'' then Inr EndpointIndependent
     else if s = ''address_dependent'' then Inr AddressDependent
     else if s = ''address_and_port_dependent'' then Inr AddressAndPortDependent
     else Inl (Bail (''unsupported UDP NAT '' @ field @ '': '' @ s)))"

datatype mapping_key =
    EndpointKey socket_addr
  | AddressKey socket_addr ip_addr
  | AddressAndPortKey socket_addr socket_addr

definition key_for :: "nat_behavior \<Rightarrow> socket_addr \<Rightarrow> socket_addr \<Rightarrow> mapping_key" where
  "key_for mapping source destination =
    (case mapping of
       EndpointIndependent \<Rightarrow> EndpointKey source
     | AddressDependent \<Rightarrow> AddressKey source (sock_ip destination)
     | AddressAndPortDependent \<Rightarrow> AddressAndPortKey source destination)"

section \<open>The table\<close>

record nat_session =
  ns_sender :: "nat option"
  ns_addresses :: "ip_addr list"
  ns_endpoints :: "socket_addr list"
  ns_last_used :: instant
  ns_generation :: u64

record nat_table =
  nt_filtering :: nat_behavior
  nt_max_sessions :: nat
  nt_idle_timeout :: duration
  nt_generation :: u64
  nt_sessions :: "(mapping_key, nat_session) hashmap"

definition nat_new :: "nat_behavior \<Rightarrow> nat \<Rightarrow> duration \<Rightarrow> nat_table" where
  "nat_new filtering limit timeout =
    \<lparr>nt_filtering = filtering, nt_max_sessions = limit, nt_idle_timeout = timeout,
     nt_generation = 0, nt_sessions = []\<rparr>"

definition nat_expire :: "instant \<Rightarrow> nat_table \<Rightarrow> nat_table" where
  "nat_expire now t =
    t\<lparr>nt_sessions := hm_retain (\<lambda>_ s. now - ns_last_used s < nt_idle_timeout t) (nt_sessions t)\<rparr>"

text \<open>\<open>min_by_key\<close> gives the first of the entries with the least generation.\<close>

fun min_generation :: "(mapping_key, nat_session) hashmap \<Rightarrow> (mapping_key \<times> u64) option" where
  "min_generation [] = None"
| "min_generation ((k, s) # es) =
    (case min_generation es of
       None \<Rightarrow> Some (k, ns_generation s)
     | Some (k', g) \<Rightarrow> if ns_generation s \<le> g then Some (k, ns_generation s) else Some (k', g))"

definition nat_evict_lru :: "nat_table \<Rightarrow> nat_table" where
  "nat_evict_lru t =
    (case min_generation (nt_sessions t) of
       None \<Rightarrow> t
     | Some (k, _) \<Rightarrow> t\<lparr>nt_sessions := hm_remove k (nt_sessions t)\<rparr>)"

definition reclaim_if_full :: "instant \<Rightarrow> nat_table \<Rightarrow> nat_table" where
  "reclaim_if_full now t =
    (if length (nt_sessions t) < nt_max_sessions t then t
     else
       (let t' = nat_expire now t in
        if length (nt_sessions t') = length (nt_sessions t) \<and>
           length (nt_sessions t') \<ge> nt_max_sessions t'
        then nat_evict_lru t' else t'))"

definition touch_session :: "instant \<Rightarrow> u64 \<Rightarrow> socket_addr \<Rightarrow> nat_session \<Rightarrow> nat_session" where
  "touch_session now generation destination s =
    s\<lparr>ns_last_used := now, ns_generation := generation,
      ns_addresses := List.insert (sock_ip destination) (ns_addresses s),
      ns_endpoints := List.insert destination (ns_endpoints s)\<rparr>"

definition touch_and_sender ::
    "(nat \<Rightarrow> bool) \<Rightarrow> instant \<Rightarrow> mapping_key \<Rightarrow> socket_addr \<Rightarrow> nat_table \<Rightarrow> nat_table \<times> nat option" where
  "touch_and_sender closed now key destination t0 =
    (let t = (if hm_contains (nt_sessions t0) key then t0 else reclaim_if_full now t0);
         generation = nt_generation t + 1;
         old = (case hm_get (nt_sessions t) key of
             Some s \<Rightarrow> s
           | None \<Rightarrow> \<lparr>ns_sender = None, ns_addresses = [], ns_endpoints = [], ns_last_used = now,
                      ns_generation = generation\<rparr>);
         session = touch_session now generation destination old
     in (t\<lparr>nt_generation := generation, nt_sessions := hm_insert key session (nt_sessions t)\<rparr>,
         (case ns_sender session of
            None \<Rightarrow> None
          | Some sender \<Rightarrow> if closed sender then None else Some sender)))"

definition insert_sender :: "mapping_key \<Rightarrow> nat \<Rightarrow> nat_table \<Rightarrow> nat_table" where
  "insert_sender key sender t =
    t\<lparr>nt_sessions := hm_modify key (\<lambda>s. s\<lparr>ns_sender := Some sender\<rparr>) (nt_sessions t)\<rparr>"

definition clear_sender :: "mapping_key \<Rightarrow> nat_table \<Rightarrow> nat_table" where
  "clear_sender key t =
    t\<lparr>nt_sessions := hm_modify key (\<lambda>s. s\<lparr>ns_sender := None\<rparr>) (nt_sessions t)\<rparr>"

definition response_allowed :: "nat_behavior \<Rightarrow> socket_addr \<Rightarrow> nat_session \<Rightarrow> bool" where
  "response_allowed filtering remote s =
    (case filtering of
       EndpointIndependent \<Rightarrow> True
     | AddressDependent \<Rightarrow> List.member (ns_addresses s) (sock_ip remote)
     | AddressAndPortDependent \<Rightarrow> List.member (ns_endpoints s) remote)"

definition allow_response :: "instant \<Rightarrow> mapping_key \<Rightarrow> socket_addr \<Rightarrow> nat_table \<Rightarrow> nat_table \<times> bool" where
  "allow_response now key remote t0 =
    (let t = nat_expire now t0 in
     case hm_get (nt_sessions t) key of
       None \<Rightarrow> (t, False)
     | Some s \<Rightarrow>
         if response_allowed (nt_filtering t) remote s then
           (let generation = nt_generation t + 1 in
            (t\<lparr>nt_generation := generation,
               nt_sessions := hm_modify key
                 (\<lambda>s. s\<lparr>ns_last_used := now, ns_generation := generation\<rparr>) (nt_sessions t)\<rparr>, True))
         else (t, False))"

section \<open>Histories\<close>

datatype nat_op =
    Touch "nat \<Rightarrow> bool" instant mapping_key socket_addr
  | SetSender mapping_key nat
  | ClearSender mapping_key
  | Response instant mapping_key socket_addr
  | Expire instant

fun nat_apply :: "nat_op \<Rightarrow> nat_table \<Rightarrow> nat_table" where
  "nat_apply (Touch closed now key destination) t = fst (touch_and_sender closed now key destination t)"
| "nat_apply (SetSender key sender) t = insert_sender key sender t"
| "nat_apply (ClearSender key) t = clear_sender key t"
| "nat_apply (Response now key remote) t = fst (allow_response now key remote t)"
| "nat_apply (Expire now) t = nat_expire now t"

text \<open>What a history sent for a key, and when it used the key: by sending or by an answer.\<close>

definition nat_sent :: "nat_op list \<Rightarrow> mapping_key \<Rightarrow> socket_addr set" where
  "nat_sent ops key = {d. \<exists>closed now. Touch closed now key d \<in> set ops}"

definition nat_used :: "nat_op list \<Rightarrow> mapping_key \<Rightarrow> instant set" where
  "nat_used ops key = {now. (\<exists>closed d. Touch closed now key d \<in> set ops) \<or>
    (\<exists>remote. Response now key remote \<in> set ops)}"

definition nat_run :: "nat_op list \<Rightarrow> nat_table \<Rightarrow> nat_table" where
  "nat_run ops t = fold nat_apply ops t"

definition session_from :: "nat_op list \<Rightarrow> mapping_key \<Rightarrow> nat_session \<Rightarrow> bool" where
  "session_from ops key s \<longleftrightarrow> set (ns_endpoints s) \<subseteq> nat_sent ops key \<and>
    set (ns_addresses s) \<subseteq> sock_ip ` nat_sent ops key \<and> ns_last_used s \<in> nat_used ops key"

definition nat_inv :: "nat_op list \<Rightarrow> nat_table \<Rightarrow> bool" where
  "nat_inv ops t \<longleftrightarrow> hm_ok (nt_sessions t) \<and> length (nt_sessions t) \<le> max 1 (nt_max_sessions t) \<and>
    (\<forall>k s. hm_get (nt_sessions t) k = Some s \<longrightarrow> session_from ops k s)"

definition same_table :: "nat_table \<Rightarrow> nat_table \<Rightarrow> bool" where
  "same_table t t' \<longleftrightarrow> nt_filtering t' = nt_filtering t \<and> nt_max_sessions t' = nt_max_sessions t \<and>
    nt_idle_timeout t' = nt_idle_timeout t"

lemma session_from_mono: "session_from ops k s \<Longrightarrow> session_from (ops @ later) k s"
  unfolding session_from_def nat_sent_def nat_used_def by fastforce

lemma min_generation_in: "min_generation es = Some (k, g) \<Longrightarrow> k \<in> fst ` set es"
  by (induction es arbitrary: k g rule: min_generation.induct) (auto split: option.splits if_splits)

lemma min_generation_None: "min_generation es = None \<longleftrightarrow> es = []"
  by (induction es rule: min_generation.induct) (auto split: option.splits)

text \<open>Making room only removes sessions, and leaves room for one.\<close>

lemma nat_expire_get:
  "hm_ok (nt_sessions t) \<Longrightarrow> hm_get (nt_sessions (nat_expire now t)) k = Some s \<Longrightarrow>
    hm_get (nt_sessions t) k = Some s \<and> now - ns_last_used s < nt_idle_timeout t"
  by (auto simp: nat_expire_def hm_get_retain split: option.splits if_splits)

lemma nat_evict_get:
  "hm_get (nt_sessions (nat_evict_lru t)) k = Some s \<Longrightarrow> hm_get (nt_sessions t) k = Some s"
  by (auto simp: nat_evict_lru_def hm_simps split: option.splits if_splits)

lemma nat_evict_length:
  assumes "hm_ok (nt_sessions t)"
  shows "length (nt_sessions (nat_evict_lru t)) = length (nt_sessions t) - 1"
proof (cases "min_generation (nt_sessions t)")
  case None
  then show ?thesis by (simp add: nat_evict_lru_def min_generation_None)
next
  case (Some kg)
  then obtain k g where kg: "min_generation (nt_sessions t) = Some (k, g)" by (cases kg) auto
  then have "hm_contains (nt_sessions t) k" using min_generation_in by (simp add: hm_contains_iff)
  with kg assms show ?thesis by (simp add: nat_evict_lru_def hm_simps)
qed

lemma shrink_inv:
  assumes "nat_inv ops t" and "hm_ok (nt_sessions t')" and "nt_max_sessions t' = nt_max_sessions t"
    and "length (nt_sessions t') \<le> length (nt_sessions t)"
    and "\<And>k s. hm_get (nt_sessions t') k = Some s \<Longrightarrow> hm_get (nt_sessions t) k = Some s"
  shows "nat_inv ops t'"
proof -
  have "length (nt_sessions t') \<le> max 1 (nt_max_sessions t')"
    using assms(1,3,4) unfolding nat_inv_def by linarith
  moreover have "session_from ops k s" if "hm_get (nt_sessions t') k = Some s" for k s
    using assms(1) assms(5) [OF that] unfolding nat_inv_def by blast
  ultimately show ?thesis using assms(2) unfolding nat_inv_def by blast
qed

lemma reclaim_ok:
  assumes inv: "nat_inv ops t"
  shows "nat_inv ops (reclaim_if_full now t) \<and> same_table t (reclaim_if_full now t) \<and>
    length (nt_sessions (reclaim_if_full now t)) < max 1 (nt_max_sessions t)"
proof -
  let ?e = "nat_expire now t"
  have ok: "hm_ok (nt_sessions t)" "hm_ok (nt_sessions ?e)"
    using inv by (simp_all add: nat_inv_def nat_expire_def)
  have le: "length (nt_sessions ?e) \<le> length (nt_sessions t)"
    by (simp add: nat_expire_def length_hm_retain_le)
  have same: "same_table t ?e" "same_table ?e (nat_evict_lru ?e)"
    by (auto simp: same_table_def nat_expire_def nat_evict_lru_def split: option.splits)
  have room: "length (nt_sessions (reclaim_if_full now t)) < max 1 (nt_max_sessions t)"
  proof -
    have "length (nt_sessions t) \<le> max 1 (nt_max_sessions t)" using inv by (simp add: nat_inv_def)
    with le nat_evict_length [OF ok(2)] same show ?thesis
      by (auto simp: reclaim_if_full_def same_table_def Let_def)
  qed
  have "reclaim_if_full now t \<in> {t, ?e, nat_evict_lru ?e}" by (simp add: reclaim_if_full_def Let_def)
  then have "hm_get (nt_sessions t) k = Some s" if "hm_get (nt_sessions (reclaim_if_full now t)) k = Some s" for k s
    using that nat_expire_get [OF ok(1), of now k s] nat_evict_get [of ?e k s] by auto
  moreover have "hm_ok (nt_sessions (reclaim_if_full now t))"
    using ok by (auto simp: reclaim_if_full_def nat_evict_lru_def Let_def split: option.splits)
  moreover have tab: "same_table t (reclaim_if_full now t)"
    using same by (auto simp: reclaim_if_full_def same_table_def Let_def)
  moreover have "length (nt_sessions (reclaim_if_full now t)) \<le> length (nt_sessions t)"
    using le nat_evict_length [OF ok(2)] by (simp add: reclaim_if_full_def Let_def)
  ultimately have "nat_inv ops (reclaim_if_full now t)"
    by (intro shrink_inv [OF inv]) (simp_all add: same_table_def)
  with tab room show ?thesis by blast
qed

lemma nat_inv_mono: "nat_inv ops t \<Longrightarrow> nat_inv (ops @ later) t"
  by (auto simp: nat_inv_def intro: session_from_mono)

text \<open>Every operation keeps the invariant, with itself added to the history.\<close>

lemma touch_inv:
  assumes inv: "nat_inv ops t"
  shows "nat_inv (ops @ [Touch closed now key d]) (fst (touch_and_sender closed now key d t)) \<and>
    same_table t (fst (touch_and_sender closed now key d t))"
proof -
  let ?ops = "ops @ [Touch closed now key d]"
  define u where "u = (if hm_contains (nt_sessions t) key then t else reclaim_if_full now t)"
  have u: "nat_inv ops u" "same_table t u"
      "hm_contains (nt_sessions u) key \<or> length (nt_sessions u) < max 1 (nt_max_sessions u)"
    using inv reclaim_ok [OF inv, of now] by (auto simp: u_def same_table_def)
  obtain s where s: "fst (touch_and_sender closed now key d t) =
      u\<lparr>nt_generation := nt_generation u + 1,
        nt_sessions := hm_insert key (touch_session now (nt_generation u + 1) d s) (nt_sessions u)\<rparr>"
    and old: "hm_get (nt_sessions u) key = Some s \<or> ns_addresses s = [] \<and> ns_endpoints s = []"
    by (cases "hm_get (nt_sessions u) key") (auto simp: touch_and_sender_def Let_def simp flip: u_def)
  have new: "d \<in> nat_sent ?ops key" "now \<in> nat_used ?ops key" by (auto simp: nat_sent_def nat_used_def)
  have "set (ns_endpoints s) \<subseteq> nat_sent ?ops key \<and> set (ns_addresses s) \<subseteq> sock_ip ` nat_sent ?ops key"
    using old nat_inv_mono [OF u(1), of "[Touch closed now key d]"] by (auto simp: nat_inv_def session_from_def)
  with new have "session_from ?ops key (touch_session now g d s)" for g
    by (auto simp: session_from_def touch_session_def)
  with nat_inv_mono [OF u(1), of "[Touch closed now key d]"] u(2,3) show ?thesis
    by (auto simp: s nat_inv_def same_table_def hm_simps)
qed

lemma modify_inv:
  assumes "nat_inv ops t"
    and "\<And>s. hm_get (nt_sessions t) key = Some s \<Longrightarrow> session_from ops key (f s)"
  shows "nat_inv ops (t\<lparr>nt_sessions := hm_modify key f (nt_sessions t)\<rparr>)"
  using assms by (auto simp: nat_inv_def hm_simps split: if_splits)

lemma expire_inv:
  assumes "nat_inv ops t"
  shows "nat_inv ops (nat_expire now t) \<and> same_table t (nat_expire now t)"
proof -
  have ok: "hm_ok (nt_sessions t)" using assms by (simp add: nat_inv_def)
  have "nat_inv ops (nat_expire now t)"
  proof (rule shrink_inv [OF assms])
    show "hm_get (nt_sessions t) k = Some s" if "hm_get (nt_sessions (nat_expire now t)) k = Some s" for k s
      using nat_expire_get [OF ok that] by blast
  qed (use ok in \<open>simp_all add: nat_expire_def length_hm_retain_le\<close>)
  then show ?thesis by (simp add: same_table_def nat_expire_def)
qed

lemma response_inv:
  assumes inv: "nat_inv ops t"
  shows "nat_inv (ops @ [Response now key remote]) (fst (allow_response now key remote t)) \<and>
    same_table t (fst (allow_response now key remote t))"
proof -
  let ?ops = "ops @ [Response now key remote]" and ?e = "nat_expire now t"
  have e: "nat_inv ?ops ?e" "same_table t ?e" using expire_inv [OF nat_inv_mono [OF inv]] by blast+
  have "now \<in> nat_used ?ops key" by (auto simp: nat_used_def)
  then have "nat_inv ?ops (?e\<lparr>nt_sessions := hm_modify key
      (\<lambda>s. s\<lparr>ns_last_used := now, ns_generation := g\<rparr>) (nt_sessions ?e)\<rparr>)" for g
    using e(1) by (intro modify_inv) (auto simp: nat_inv_def session_from_def)
  with e show ?thesis
    by (auto simp: allow_response_def nat_inv_def same_table_def Let_def split: option.splits)
qed

lemma nat_apply_inv:
  assumes "nat_inv ops t"
  shows "nat_inv (ops @ [op]) (nat_apply op t) \<and> same_table t (nat_apply op t)"
proof (cases op)
  case (SetSender key sender)
  have "nat_inv (ops @ [op]) (insert_sender key sender t)"
    unfolding insert_sender_def using nat_inv_mono [OF assms, of "[op]"]
    by (intro modify_inv) (auto simp: nat_inv_def session_from_def)
  then show ?thesis by (simp add: SetSender same_table_def insert_sender_def)
next
  case (ClearSender key)
  have "nat_inv (ops @ [op]) (clear_sender key t)"
    unfolding clear_sender_def using nat_inv_mono [OF assms, of "[op]"]
    by (intro modify_inv) (auto simp: nat_inv_def session_from_def)
  then show ?thesis by (simp add: ClearSender same_table_def clear_sender_def)
next
  case (Touch closed now key d)
  then show ?thesis using touch_inv [OF assms] by simp
next
  case (Response now key remote)
  then show ?thesis using response_inv [OF assms] by simp
next
  case (Expire now)
  then show ?thesis using expire_inv [OF nat_inv_mono [OF assms]] by simp
qed

lemma nat_run_inv:
  "nat_inv ops (nat_run ops (nat_new filtering limit timeout)) \<and>
    same_table (nat_new filtering limit timeout) (nat_run ops (nat_new filtering limit timeout))"
proof (induction ops rule: rev_induct)
  case Nil
  then show ?case by (simp add: nat_run_def nat_new_def nat_inv_def same_table_def)
next
  case (snoc op ops)
  let ?t = "nat_run ops (nat_new filtering limit timeout)"
  have "nat_run (ops @ [op]) (nat_new filtering limit timeout) = nat_apply op ?t" by (simp add: nat_run_def)
  with snoc nat_apply_inv [of ops ?t op] show ?case by (simp add: same_table_def)
qed

section \<open>What the table promises\<close>



end
