(* ===== verification/Sniff.thy ===== *)
theory Sniff
  imports Ip_Text Routing
begin

unbundle bit_operations_syntax

text \<open>
  Protocol sniffing of \<open>proxy/route.rs\<close>: what the first bytes of a connection or a datagram say about
  its protocol, the server name of a TLS client hello, the name of a DNS question and the headers of
  an HTTP request. An index out of range is a panic of the model; \<open>?\<close> on an option ends with \<open>None\<close>.
\<close>

section \<open>Text\<close>

text \<open>
  \<open>from_utf8_lossy\<close>: a maximal invalid prefix of a sequence becomes the replacement character.
\<close>

definition invalid_width :: "bytes \<Rightarrow> nat" where
  "invalid_width bs =
    (case bs of
       [] \<Rightarrow> 0
     | b # cs \<Rightarrow>
         (let n = utf8_width b in
          if n \<ge> 2 \<and> cs \<noteq> [] \<and> utf8_tail_ok b (take 1 cs) then
            (if n = 4 \<and> length cs \<ge> 2 \<and> cont_byte (cs ! 1) then 3 else if n \<ge> 3 then 2 else 1)
          else 1))"

function lossy :: "bytes \<Rightarrow> string" where
  "lossy [] = []"
| "lossy (b # bs) =
    (case utf8_len (b # bs) of
       Some n \<Rightarrow> map char_of_byte (take n (b # bs)) @ lossy (drop n (b # bs))
     | None \<Rightarrow> map char_of_byte [0xEF, 0xBF, 0xBD] @ lossy (drop (invalid_width (b # bs)) (b # bs)))"
  by pat_completeness auto
termination
  by (relation "measure length")
    (auto dest: utf8_len_bounds simp: invalid_width_def Let_def split: if_splits)

text \<open>\<open>lines\<close>: a line ends with a line feed, and a carriage return before it is dropped too.\<close>

fun lines_from :: "string \<Rightarrow> string \<Rightarrow> string list" where
  "lines_from cur [] = (if cur = [] then [] else [rev cur])"
| "lines_from cur (c # s) =
    (if c = CHR 0x0A then
       rev (case cur of d # ds \<Rightarrow> if d = CHR 0x0D then ds else cur | [] \<Rightarrow> []) # lines_from [] s
     else lines_from (c # cur) s)"

definition lines :: "string \<Rightarrow> string list" where
  "lines s = lines_from [] s"

function trim_start :: "string \<Rightarrow> string" where
  "trim_start s = (if whitespace_width s = 0 \<or> s = [] then s else trim_start (drop (whitespace_width s) s))"
  by pat_completeness auto
termination by (relation "measure length") auto

declare trim_start.simps [simp del]

definition last_whitespace :: "string \<Rightarrow> nat" where
  "last_whitespace s =
    (case find (\<lambda>n. n \<le> length s \<and> whitespace_width (drop (length s - n) s) = n) [1, 2, 3] of
       None \<Rightarrow> 0 | Some n \<Rightarrow> n)"

function trim_end :: "string \<Rightarrow> string" where
  "trim_end s =
    (if last_whitespace s = 0 \<or> s = [] then s else trim_end (take (length s - last_whitespace s) s))"
  by pat_completeness auto
termination by (relation "measure length") auto

declare trim_end.simps [simp del]

definition trim :: "string \<Rightarrow> string" where
  "trim s = trim_end (trim_start s)"

definition trim_chars :: "char list \<Rightarrow> string \<Rightarrow> string" where
  "trim_chars cs s =
    rev (dropWhile (\<lambda>c. c \<in> set cs) (rev (dropWhile (\<lambda>c. c \<in> set cs) s)))"

section \<open>Names\<close>

text \<open>The \<open>?\<close> operator on an option inside a function that returns an option.\<close>

definition try_opt :: "'a option \<Rightarrow> ('a \<Rightarrow> 'b option result) \<Rightarrow> 'b option result" where
  "try_opt m f = (case m of None \<Rightarrow> Inr None | Some x \<Rightarrow> f x)"

lemma try_opt_simps [simp]: "try_opt None f = Inr None" "try_opt (Some x) f = f x"
  by (simp_all add: try_opt_def)

lemma try_opt_cong [fundef_cong]:
  "m = m' \<Longrightarrow> (\<And>x. m' = Some x \<Longrightarrow> f x = g x) \<Longrightarrow> try_opt m f = try_opt m' g"
  by (cases m') auto

lemma no_panic_try_opt [panic_free]: "(\<And>x. m = Some x \<Longrightarrow> no_panic (f x)) \<Longrightarrow> no_panic (try_opt m f)"
  by (cases m) auto

definition utf8_ok :: "bytes \<Rightarrow> string option" where
  "utf8_ok bs = (case from_utf8 bs of Inl _ \<Rightarrow> None | Inr s \<Rightarrow> Some s)"

definition dns_payload :: "bool \<Rightarrow> bytes \<Rightarrow> bytes option" where
  "dns_payload tcp data =
    (if \<not> tcp then Some data
     else (case get_range data 0 2 of
         None \<Rightarrow> None
       | Some v \<Rightarrow> get_range data 2 (2 + be_val v)))"

definition is_dns_message :: "bytes \<Rightarrow> bool \<Rightarrow> bool result" where
  "is_dns_message data0 tcp =
    (case dns_payload tcp data0 of
       None \<Rightarrow> Inr False
     | Some data \<Rightarrow>
         if length data < 12 then Inr False
         else bindr (index data 2) (\<lambda>flags.
              if flags AND 0x80 \<noteq> 0 then Inr False
              else bindr (index data 4) (\<lambda>a. bindr (index data 5) (\<lambda>b. Inr (be_val [a, b] > 0)))))"

function question_labels :: "bytes \<Rightarrow> nat \<Rightarrow> string list option" where
  "question_labels data position =
    (case get data position of
       None \<Rightarrow> None
     | Some b \<Rightarrow>
         (let n = unat b in
          if n = 0 then Some []
          else if n > 63 then None
          else (case get_range data (position + 1) (position + 1 + n) of
              None \<Rightarrow> None
            | Some label \<Rightarrow>
                (case utf8_ok label of
                   None \<Rightarrow> None
                 | Some l \<Rightarrow> map_option (\<lambda>ls. l # ls) (question_labels data (position + 1 + n))))))"
  by pat_completeness auto
termination
  by (relation "measure (\<lambda>(data, position). length data - position)") (auto simp: get_Some_iff)

declare question_labels.simps [simp del]

definition dns_question_name :: "bytes \<Rightarrow> bool \<Rightarrow> string option" where
  "dns_question_name data0 tcp =
    (case (if tcp then get_range data0 2 (length data0) else Some data0) of
       None \<Rightarrow> None
     | Some data \<Rightarrow> map_option (\<lambda>ls. to_ascii_lowercase (join ''.'' ls)) (question_labels data 12))"

text \<open>The extensions of a client hello, from \<open>position\<close> to \<open>stop\<close>.\<close>

function sni_loop :: "bytes \<Rightarrow> nat \<Rightarrow> nat \<Rightarrow> string option result" where
  "sni_loop hs position stop =
    (if position + 4 \<le> stop then
       bindr (index hs position) (\<lambda>k1. bindr (index hs (position + 1)) (\<lambda>k2.
       bindr (index hs (position + 2)) (\<lambda>l1. bindr (index hs (position + 3)) (\<lambda>l2.
       let kind = be_val [k1, k2]; len = be_val [l1, l2]; p = position + 4 in
       try_opt (get_range hs p (p + len)) (\<lambda>extension.
       if kind = 0 \<and> length extension \<ge> 5 then
         bindr (index extension 3) (\<lambda>n1. bindr (index extension 4) (\<lambda>n2.
         try_opt (get_range extension 5 (5 + be_val [n1, n2])) (\<lambda>name.
         try_opt (utf8_ok name) (\<lambda>s. Inr (Some (to_ascii_lowercase s))))))
       else sni_loop hs (p + len) stop)))))
     else Inr None)"
  by pat_completeness auto
termination by (relation "measure (\<lambda>(hs, position, stop). stop - position)") auto

declare sni_loop.simps [simp del]

definition tls_server_name :: "bytes \<Rightarrow> string option result" where
  "tls_server_name data =
    (if length data < 5 then Inr None
     else
       bindr (index data 3) (\<lambda>r1. bindr (index data 4) (\<lambda>r2.
       try_opt (get_range data 5 (5 + be_val [r1, r2])) (\<lambda>hs.
       if get hs 0 \<noteq> Some 1 \<or> length hs < 42 then Inr None
       else
         (let p0 = 4 + 2 + 32 in
          try_opt (get hs p0) (\<lambda>session. let p1 = p0 + 1 + unat session in
          try_opt (get hs p1) (\<lambda>s1. try_opt (get hs (p1 + 1)) (\<lambda>s2.
          let p2 = p1 + 2 + be_val [s1, s2] in
          try_opt (get hs p2) (\<lambda>compression. let p3 = p2 + 1 + unat compression in
          try_opt (get hs p3) (\<lambda>e1. try_opt (get hs (p3 + 1)) (\<lambda>e2.
          let p4 = p3 + 2 in sni_loop hs p4 (min (p4 + be_val [e1, e2]) (length hs)))))))))))))"

section \<open>Sniffing\<close>

record sniff_result =
  sn_protocol :: string
  sn_domain :: "string option"
  sn_client :: "string option"

definition http_host :: "string \<Rightarrow> string option" where
  "http_host line =
    (case split_once CHR '':'' line of
       None \<Rightarrow> None
     | Some (name, v) \<Rightarrow>
         if eq_ignore_ascii_case name ''host''
         then Some (hd (split_on CHR '':'' (trim_chars [CHR ''['', CHR '']''] (trim v))))
         else None)"

definition http_agent :: "string \<Rightarrow> string option" where
  "http_agent line =
    (case split_once CHR '':'' line of
       None \<Rightarrow> None
     | Some (name, v) \<Rightarrow> if eq_ignore_ascii_case name ''user-agent'' then Some (trim v) else None)"

definition bytes_start :: "bytes \<Rightarrow> bytes \<Rightarrow> bool" where
  "bytes_start data p \<longleftrightarrow> take (length p) data = p"

definition plain_sniff :: "string \<Rightarrow> sniff_result" where
  "plain_sniff protocol = \<lparr>sn_protocol = protocol, sn_domain = None, sn_client = None\<rparr>"

definition http_methods :: "string list" where
  "http_methods = [''GET '', ''POST'', ''HEAD'', ''PUT '', ''OPTI'', ''CONN'', ''DELE'', ''PATC'']"

definition sniff_http :: "bytes \<Rightarrow> sniff_result" where
  "sniff_http data =
    (let text = lines (lossy data) in
     \<lparr>sn_protocol = ''http'', sn_domain = find_map http_host text,
      sn_client = find_map http_agent text\<rparr>)"

text \<open>The checks of a stream and of a datagram, in the order of the code.\<close>

definition sniff_payload :: "bytes \<Rightarrow> bool \<Rightarrow> string list \<Rightarrow> sniff_result option result" where
  "sniff_payload data udp wanted =
    (let enabled = (\<lambda>name. wanted = [] \<or> name \<in> set wanted) in
     if \<not> udp \<and> enabled ''tls'' \<and> bytes_start data [0x16, 0x03] then
       bindr (tls_server_name data) (\<lambda>name.
       Inr (Some \<lparr>sn_protocol = ''tls'', sn_domain = name, sn_client = None\<rparr>))
     else if \<not> udp \<and> enabled ''http'' \<and> list_ex (\<lambda>m. bytes_start data (as_bytes m)) http_methods then
       Inr (Some (sniff_http data))
     else if \<not> udp \<and> enabled ''ssh'' \<and> bytes_start data (as_bytes ''SSH-'') then
       Inr (Some \<lparr>sn_protocol = ''ssh'', sn_domain = None, sn_client = get (lines (lossy data)) 0\<rparr>)
     else if \<not> udp \<and> enabled ''rdp'' \<and> length data \<ge> 7 \<and> bytes_start data [3, 0] \<and> data ! 5 = 0xe0 then
       Inr (Some (plain_sniff ''rdp''))
     else
       bindr (if enabled ''dns'' then is_dns_message data (\<not> udp) else Inr False) (\<lambda>dns.
       Inr (
         if dns then
           Some \<lparr>sn_protocol = ''dns'', sn_domain = dns_question_name data (\<not> udp), sn_client = None\<rparr>
         else if udp \<and> enabled ''stun'' \<and> get_range data 4 8 = Some [0x21, 0x12, 0xa4, 0x42] then
           Some (plain_sniff ''stun'')
         else if udp \<and> enabled ''quic'' \<and> data \<noteq> [] \<and> data ! 0 AND 0x80 \<noteq> 0 then
           Some (plain_sniff ''quic'')
         else if udp \<and> enabled ''dtls'' \<and> length data \<ge> 13 \<and> 20 \<le> data ! 0 \<and> data ! 0 \<le> 64 \<and>
                 data ! 1 = 0xfe \<and> (data ! 2 = 0xfd \<or> data ! 2 = 0xff) then
           Some (plain_sniff ''dtls'')
         else if udp \<and> enabled ''ntp'' \<and> length data \<ge> 48 \<and> 1 \<le> data ! 0 AND 0x07 \<and>
                 data ! 0 AND 0x07 \<le> 5 \<and> drop_bit 6 (data ! 0) \<noteq> 3 then
           Some (plain_sniff ''ntp'')
         else if udp \<and> enabled ''utp'' \<and> length data \<ge> 20 \<and> data ! 0 AND 0x0f = 1 \<and>
                 drop_bit 4 (data ! 0) \<le> 4 then
           Some (plain_sniff ''utp'')
         else if udp \<and> enabled ''udp_tracker'' \<and> length data \<ge> 16 \<and>
                 bytes_start data [0, 0, 4, 23, 39, 16, 25, 128] then
           Some (plain_sniff ''udp_tracker'')
         else if \<not> udp \<and> enabled ''bittorrent'' \<and>
                 bytes_start data (0x13 # as_bytes ''BitTorrent protocol'') then
           Some (plain_sniff ''bittorrent'')
         else None)))"

section \<open>Sniffing never panics\<close>

lemma no_panic_is_dns_message [panic_free]: "no_panic (is_dns_message data tcp)"
  by (auto simp: is_dns_message_def split: option.splits)

lemma no_panic_sni_loop [panic_free]: "stop \<le> length hs \<Longrightarrow> no_panic (sni_loop hs position stop)"
proof (induction hs position stop rule: sni_loop.induct)
  case (1 hs position stop)
  note rec = "1.IH"
  show ?case
  proof (cases "position + 4 \<le> stop")
    case True
    with "1.prems" show ?thesis
      by (subst sni_loop.simps, simp only: if_True Let_def, intro panic_free)
        (auto intro: rec [OF True])
  qed (subst sni_loop.simps, simp)
qed

lemma no_panic_tls_server_name [panic_free]: "no_panic (tls_server_name data)"
  unfolding tls_server_name_def Let_def by (intro panic_free) auto

lemma sniff_payload_total: "no_panic (sniff_payload data udp wanted)"
  unfolding sniff_payload_def Let_def by (intro panic_free) (auto intro: panic_free)

text \<open>A bracketed IPv6 literal in a \<open>Host\<close> header is cut at its first colon.\<close>

lemma host_of_ipv6_literal: "http_host ''Host: [2001:db8::1]:443'' = Some ''2001''"
  by code_simp

section \<open>The server name of a client hello\<close>

text \<open>A client hello as RFC 8446 writes it; an extension is its kind and its body.\<close>

definition tls_extension :: "nat \<times> bytes \<Rightarrow> bytes" where
  "tls_extension e = be_bytes 2 (fst e) @ be_bytes 2 (length (snd e)) @ snd e"

definition sni_body :: "string \<Rightarrow> bytes" where
  "sni_body name = be_bytes 2 (length name + 3) @ [0] @ be_bytes 2 (length name) @ as_bytes name"

definition hello_head :: "bytes \<Rightarrow> bytes \<Rightarrow> bytes \<Rightarrow> bytes" where
  "hello_head session suites compression =
    word_of_nat (length session) # session @ be_bytes 2 (length suites) @ suites @
    word_of_nat (length compression) # compression"

definition client_hello :: "bytes \<Rightarrow> bytes \<Rightarrow> bytes \<Rightarrow> bytes \<Rightarrow> bytes \<Rightarrow> bytes" where
  "client_hello opening session suites compression extensions =
    (let body = opening @ hello_head session suites compression @
                be_bytes 2 (length extensions) @ extensions
     in 1 # be_bytes 3 (length body) @ body)"

definition tls_record :: "u8 \<Rightarrow> bytes \<Rightarrow> bytes" where
  "tls_record version body = [0x16, 3, version] @ be_bytes 2 (length body) @ body"

lemma be16E:
  assumes "n < 65536"
  obtains a b where "be_bytes 2 n = [a, b]" and "be_val [a, b] = n"
proof -
  obtain a b where ab: "be_bytes 2 n = [a, b]"
    using length_be_bytes [of 2 n] by (auto simp: numeral_2_eq_2 length_Suc_conv simp del: length_be_bytes)
  with be_val_be_bytes [of 2 n] assms that show ?thesis by simp
qed

lemma sni_skip:
  assumes hs: "hs = pre @ tls_extension e @ post" and e: "fst e < 65536" "length (snd e) < 65536"
    and other: "fst e \<noteq> 0 \<or> length (snd e) < 5" and stop: "length pre + length (tls_extension e) \<le> stop"
  shows "sni_loop hs (length pre) stop = sni_loop hs (length (pre @ tls_extension e)) stop"
proof -
  obtain a b where ab: "be_bytes 2 (fst e) = [a, b]" "be_val [a, b] = fst e" using be16E [OF e(1)] .
  obtain c d where cd: "be_bytes 2 (length (snd e)) = [c, d]" "be_val [c, d] = length (snd e)" using be16E [OF e(2)] .
  have hs': "hs = pre @ [a, b, c, d] @ snd e @ post" by (simp add: hs tls_extension_def ab cd)
  have len: "length (tls_extension e) = 4 + length (snd e)" by (simp add: tls_extension_def)
  have at: "hs ! length pre = a" "hs ! (length pre + 1) = b" "hs ! (length pre + 2) = c"
      "hs ! (length pre + 3) = d" by (simp_all add: hs' nth_append)
  note at = at at [simplified]
  have inside: "length pre + 4 \<le> length hs" by (simp add: hs')
  have body: "get_range hs (length pre + 4) (length pre + 4 + length (snd e)) = Some (snd e)"
    using get_range_field [of "length pre + 4" "pre @ [a, b, c, d]" _ "snd e" post] by (simp add: hs')
  show ?thesis
    using stop other inside
    by (subst sni_loop.simps) (auto simp: Let_def at ab(2) cd(2) body body [unfolded add.assoc] len add.assoc index_def)
qed

lemma sni_hit:
  assumes hs: "hs = pre @ tls_extension (0, sni_body name) @ post" and name: "utf8_string name" "length name < 65531"
    and stop: "length pre + length (tls_extension (0, sni_body name)) \<le> stop"
  shows "sni_loop hs (length pre) stop = Inr (Some (to_ascii_lowercase name))"
proof -
  let ?body = "sni_body name"
  have blen: "length ?body = length name + 5" by (simp add: sni_body_def)
  obtain a b where ab: "be_bytes 2 0 = [a, b]" "be_val [a, b] = 0" using be16E [of 0] by auto
  obtain c d where cd: "be_bytes 2 (length ?body) = [c, d]" "be_val [c, d] = length ?body"
    using be16E [of "length ?body"] name(2) blen by auto
  obtain g h where gh: "be_bytes 2 (length name) = [g, h]" "be_val [g, h] = length name"
    using be16E [of "length name"] name(2) by auto
  have small: "length name + 3 < 65536" using name(2) by simp
  obtain i j where ij: "be_bytes 2 (length name + 3) = [i, j]" "be_val [i, j] = length name + 3"
    using be16E [OF small] .
  have hs': "hs = pre @ [a, b, c, d] @ ?body @ post" by (simp add: hs tls_extension_def ab cd)
  have len: "length (tls_extension (0, ?body)) = 4 + length ?body" by (simp add: tls_extension_def)
  have at: "hs ! length pre = a" "hs ! (length pre + 1) = b" "hs ! (length pre + 2) = c"
      "hs ! (length pre + 3) = d" by (simp_all add: hs' nth_append)
  note at = at at [simplified]
  have inside: "length pre + 4 \<le> length hs" by (simp add: hs')
  have body: "get_range hs (length pre + 4) (length pre + 4 + length ?body) = Some ?body"
    using get_range_field [of "length pre + 4" "pre @ [a, b, c, d]" _ ?body post] by (simp add: hs')
  have body': "get_range hs (length pre + 4) (length pre + (9 + length name)) = Some ?body"
    using body by (simp add: blen ac_simps)
  have b': "?body = [i, j, 0, g, h] @ as_bytes name" by (simp add: sni_body_def ij gh)
  have nm: "get_range ?body 5 (5 + length name) = Some (as_bytes name)"
    using get_range_field [of 5 "[i, j, 0, g, h]" _ "as_bytes name" "[]"] by (simp add: b')
  have n34: "?body ! 3 = g" "?body ! 4 = h" by (simp_all add: b')
  show ?thesis
    using stop inside name(1)
    by (subst sni_loop.simps)
      (simp add: Let_def at ab(2) cd(2) body' len blen add.assoc index_def n34 gh(2) nm utf8_ok_def)
qed

lemma sni_found:
  assumes "\<And>e. e \<in> set es \<Longrightarrow> fst e \<noteq> 0 \<and> fst e < 65536 \<and> length (snd e) < 65536"
    and "hs = pre @ concat (map tls_extension es) @ tls_extension (0, sni_body name) @ post"
    and "utf8_string name" and "length name < 65531"
    and "length pre + length (concat (map tls_extension es)) + length (tls_extension (0, sni_body name)) \<le> stop"
  shows "sni_loop hs (length pre) stop = Inr (Some (to_ascii_lowercase name))"
  using assms
proof (induction es arbitrary: pre)
  case Nil
  then show ?case by (intro sni_hit [of hs pre name post]) auto
next
  case (Cons e es)
  have "sni_loop hs (length pre) stop = sni_loop hs (length (pre @ tls_extension e)) stop"
    by (rule sni_skip) (use Cons.prems in auto)
  with Cons.IH [of "pre @ tls_extension e"] Cons.prems show ?case by simp
qed

lemma get_at: "hs = xs @ y # ys \<Longrightarrow> n = length xs \<Longrightarrow> get hs n = Some y"
  by (simp add: get_def)

lemma tls_server_name_hello:
  assumes "length opening = 34" and "length session < 256" and "length compression < 256"
    and "length suites < 65536" and "length extensions < 65536"
    and hs: "hs = client_hello opening session suites compression extensions" and "length hs < 65536"
  shows "tls_server_name (tls_record version hs @ rest) =
    sni_loop hs (length hs - length extensions) (length hs)"
proof -
  obtain a b where ab: "be_bytes 2 (length suites) = [a, b]" "be_val [a, b] = length suites" using be16E [OF assms(4)] .
  obtain c d where cd: "be_bytes 2 (length extensions) = [c, d]" "be_val [c, d] = length extensions" using be16E [OF assms(5)] .
  obtain g h where gh: "be_bytes 2 (length hs) = [g, h]" "be_val [g, h] = length hs" using be16E [OF assms(7)] .
  define n where "n = length (opening @ hello_head session suites compression @ [c, d] @ extensions)"
  define start where "start = be_bytes 3 n @ opening"
  have start: "length start = 37" by (simp add: start_def assms(1))
  have sl: "unat (word_of_nat (length session) :: u8) = length session"
      "unat (word_of_nat (length compression) :: u8) = length compression"
    using assms by (simp_all add: unat_of_nat)
  have hs': "hs = 1 # start @ word_of_nat (length session) # session @ [a, b] @ suites @
      word_of_nat (length compression) # compression @ [c, d] @ extensions"
    unfolding hs start_def n_def client_hello_def Let_def cd by (simp add: hello_head_def ab)
  let ?data = "tls_record version hs @ rest"
  have data: "?data = [0x16, 3, version, g, h] @ hs @ rest" by (simp add: tls_record_def gh)
  have rec: "get_range ?data 5 (5 + length hs) = Some hs"
    using get_range_field [of 5 "[0x16, 3, version, g, h]" _ hs rest] by (simp add: data)
  have len: "length hs = 38 + 1 + length session + 2 + length suites + 1 + length compression + 2 + length extensions"
    by (simp add: hs' start)
  let ?p1 = "38 + 1 + length session"
  let ?p2 = "?p1 + 2 + length suites"
  let ?p3 = "?p2 + 1 + length compression"
  let ?s = "word_of_nat (length session) :: u8"
  let ?c = "word_of_nat (length compression) :: u8"
  have gets: "get hs 0 = Some 1" by (simp add: get_def hs')
  have get1: "get hs 38 = Some ?s"
    by (rule get_at [of _ "1 # start"]) (simp_all add: hs' start)
  have get2: "get hs ?p1 = Some a"
    by (rule get_at [of _ "1 # start @ ?s # session"]) (simp_all add: hs' start)
  have get3: "get hs (?p1 + 1) = Some b"
    by (rule get_at [of _ "1 # start @ ?s # session @ [a]"]) (simp_all add: hs' start)
  have get4: "get hs ?p2 = Some ?c"
    by (rule get_at [of _ "1 # start @ ?s # session @ [a, b] @ suites"]) (simp_all add: hs' start)
  have get5: "get hs ?p3 = Some c"
    by (rule get_at [of _ "1 # start @ ?s # session @ [a, b] @ suites @ ?c # compression"]) (simp_all add: hs' start)
  have get6: "get hs (?p3 + 1) = Some d"
    by (rule get_at [of _ "1 # start @ ?s # session @ [a, b] @ suites @ ?c # compression @ [c]"])
      (simp_all add: hs' start)
  have idx: "index ?data 3 = Inr g" "index ?data 4 = Inr h" by (simp_all add: data index_def)
  have ends: "min (?p3 + 2 + length extensions) (length hs) = length hs" "length hs - length extensions = ?p3 + 2"
    using len by simp_all
  have big: "\<not> length ?data < 5" "\<not> length hs < 42" using len by (simp_all add: data)
  have p0: "4 + 2 + 32 = (38::nat)" by simp
  show ?thesis
    unfolding tls_server_name_def
    by (simp only: big idx bindr_simps gh(2) rec try_opt_simps gets get1 Let_def p0 sl get2 get3 ab(2) get4 get5 get6
        cd(2) ends simp_thms if_False option.inject)
qed

lemma client_hello_ends: "\<exists>pre. client_hello opening session suites compression extensions = pre @ extensions"
  unfolding client_hello_def Let_def by (metis append.assoc append_Cons)

text \<open>
  C37. Sniffing a stream finds the server name a client sends: on every record that holds a client
  hello whose extensions carry a \<open>server_name\<close> entry, whatever the session identifier, the cipher
  suites, the compression methods, the extensions before and after it and the bytes that follow,
  \<open>sniff_payload\<close> reports protocol \<open>tls\<close> and that name in lower case.
\<close>

theorem client_hello_sniffed:
  assumes "length opening = 34" and "length session < 256" and "length compression < 256"
    and "length suites < 65536"
    and ext: "extensions = concat (map tls_extension es) @ tls_extension (0, sni_body name) @ more_extensions"
    and es: "list_all (\<lambda>e. fst e \<noteq> 0 \<and> fst e < 65536 \<and> length (snd e) < 65536) es"
    and size: "length (client_hello opening session suites compression extensions) < 65536"
    and name: "utf8_string name" and wanted: "wanted = [] \<or> ''tls'' \<in> set wanted"
  shows "sniff_payload
      (tls_record version (client_hello opening session suites compression extensions) @ rest) False wanted =
    Inr (Some \<lparr>sn_protocol = ''tls'', sn_domain = Some (to_ascii_lowercase name), sn_client = None\<rparr>)"
proof -
  define hs where "hs = client_hello opening session suites compression extensions"
  obtain pre where pre: "hs = pre @ extensions" using client_hello_ends hs_def by metis
  then have split: "hs = pre @ extensions" "length pre = length hs - length extensions" by simp_all
  have hs: "length hs < 65536" using size by (simp add: hs_def)
  have len: "length hs \<ge> length pre + 9 + length name" and elen: "length extensions \<le> length hs"
    using ext by (simp_all add: split(1) tls_extension_def sni_body_def)
  have "tls_server_name (tls_record version hs @ rest) = sni_loop hs (length pre) (length hs)"
    unfolding split(2)
    by (rule tls_server_name_hello [OF assms(1-4) _ hs_def hs]) (use elen hs in simp)
  also have "\<dots> = Inr (Some (to_ascii_lowercase name))"
  proof (rule sni_found [OF _ _ name])
    show "fst e \<noteq> 0 \<and> fst e < 65536 \<and> length (snd e) < 65536" if "e \<in> set es" for e
      using es that by (simp add: list_all_iff)
    show "hs = pre @ concat (map tls_extension es) @ tls_extension (0, sni_body name) @ more_extensions"
      by (simp add: split(1) ext)
  qed (use len hs in \<open>simp_all add: split(1) ext\<close>)
  finally have found: "tls_server_name (tls_record version hs @ rest) = Inr (Some (to_ascii_lowercase name))" .
  show ?thesis
    using wanted found unfolding hs_def [symmetric]
    by (auto simp: sniff_payload_def Let_def bytes_start_def tls_record_def)
qed

theorem client_hello_sniffed_witness:
  "sniff_payload
      (tls_record 1 (client_hello (replicate 34 0) [7] [0x13, 1] [0]
        (concat (map tls_extension [(10, [1, 2])]) @ tls_extension (0, sni_body ''Ex.test'') @ [0, 16])) @ [9])
      False [''http'', ''tls''] =
    Inr (Some \<lparr>sn_protocol = ''tls'', sn_domain = Some ''ex.test'', sn_client = None\<rparr>)"
proof -
  have name: "utf8_string ''Ex.test''" by code_simp
  have lower: "''ex.test'' = to_ascii_lowercase ''Ex.test''" by code_simp
  show ?thesis
    unfolding lower
    by (rule client_hello_sniffed [OF _ _ _ _ refl _ _ name])
      (simp_all add: tls_extension_def sni_body_def client_hello_def hello_head_def)
qed

end
