(* ===== verification/Route_Eval.thy ===== *)
theory Route_Eval
  imports Route_Engine Sniff Vless Dns_Resolver
begin

unbundle bit_operations_syntax

text \<open>
  The evaluation of the route of a connection (\<^verbatim>\<open>src/src/proxy/route.rs\<close>): the loop over the rules
  with \<open>resolve\<close> and \<open>sniff\<close> actions and lazy resolution, for TCP connections whose first bytes are
  peeked, for streams whose first bytes are read, and for datagrams. The three loops of the code are
  the same but for the network name and the sniffing step, so one loop takes both as arguments.
  Lookups and the bytes a connection delivers are functions on a state of the outside world.
\<close>

section \<open>Input and state\<close>

record linux_route_metadata =
  lm_process_name :: "string option"
  lm_process_path :: "string option"
  lm_user :: "string option"
  lm_user_id :: "u32 option"
  lm_network_type :: "string option"
  lm_network_is_expensive :: bool
  lm_network_is_constrained :: bool
  lm_wifi_ssid :: "string option"
  lm_wifi_bssid :: "string option"
  lm_interface_addresses :: "(string, ip_addr list) hashmap"
  lm_network_interface_addresses :: "(string, ip_addr list) hashmap"
  lm_source_mac_address :: "string option"
  lm_source_hostname :: "string option"
  lm_default_interface_addresses :: "ip_addr list"

text \<open>
  A resolver as the evaluation sees it: the outcome of a lookup that may take as long as the given
  limit, \<open>None\<close> when it has not ended by then.
\<close>

type_synonym 's lookup = "duration \<Rightarrow> string \<Rightarrow> lookup_options \<Rightarrow> 's \<Rightarrow> ip_addr list result option \<times> 's"

record 's route_input =
  ri_peer :: socket_addr
  ri_inbound :: string
  ri_router :: router
  ri_resolver :: "'s lookup option"
  ri_linux :: linux_route_metadata
  ri_auth_user :: "string option"
  ri_clash_mode :: "string option"

record route_state =
  rs_domain :: "string option"
  rs_destination_ip :: "ip_addr option"
  rs_destination_ips :: "ip_addr list"
  rs_cursor :: nat
  rs_resolved :: bool

record route_evaluation =
  re_decision :: route_decision
  re_destination :: destination
  re_options :: route_options
  re_resolved_addresses :: "ip_addr list"

fun new_route_state :: "destination \<Rightarrow> route_state" where
  "new_route_state (Domain name _) =
    \<lparr>rs_domain = Some name, rs_destination_ip = None, rs_destination_ips = [], rs_cursor = 0, rs_resolved = False\<rparr>"
| "new_route_state (Ip ip _) =
    \<lparr>rs_domain = None, rs_destination_ip = Some ip, rs_destination_ips = [], rs_cursor = 0, rs_resolved = False\<rparr>"

definition state_context ::
  "'s route_input \<Rightarrow> destination \<Rightarrow> string \<Rightarrow> string option \<Rightarrow> string option \<Rightarrow> route_state \<Rightarrow> route_context" where
  "state_context input dest network protocol client st =
    \<lparr>rc_domain = rs_domain st,
     rc_destination_ip = rs_destination_ip st,
     rc_destination_ips = rs_destination_ips st,
     rc_destination_port = Some (dest_port dest),
     rc_source_ip = Some (sock_ip (ri_peer input)),
     rc_source_port = Some (sock_port (ri_peer input)),
     rc_network = Some network,
     rc_protocol = protocol,
     rc_client = client,
     rc_inbound = Some (ri_inbound input),
     rc_auth_user = ri_auth_user input,
     rc_process_name = lm_process_name (ri_linux input),
     rc_process_path = lm_process_path (ri_linux input),
     rc_package_name = None,
     rc_user = lm_user (ri_linux input),
     rc_user_id = lm_user_id (ri_linux input),
     rc_clash_mode = ri_clash_mode input,
     rc_network_type = lm_network_type (ri_linux input),
     rc_network_is_expensive = lm_network_is_expensive (ri_linux input),
     rc_network_is_constrained = lm_network_is_constrained (ri_linux input),
     rc_wifi_ssid = lm_wifi_ssid (ri_linux input),
     rc_wifi_bssid = lm_wifi_bssid (ri_linux input),
     rc_interface_addresses = Some (lm_interface_addresses (ri_linux input)),
     rc_network_interface_addresses = Some (lm_network_interface_addresses (ri_linux input)),
     rc_source_mac_address = lm_source_mac_address (ri_linux input),
     rc_source_hostname = lm_source_hostname (ri_linux input),
     rc_default_interface_addresses = lm_default_interface_addresses (ri_linux input),
     rc_preferred_by = []\<rparr>"

section \<open>Resolution\<close>

definition resolve_for_route :: "'s lookup \<Rightarrow> string \<Rightarrow> lookup_options \<Rightarrow> 's \<Rightarrow> ip_addr list result \<times> 's" where
  "resolve_for_route lookup name opts s =
    (case lookup (case lo_timeout opts of None \<Rightarrow> from_secs 5 | Some t \<Rightarrow> t) name opts s of
       (None, s') \<Rightarrow> (Inl (Bail ''route DNS resolution timeout''), s')
     | (Some outcome, s') \<Rightarrow> (outcome, s'))"

definition select_address :: "ip_addr list \<Rightarrow> string option \<Rightarrow> ip_addr option" where
  "select_address addresses strategy =
    (let first = get addresses 0; s = (case strategy of None \<Rightarrow> '''' | Some s \<Rightarrow> s) in
     if s = ''ipv4_only'' then find is_ipv4 addresses
     else if s = ''ipv6_only'' then find (\<lambda>a. \<not> is_ipv4 a) addresses
     else if s = ''prefer_ipv4'' then or_else (find is_ipv4 addresses) first
     else if s = ''prefer_ipv6'' then or_else (find (\<lambda>a. \<not> is_ipv4 a) addresses) first
     else first)"

definition resolve_action ::
  "router \<Rightarrow> 's lookup option \<Rightarrow> rule_action \<Rightarrow> route_state \<Rightarrow> 's \<Rightarrow> route_state result \<times> 's" where
  "resolve_action router resolver act st s =
    (case act of
       AResolve server timeout strategy disable_cache rewrite_ttl client_subnet \<Rightarrow>
        (case (rs_domain st, resolver) of
           (Some name, Some lookup) \<Rightarrow>
            (case resolve_for_route lookup name
                \<lparr>lo_server = or_else server (rt_default_domain_resolver router),
                 lo_disable_cache = disable_cache, lo_rewrite_ttl = rewrite_ttl,
                 lo_timeout = map_option (\<lambda>v. parse_duration_lenient (Some v)) timeout,
                 lo_strategy = strategy, lo_client_subnet = client_subnet\<rparr> s of
               (Inl e, s') \<Rightarrow> (Inl e, s')
             | (Inr ips, s') \<Rightarrow>
                (Inr (st\<lparr>rs_destination_ips := ips, rs_destination_ip := select_address ips strategy,
                         rs_resolved := True\<rparr>), s'))
         | _ \<Rightarrow> (Inr st, s))
     | _ \<Rightarrow> (Inr st, s))"

text \<open>\<open>unwrap_or_default\<close> turns an error, but not a panic, into no addresses.\<close>

definition need_resolve ::
  "router \<Rightarrow> 's lookup option \<Rightarrow> nat \<Rightarrow> route_state \<Rightarrow> 's \<Rightarrow> route_state result \<times> 's" where
  "need_resolve router resolver i st s =
    (case (rs_domain st, resolver) of
       (Some name, Some lookup) \<Rightarrow>
        (case resolve_for_route lookup name
            \<lparr>lo_server = rt_default_domain_resolver router, lo_disable_cache = False, lo_rewrite_ttl = None,
             lo_timeout = None, lo_strategy = None, lo_client_subnet = None\<rparr> s of
           (Inl Panic, s') \<Rightarrow> (Inl Panic, s')
         | (outcome, s') \<Rightarrow>
            (let ips = (case outcome of Inl _ \<Rightarrow> [] | Inr ips \<Rightarrow> ips);
                 st' = st\<lparr>rs_destination_ips := ips, rs_resolved := True\<rparr> in
             (Inr (if ips = [] then st'\<lparr>rs_cursor := i + 1\<rparr>
                   else st'\<lparr>rs_destination_ip := get ips 0, rs_cursor := i\<rparr>), s')))
     | _ \<Rightarrow> (Inr (st\<lparr>rs_cursor := i + 1\<rparr>), s))"

definition resolved_addresses :: "route_state \<Rightarrow> ip_addr list" where
  "resolved_addresses st = (if rs_resolved st then rs_destination_ips st else [])"

definition override_destination :: "destination \<Rightarrow> route_options \<Rightarrow> destination result" where
  "override_destination original opts =
    (let port = (case override_port opts of Some port \<Rightarrow> port | None \<Rightarrow> dest_port original) in
     case override_address opts of
       None \<Rightarrow> Inr (case original of Ip address _ \<Rightarrow> Ip address port | Domain name _ \<Rightarrow> Domain name port)
     | Some host \<Rightarrow> Inr (case parse_ip host of Some address \<Rightarrow> Ip address port | None \<Rightarrow> Domain host port))"

section \<open>The loop\<close>

text \<open>
  The variables of the loop: the route state, what sniffing detected, the options merged so far and
  the first bytes of the connection. A sniffing step may read such bytes.
\<close>

record loop_state =
  ls_state :: route_state
  ls_protocol :: "string option"
  ls_client :: "string option"
  ls_options :: route_options
  ls_initial :: bytes

type_synonym 's sniff_step =
  "string list \<Rightarrow> string option \<Rightarrow> bytes \<Rightarrow> 's \<Rightarrow> (sniff_result option \<times> bytes) result \<times> 's"

definition detected :: "sniff_result option \<Rightarrow> bytes \<Rightarrow> loop_state \<Rightarrow> loop_state" where
  "detected found initial ls =
    (case found of
       None \<Rightarrow> ls\<lparr>ls_initial := initial\<rparr>
     | Some sn \<Rightarrow>
         ls\<lparr>ls_initial := initial, ls_protocol := Some (sn_protocol sn), ls_client := sn_client sn,
            ls_state := (if sn_domain sn \<noteq> None then (ls_state ls)\<lparr>rs_domain := sn_domain sn\<rparr> else ls_state ls)\<rparr>)"

abbreviation loop_context :: "'s route_input \<Rightarrow> destination \<Rightarrow> string \<Rightarrow> loop_state \<Rightarrow> route_context" where
  "loop_context input dest network ls \<equiv>
    state_context input dest network (ls_protocol ls) (ls_client ls) (ls_state ls)"

abbreviation loop_lookup :: "'s route_input \<Rightarrow> destination \<Rightarrow> string \<Rightarrow> loop_state \<Rightarrow> action_lookup" where
  "loop_lookup input dest network ls \<equiv>
    next_action_lazy (ri_router input) (loop_context input dest network ls) (rs_cursor (ls_state ls))"

lemma resolve_action_cursor:
  "resolve_action router resolver act st s = (Inr st', s') \<Longrightarrow> rs_cursor st' = rs_cursor st"
  "(Inr st', s') = resolve_action router resolver act st s \<Longrightarrow> rs_cursor st' = rs_cursor st"
  by (auto simp: resolve_action_def split: rule_action.splits option.splits prod.splits sum.splits)

lemma need_resolve_cursor:
  "need_resolve router resolver i st s = (Inr st', s') \<Longrightarrow>
    rs_cursor st' = Suc i \<or> rs_cursor st' = i \<and> rs_destination_ip st' \<noteq> None"
  by (auto simp: need_resolve_def Let_def get_def split: option.splits prod.splits sum.splits error.splits if_splits)

lemma lookup_bounds:
  "next_action_lazy r c n = LAction i act \<Longrightarrow> n \<le> i \<and> i < length (rt_rules r)"
  "next_action_lazy r c n = LNeedResolve i \<Longrightarrow>
    n \<le> i \<and> i < length (rt_rules r) \<and> destination_addresses c = [] \<and> rc_domain c \<noteq> None \<and>
    \<not> rule_hit c (rt_rules r ! i)"
  using lazy_scan_spec [of _ n "rt_rules r", OF refl, of c "map_option normalize_domain (rc_domain c)"
      "destination_addresses c = [] \<and> rc_domain c \<noteq> None"]
  by (simp_all add: next_action_lazy_def Let_def)

lemma detected_cursor [simp]: "rs_cursor (ls_state (detected found initial ls)) = rs_cursor (ls_state ls)"
  by (simp add: detected_def split: option.splits)

definition loop_measure :: "(string \<times> 's sniff_step \<times> 's route_input \<times> destination \<times> loop_state \<times> 's) rel" where
  "loop_measure = measures
    [\<lambda>(_, _, input, _, ls, _). length (rt_rules (ri_router input)) - rs_cursor (ls_state ls),
     \<lambda>(_, _, _, _, ls, _). if rs_destination_ip (ls_state ls) = None then 1 else 0]"

lemma need_resolve_decreases:
  assumes "loop_lookup input dest network ls = LNeedResolve i"
    and "need_resolve router resolver i (ls_state ls) s = (Inr st', s')"
  shows "((network, sniff, input, dest, ls\<lparr>ls_state := st'\<rparr>, s'), (network, sniff, input, dest, ls, s)) \<in> loop_measure"
proof -
  have "rs_destination_ip (ls_state ls) = None"
    using lookup_bounds(2) [OF assms(1)]
    by (auto simp: destination_addresses_def state_context_def split: option.splits)
  with lookup_bounds(2) [OF assms(1)] need_resolve_cursor [OF assms(2)] show ?thesis
    by (auto simp: loop_measure_def)
qed

lemma action_decreases:
  assumes "loop_lookup input dest network ls = LAction i act" and "rs_cursor (ls_state ls') = Suc i"
  shows "((network, sniff, input, dest, ls', s'), (network, sniff, input, dest, ls, s)) \<in> loop_measure"
  using lookup_bounds(1) [OF assms(1)] assms(2) by (auto simp: loop_measure_def)

lemma wf_loop_measure: "wf loop_measure"
  by (simp add: loop_measure_def)

function route_loop ::
  "string \<Rightarrow> 's sniff_step \<Rightarrow> 's route_input \<Rightarrow> destination \<Rightarrow> loop_state \<Rightarrow> 's \<Rightarrow>
   (route_decision \<times> loop_state) result \<times> 's" where
  "route_loop network sniff input dest ls s =
    (case loop_lookup input dest network ls of
       LAction i act \<Rightarrow>
        (let st = (ls_state ls)\<lparr>rs_cursor := i + 1\<rparr>; ls = ls\<lparr>ls_state := st\<rparr> in
         case act of
           ARoute decision opts \<Rightarrow> (Inr (decision, ls\<lparr>ls_options := merge_options (ls_options ls) opts\<rparr>), s)
         | ARouteOptions opts \<Rightarrow>
             route_loop network sniff input dest (ls\<lparr>ls_options := merge_options (ls_options ls) opts\<rparr>) s
         | AResolve _ _ _ _ _ _ \<Rightarrow>
            (case resolve_action (ri_router input) (ri_resolver input) act st s of
               (Inl e, s') \<Rightarrow> (Inl e, s')
             | (Inr st', s') \<Rightarrow> route_loop network sniff input dest (ls\<lparr>ls_state := st'\<rparr>) s')
         | ASniff names timeout \<Rightarrow>
            (case sniff names timeout (ls_initial ls) s of
               (Inl e, s') \<Rightarrow> (Inl e, s')
             | (Inr (found, initial), s') \<Rightarrow> route_loop network sniff input dest (detected found initial ls) s'))
     | LNeedResolve i \<Rightarrow>
        (case need_resolve (ri_router input) (ri_resolver input) i (ls_state ls) s of
           (Inl e, s') \<Rightarrow> (Inl e, s')
         | (Inr st', s') \<Rightarrow> route_loop network sniff input dest (ls\<lparr>ls_state := st'\<rparr>) s')
     | LNone \<Rightarrow> (Inr (Outbound (rt_final_outbound (ri_router input)), ls), s))"
  by pat_completeness auto

termination
proof (relation loop_measure)
  show "wf loop_measure" by (rule wf_loop_measure)
qed (auto intro: action_decreases need_resolve_decreases simp: resolve_action_cursor)

declare route_loop.simps [simp del]

section \<open>The three evaluations\<close>

definition start_loop :: "'s route_input \<Rightarrow> destination \<Rightarrow> bytes \<Rightarrow> loop_state" where
  "start_loop input dest initial =
    \<lparr>ls_state = new_route_state dest, ls_protocol = None, ls_client = None,
     ls_options = rt_default_options (ri_router input), ls_initial = initial\<rparr>"

definition conclude :: "destination \<Rightarrow> route_decision \<times> loop_state \<Rightarrow> route_evaluation result" where
  "conclude dest = (\<lambda>(decision, ls).
    bindr (override_destination dest (ls_options ls)) (\<lambda>target.
    Inr \<lparr>re_decision = decision, re_destination = target, re_options = ls_options ls,
         re_resolved_addresses = resolved_addresses (ls_state ls)\<rparr>))"

text \<open>Peeking and reading give the bytes that arrive within the limit, or nothing.\<close>

type_synonym 's receive = "duration \<Rightarrow> 's \<Rightarrow> bytes option \<times> 's"

definition sniff_tcp :: "'s receive \<Rightarrow> 's sniff_step" where
  "sniff_tcp peek names timeout initial s =
    (if initial = [] then
       (case peek (parse_duration_lenient timeout) s of
          (None, s') \<Rightarrow> (Inr (None, initial), s')
        | (Some data, s') \<Rightarrow> (bindr (sniff_payload data False names) (\<lambda>found. Inr (found, initial)), s'))
     else (bindr (sniff_payload initial False names) (\<lambda>found. Inr (found, initial)), s))"

definition evaluate_tcp_route ::
  "'s receive \<Rightarrow> bytes \<Rightarrow> destination \<Rightarrow> 's route_input \<Rightarrow> 's \<Rightarrow> route_evaluation result \<times> 's" where
  "evaluate_tcp_route peek initial dest input s =
    (case route_loop ''tcp'' (sniff_tcp peek) input dest (start_loop input dest initial) s of
       (outcome, s') \<Rightarrow> (bindr outcome (conclude dest), s'))"

definition sniff_stream :: "'s receive \<Rightarrow> 's sniff_step" where
  "sniff_stream read names timeout initial s =
    (case (if initial = [] then
             (case read (parse_duration_lenient timeout) s of
                (None, s') \<Rightarrow> (initial, s')
              | (Some data, s') \<Rightarrow> (data, s'))
           else (initial, s)) of
       (initial, s) \<Rightarrow> (bindr (sniff_payload initial False names) (\<lambda>found. Inr (found, initial)), s))"

definition evaluate_stream_tcp_route ::
  "'s receive \<Rightarrow> destination \<Rightarrow> 's route_input \<Rightarrow> 's \<Rightarrow> (route_evaluation \<times> bytes) result \<times> 's" where
  "evaluate_stream_tcp_route read dest input s =
    (case route_loop ''tcp'' (sniff_stream read) input dest (start_loop input dest []) s of
       (outcome, s') \<Rightarrow>
         (bindr outcome (\<lambda>(decision, ls).
          bindr (conclude dest (decision, ls)) (\<lambda>evaluation. Inr (evaluation, ls_initial ls))), s'))"

definition sniff_datagram :: "'s sniff_step" where
  "sniff_datagram names timeout initial s =
    (bindr (sniff_payload initial True names) (\<lambda>found. Inr (found, initial)), s)"

definition evaluate_udp_route ::
  "destination \<Rightarrow> bytes \<Rightarrow> 's route_input \<Rightarrow> 's \<Rightarrow> route_evaluation result \<times> 's" where
  "evaluate_udp_route dest payload input s =
    (case route_loop ''udp'' sniff_datagram input dest (start_loop input dest payload) s of
       (outcome, s') \<Rightarrow> (bindr outcome (conclude dest), s'))"

section \<open>Evaluation without lazy resolution\<close>

text \<open>
  The specification: resolve the name first, then apply the matching rules in order, collecting
  their options until one decides.
\<close>

fun apply_rules :: "string \<Rightarrow> route_options \<Rightarrow> compiled_rule list \<Rightarrow> route_decision \<times> route_options" where
  "apply_rules final opts [] = (Outbound final, opts)"
| "apply_rules final opts (rule # rules) =
    (case cr_action rule of
       ARoute decision newer \<Rightarrow> (decision, merge_options opts newer)
     | ARouteOptions newer \<Rightarrow> apply_rules final (merge_options opts newer) rules
     | _ \<Rightarrow> apply_rules final opts rules)"

lemma apply_rules_route:
  "fst (apply_rules (rt_final_outbound r) opts (filter (rule_hit c) (rt_rules r))) = route r c"
proof -
  have "fst (apply_rules final opts rules) =
      (case find_map (\<lambda>rule. case cr_action rule of ARoute decision _ \<Rightarrow> Some decision | _ \<Rightarrow> None) rules of
         Some decision \<Rightarrow> decision | None \<Rightarrow> Outbound final)" for final rules
    by (induction rules arbitrary: opts) (auto split: rule_action.splits)
  then show ?thesis by (simp add: route_def)
qed

fun plain_action :: "rule_action \<Rightarrow> bool" where
  "plain_action (ARoute _ _) = True"
| "plain_action (ARouteOptions _) = True"
| "plain_action _ = False"

definition resolves_to :: "'s lookup option \<Rightarrow> string \<Rightarrow> ip_addr list \<Rightarrow> bool" where
  "resolves_to resolver name found \<longleftrightarrow>
    (case resolver of
       None \<Rightarrow> found = []
     | Some lookup \<Rightarrow>
        (\<forall>limit opts s. case fst (lookup limit name opts s) of
             Some (Inr ips) \<Rightarrow> ips = found
           | Some (Inl e) \<Rightarrow> found = [] \<and> e \<noteq> Panic
           | None \<Rightarrow> found = []))"

lemma resolve_for_route_outcome:
  assumes "resolves_to (Some lookup) name found"
  shows "\<exists>s'. resolve_for_route lookup name opts s = (Inr found, s') \<or>
    (\<exists>e. found = [] \<and> resolve_for_route lookup name opts s = (Inl (Bail e), s'))"
proof -
  let ?limit = "case lo_timeout opts of None \<Rightarrow> from_secs 5 | Some t \<Rightarrow> t"
  obtain out s' where out: "lookup ?limit name opts s = (out, s')" by fastforce
  have spec: "case out of Some (Inr ips) \<Rightarrow> ips = found | Some (Inl e) \<Rightarrow> found = [] \<and> e \<noteq> Panic | None \<Rightarrow> found = []"
    using assms out by (simp add: resolves_to_def) (metis fst_conv)
  then show ?thesis
    by (auto simp: resolve_for_route_def out split: option.splits sum.splits) (metis error.exhaust)
qed

lemma need_resolve_outcome:
  assumes "rs_domain st = Some name" and "resolves_to resolver name found" and "rs_destination_ips st = []"
  obtains st' s' where "need_resolve router resolver i st s = (Inr st', s')" and "rs_domain st' = Some name"
    and "rs_destination_ips st' = found"
    and "if found = [] then rs_cursor st' = Suc i \<and> rs_destination_ip st' = rs_destination_ip st
         else rs_cursor st' = i \<and> rs_destination_ip st' = get found 0"
proof (cases resolver)
  case None
  with assms that show ?thesis by (auto simp: need_resolve_def resolves_to_def)
next
  case (Some lookup)
  let ?opts = "\<lparr>lo_server = rt_default_domain_resolver router, lo_disable_cache = False, lo_rewrite_ttl = None,
      lo_timeout = None, lo_strategy = None, lo_client_subnet = None\<rparr>"
  show ?thesis
    using resolve_for_route_outcome [of lookup name found ?opts s] assms Some that
    by (auto simp: need_resolve_def Let_def split: if_splits)
qed

lemma filter_first: "filter P ys = x # xs \<Longrightarrow> ys ! length (takeWhile (Not \<circ> P) ys) = x"
  by (induction ys) (auto split: if_splits)

lemma filter_length: "filter P ys = x # xs \<Longrightarrow> length (takeWhile (Not \<circ> P) ys) < length ys"
  by (induction ys) (auto split: if_splits)

lemma next_action_None: "next_action r c n = None \<Longrightarrow> filter (rule_hit c) (drop n (rt_rules r)) = []"
  by (simp add: next_action_filter split: list.splits)

lemma next_action_Some:
  assumes "next_action r c n = Some (i, act)"
  shows "act = cr_action (rt_rules r ! i)"
    and "filter (rule_hit c) (drop n (rt_rules r)) = rt_rules r ! i # filter (rule_hit c) (drop (Suc i) (rt_rules r))"
proof -
  let ?ys = "drop n (rt_rules r)"
  let ?k = "length (takeWhile (Not \<circ> rule_hit c) ?ys)"
  obtain rule rest where f: "filter (rule_hit c) ?ys = rule # rest" and i: "i = n + ?k" and "act = cr_action rule"
    using assms by (auto simp: next_action_filter split: list.splits)
  moreover have "filter (rule_hit c) (drop (Suc i) (rt_rules r)) = rest"
    using filter_drop_takeWhile [OF f] by (simp add: i add.commute)
  moreover have "?k < length ?ys" using filter_length [OF f] .
  then have "rt_rules r ! i = rule" using filter_first [OF f] by (simp add: i)
  ultimately show "act = cr_action (rt_rules r ! i)"
    and "filter (rule_hit c) ?ys = rt_rules r ! i # filter (rule_hit c) (drop (Suc i) (rt_rules r))" by simp_all
qed

lemma next_action_same_filter:
  assumes "next_action r c n = next_action r c m"
  shows "filter (rule_hit c) (drop n (rt_rules r)) = filter (rule_hit c) (drop m (rt_rules r))"
proof (cases "next_action r c m")
  case None
  with assms next_action_None [of r c] show ?thesis by simp
next
  case (Some p)
  with assms next_action_Some(2) [of r c] show ?thesis by (cases p) simp
qed

lemma lazy_known:
  assumes "destination_addresses c \<noteq> [] \<or> rc_domain c = None"
  shows "next_action_lazy r c n =
    (case next_action r c n of None \<Rightarrow> LNone | Some (i, act) \<Rightarrow> LAction i act)"
proof -
  have "lazy_scan c d False rules =
    (case find (\<lambda>(_, rule). matches rule c d) rules of None \<Rightarrow> LNone | Some (i, rule) \<Rightarrow> LAction i (cr_action rule))" for d rules
    by (induction c d False rules rule: lazy_scan.induct) auto
  with assms show ?thesis
    by (auto simp: next_action_lazy_def next_action_def Let_def split: option.splits)
qed

text \<open>
  What one turn of the loop finds, against the context \<open>c\<close> with the resolved addresses: either the
  next matching rule, or a rule that needs addresses before which no rule matches, or no rule.
\<close>

lemma lazy_turn:
  assumes rules: "list_all invert_free (rt_rules r)" "list_all flags_ok (rt_rules r)"
    and c0: "c0 = c \<and> (destination_addresses c \<noteq> [] \<or> rc_domain c = None) \<or>
      rc_domain c0 = Some name \<and> destination_addresses c0 = [] \<and>
      c = c0\<lparr>rc_destination_ips := ips, rc_destination_ip := ip\<rparr>"
  shows "case next_action_lazy r c0 n of
      LAction i act \<Rightarrow> act = cr_action (rt_rules r ! i) \<and> i < length (rt_rules r) \<and>
        filter (rule_hit c) (drop n (rt_rules r)) = rt_rules r ! i # filter (rule_hit c) (drop (Suc i) (rt_rules r))
    | LNeedResolve i \<Rightarrow> rc_domain c0 = Some name \<and> destination_addresses c0 = [] \<and> \<not> rule_hit c0 (rt_rules r ! i) \<and>
        i < length (rt_rules r) \<and>
        filter (rule_hit c) (drop n (rt_rules r)) = filter (rule_hit c) (drop i (rt_rules r))
    | LNone \<Rightarrow> filter (rule_hit c) (drop n (rt_rules r)) = []"
proof (cases "c0 = c \<and> (destination_addresses c \<noteq> [] \<or> rc_domain c = None)")
  case True
  then have eq: "c0 = c" and known: "destination_addresses c \<noteq> [] \<or> rc_domain c = None" by simp_all
  show ?thesis
  proof (cases "next_action r c n")
    case None
    then show ?thesis by (simp add: eq lazy_known [OF known] next_action_None)
  next
    case (Some p)
    then obtain i act where p: "next_action r c n = Some (i, act)" by (cases p) simp
    then have "next_action_lazy r c n = LAction i act" by (simp add: lazy_known [OF known])
    with next_action_Some [OF p] lookup_bounds(1) [of r c n i act] show ?thesis by (simp add: eq)
  qed
next
  case False
  with c0 have c: "rc_domain c0 = Some name" "destination_addresses c0 = []"
    "c = c0\<lparr>rc_destination_ips := ips, rc_destination_ip := ip\<rparr>" by blast+
  note split = lazy_lookup_split [OF rules c(1,2), of ip ips n, folded c(3)]
  show ?thesis
  proof (cases "next_action_lazy r c0 n")
    case (LAction i act)
    with split have "next_action r c n = Some (i, act)" by simp
    with next_action_Some [OF this] lookup_bounds(1) [OF LAction] LAction show ?thesis by simp
  next
    case (LNeedResolve i)
    with split have "next_action r c n = next_action r c i" by simp
    with next_action_same_filter [OF this] lookup_bounds(2) [OF LNeedResolve] LNeedResolve c show ?thesis by simp
  next
    case LNone
    with split next_action_None [of r c n] show ?thesis by simp
  qed
qed

definition aims_at ::
  "'s route_input \<Rightarrow> destination \<Rightarrow> string \<Rightarrow> ip_addr list \<Rightarrow> route_context \<Rightarrow> loop_state \<Rightarrow> bool" where
  "aims_at input dest network found c ls \<longleftrightarrow>
    (let c0 = loop_context input dest network ls in
     (rs_destination_ips (ls_state ls) = [] \<or> rs_destination_ips (ls_state ls) = found) \<and>
     (c0 = c \<and> (destination_addresses c \<noteq> [] \<or> rc_domain c = None) \<or>
      (\<exists>name. rc_domain c0 = Some name \<and> resolves_to (ri_resolver input) name found \<and>
        destination_addresses c0 = [] \<and> c = c0\<lparr>rc_destination_ips := found, rc_destination_ip := get found 0\<rparr>)))"

lemma aims_at_turn:
  assumes "list_all invert_free (rt_rules (ri_router input))" and "list_all flags_ok (rt_rules (ri_router input))"
    and "aims_at input dest network found c ls"
  shows "case loop_lookup input dest network ls of
      LAction i act \<Rightarrow> act = cr_action (rt_rules (ri_router input) ! i) \<and> i < length (rt_rules (ri_router input)) \<and>
        filter (rule_hit c) (drop (rs_cursor (ls_state ls)) (rt_rules (ri_router input))) =
          rt_rules (ri_router input) ! i # filter (rule_hit c) (drop (Suc i) (rt_rules (ri_router input)))
    | LNeedResolve i \<Rightarrow> i < length (rt_rules (ri_router input)) \<and>
        (found = [] \<longrightarrow> \<not> rule_hit c (rt_rules (ri_router input) ! i)) \<and>
        filter (rule_hit c) (drop (rs_cursor (ls_state ls)) (rt_rules (ri_router input))) =
          filter (rule_hit c) (drop i (rt_rules (ri_router input)))
    | LNone \<Rightarrow> filter (rule_hit c) (drop (rs_cursor (ls_state ls)) (rt_rules (ri_router input))) = []"
proof -
  let ?c0 = "loop_context input dest network ls"
  obtain name where c0: "?c0 = c \<and> (destination_addresses c \<noteq> [] \<or> rc_domain c = None) \<or>
      rc_domain ?c0 = Some name \<and> destination_addresses ?c0 = [] \<and>
      c = ?c0\<lparr>rc_destination_ips := found, rc_destination_ip := get found 0\<rparr>"
    using assms(3) unfolding aims_at_def Let_def by blast
  have "?c0 = c" if "found = []" "destination_addresses ?c0 = []" "rc_domain ?c0 = Some name"
    using c0 that by (auto simp: destination_addresses_def get_def state_context_def split: option.splits)
  with lazy_turn [OF assms(1,2) c0, of "rs_cursor (ls_state ls)"] show ?thesis
    by (auto split: action_lookup.splits)
qed

lemma aims_at_resolved:
  assumes "loop_lookup input dest network ls = LNeedResolve i" and "aims_at input dest network found c ls"
  obtains st' s' where "need_resolve (ri_router input) (ri_resolver input) i (ls_state ls) s = (Inr st', s')"
    and "aims_at input dest network found c (ls\<lparr>ls_state := st'\<rparr>)"
    and "rs_cursor st' = (if found = [] then Suc i else i)"
proof -
  let ?c0 = "loop_context input dest network ls"
  have c0: "destination_addresses ?c0 = []" "rc_domain ?c0 \<noteq> None"
    using lookup_bounds(2) [OF assms(1)] by simp_all
  then obtain name where name: "rc_domain ?c0 = Some name" "resolves_to (ri_resolver input) name found"
      "c = ?c0\<lparr>rc_destination_ips := found, rc_destination_ip := get found 0\<rparr>"
    using assms(2) unfolding aims_at_def Let_def by auto
  have st: "rs_domain (ls_state ls) = Some name" "rs_destination_ips (ls_state ls) = []"
      "rs_destination_ip (ls_state ls) = None"
    using c0(1) name(1) by (auto simp: destination_addresses_def state_context_def split: option.splits)
  obtain st' s' where n: "need_resolve (ri_router input) (ri_resolver input) i (ls_state ls) s = (Inr st', s')"
      "rs_domain st' = Some name" "rs_destination_ips st' = found"
    "if found = [] then rs_cursor st' = Suc i \<and> rs_destination_ip st' = rs_destination_ip (ls_state ls)
         else rs_cursor st' = i \<and> rs_destination_ip st' = get found 0"
    using need_resolve_outcome [OF st(1) name(2) st(2)] by metis
  have "aims_at input dest network found c (ls\<lparr>ls_state := st'\<rparr>)"
    using n name c0 st
    by (auto simp: aims_at_def Let_def state_context_def destination_addresses_def get_def split: if_splits)
  with n that show ?thesis by (auto split: if_splits)
qed

lemma aims_at_options [simp]:
  "aims_at input dest network found c (ls\<lparr>ls_options := opts\<rparr>) = aims_at input dest network found c ls"
  "aims_at input dest network found c (ls\<lparr>ls_state := (ls_state ls)\<lparr>rs_cursor := n\<rparr>\<rparr>) = aims_at input dest network found c ls"
  by (simp_all add: aims_at_def state_context_def)

lemma route_loop_eager:
  assumes "list_all invert_free (rt_rules (ri_router input))" and "list_all flags_ok (rt_rules (ri_router input))"
    and "list_all (plain_action \<circ> cr_action) (rt_rules (ri_router input))" and "aims_at input dest network found c ls"
  shows "\<exists>d ls' s'. route_loop network sniff input dest ls s = (Inr (d, ls'), s') \<and>
    (d, ls_options ls') = apply_rules (rt_final_outbound (ri_router input)) (ls_options ls)
      (filter (rule_hit c) (drop (rs_cursor (ls_state ls)) (rt_rules (ri_router input)))) \<and>
    aims_at input dest network found c ls'"
  using assms(4)
proof (induction "(network, sniff, input, dest, ls, s)" arbitrary: ls s rule: wf_induct_rule [OF wf_loop_measure])
  case (1 ls s)
  note turn = aims_at_turn [OF assms(1,2) "1.prems"]
  show ?case
  proof (cases "loop_lookup input dest network ls")
    case (LAction i act)
    let ?ls = "ls\<lparr>ls_state := (ls_state ls)\<lparr>rs_cursor := Suc i\<rparr>\<rparr>"
    have hit: "cr_action (rt_rules (ri_router input) ! i) = act"
        "filter (rule_hit c) (drop (rs_cursor (ls_state ls)) (rt_rules (ri_router input))) =
          rt_rules (ri_router input) ! i # filter (rule_hit c) (drop (Suc i) (rt_rules (ri_router input)))"
      using turn LAction by simp_all
    have "plain_action act" using turn LAction assms(3) by (simp add: list_all_length)
    then consider (route) d opts where "act = ARoute d opts" | (more) opts where "act = ARouteOptions opts"
      by (cases act) auto
    then show ?thesis
    proof cases
      case route
      with LAction hit "1.prems" show ?thesis by (subst route_loop.simps) (simp add: Let_def)
    next
      case more
      let ?ls' = "?ls\<lparr>ls_options := merge_options (ls_options ls) opts\<rparr>"
      have "((network, sniff, input, dest, ?ls', s), (network, sniff, input, dest, ls, s)) \<in> loop_measure"
        by (rule action_decreases [OF LAction]) simp
      from "1.hyps" [OF this] "1.prems" LAction hit more show ?thesis
        by (subst route_loop.simps) (simp add: Let_def)
    qed
  next
    case (LNeedResolve i)
    obtain st' s' where n: "need_resolve (ri_router input) (ri_resolver input) i (ls_state ls) s = (Inr st', s')"
        "aims_at input dest network found c (ls\<lparr>ls_state := st'\<rparr>)" "rs_cursor st' = (if found = [] then Suc i else i)"
      using aims_at_resolved [OF LNeedResolve "1.prems"] .
    have i: "i < length (rt_rules (ri_router input))" using turn LNeedResolve by simp
    have "filter (rule_hit c) (drop (rs_cursor st') (rt_rules (ri_router input))) =
        filter (rule_hit c) (drop i (rt_rules (ri_router input)))"
      using turn LNeedResolve n(3) Cons_nth_drop_Suc [OF i, symmetric] by auto
    with "1.hyps" [OF need_resolve_decreases [OF LNeedResolve n(1)] n(2)] n(1) LNeedResolve turn show ?thesis
      by (subst route_loop.simps) simp
  next
    case LNone
    with turn "1.prems" show ?thesis by (subst route_loop.simps) simp
  qed
qed

definition resolved_state :: "destination \<Rightarrow> ip_addr list \<Rightarrow> route_state" where
  "resolved_state dest found =
    (case dest of
       Ip _ _ \<Rightarrow> new_route_state dest
     | Domain _ _ \<Rightarrow> (new_route_state dest)\<lparr>rs_destination_ips := found, rs_destination_ip := get found 0\<rparr>)"

definition eager_agrees ::
  "string \<Rightarrow> 's route_input \<Rightarrow> destination \<Rightarrow> ip_addr list \<Rightarrow> route_evaluation \<Rightarrow> bool" where
  "eager_agrees network input dest found ev \<longleftrightarrow>
    (let r = ri_router input; c = state_context input dest network None None (resolved_state dest found) in
     re_decision ev = route r c \<and>
     re_options ev = snd (apply_rules (rt_final_outbound r) (rt_default_options r) (filter (rule_hit c) (rt_rules r))) \<and>
     override_destination dest (re_options ev) = Inr (re_destination ev) \<and>
     (re_resolved_addresses ev = [] \<or> re_resolved_addresses ev = found))"

lemma aims_at_start:
  assumes "case dest of Ip _ _ \<Rightarrow> True | Domain name _ \<Rightarrow> resolves_to (ri_resolver input) name found"
  shows "aims_at input dest network found
    (state_context input dest network None None (resolved_state dest found)) (start_loop input dest initial)"
  using assms
  by (cases dest) (auto simp: aims_at_def start_loop_def resolved_state_def state_context_def destination_addresses_def)

lemma evaluation_agrees:
  assumes "list_all invert_free (rt_rules (ri_router input))" and "list_all flags_ok (rt_rules (ri_router input))"
    and "list_all (plain_action \<circ> cr_action) (rt_rules (ri_router input))"
    and "case dest of Ip _ _ \<Rightarrow> True | Domain name _ \<Rightarrow> resolves_to (ri_resolver input) name found"
  shows "\<exists>d ls' s' ev. route_loop network sniff input dest (start_loop input dest initial) s = (Inr (d, ls'), s') \<and>
    conclude dest (d, ls') = Inr ev \<and> eager_agrees network input dest found ev"
proof -
  let ?c = "state_context input dest network None None (resolved_state dest found)"
  obtain d ls' s' where loop: "route_loop network sniff input dest (start_loop input dest initial) s = (Inr (d, ls'), s')"
      "(d, ls_options ls') = apply_rules (rt_final_outbound (ri_router input)) (rt_default_options (ri_router input))
        (filter (rule_hit ?c) (rt_rules (ri_router input)))"
      "aims_at input dest network found ?c ls'"
    using route_loop_eager [OF assms(1-3) aims_at_start [OF assms(4), of network initial], of sniff s]
    by (cases dest) (auto simp: start_loop_def)
  have d: "d = route (ri_router input) ?c"
    unfolding apply_rules_route [symmetric, of _ _ "rt_default_options (ri_router input)"] loop(2) [symmetric] by simp
  obtain target where target: "override_destination dest (ls_options ls') = Inr target"
    by (cases "override_address (ls_options ls')") (simp_all add: override_destination_def Let_def)
  have ips: "resolved_addresses (ls_state ls') = [] \<or> resolved_addresses (ls_state ls') = found"
    using loop(3) by (auto simp: aims_at_def Let_def resolved_addresses_def)
  show ?thesis
    using loop(1) d target ips loop(2) [symmetric] by (auto simp: conclude_def eager_agrees_def Let_def)
qed


definition no_metadata :: linux_route_metadata where
  "no_metadata =
    \<lparr>lm_process_name = None, lm_process_path = None, lm_user = None, lm_user_id = None, lm_network_type = None,
     lm_network_is_expensive = False, lm_network_is_constrained = False, lm_wifi_ssid = None, lm_wifi_bssid = None,
     lm_interface_addresses = [], lm_network_interface_addresses = [], lm_source_mac_address = None,
     lm_source_hostname = None, lm_default_interface_addresses = []\<rparr>"

definition example_input :: "compiled_rule list \<Rightarrow> 's lookup \<Rightarrow> 's route_input" where
  "example_input rules lookup =
    \<lparr>ri_peer = SockV4 1 2, ri_inbound = ''in'', ri_router = simple_router rules, ri_resolver = Some lookup,
     ri_linux = no_metadata, ri_auth_user = None, ri_clash_mode = None\<rparr>"

definition address_rule :: "ip_addr \<Rightarrow> rule_action \<Rightarrow> compiled_rule" where
  "address_rule a act = CompiledRule None [] (no_fields\<lparr>mf_cidrs := [\<lambda>ip. ip = a]\<rparr>) [] act False True"


section \<open>Lookups that fail are repeated\<close>

text \<open>
  A name that does not resolve is looked up again for every rule that needs an address, so a
  connection may wait for as many timeouts as there are such rules; the state counts the lookups.
\<close>

lemma failed_lookup_repeated:
  "snd (evaluate_udp_route (Domain ''a'' 53) []
      (example_input [address_rule (V4 8) act, address_rule (V4 9) act] (\<lambda>limit name opts n. (None, Suc n))) 0) = 2"
  by (simp add: evaluate_udp_route_def start_loop_def route_loop.simps example_input_def example_simps
      address_rule_def state_context_def need_resolve_def resolve_for_route_def no_metadata_def Let_def)

end
