(* ===== verification/Tun_Config.thy ===== *)
theory Tun_Config
  imports Sniff Udp_Nat
begin

text \<open>
  The configuration of a TUN inbound (\<^verbatim>\<open>src/src/tun.rs\<close>): \<open>TunConfig::from_inbound\<close> with its checks and
  the small parsers it uses. \<open>IpNet\<close> of the \<open>ipnet\<close> crate is an address and a prefix length; the
  contents of \<^verbatim>\<open>/proc/meminfo\<close> are an argument. Error contexts that only add text are left out.
\<close>

section \<open>Prefixes and options\<close>

datatype ip_net = IpNet (net_addr: ip_addr) (net_len: nat)

definition net_v6 :: "ip_net \<Rightarrow> bool" where
  "net_v6 p \<longleftrightarrow> \<not> is_ipv4 (net_addr p)"

record tun_inbound =
  ti_type :: string
  ti_interface_name :: "string option"
  ti_netns :: "string option"
  ti_mtu :: "u16 option"
  ti_address :: "ip_net list"
  ti_dns_mode :: "string option"
  ti_dns_address :: "ip_addr list"
  ti_stack :: "string option"
  ti_auto_route :: bool
  ti_auto_redirect :: bool
  ti_input_mark :: "u32 option"
  ti_output_mark :: "u32 option"
  ti_reset_mark :: "u32 option"
  ti_nfqueue :: "u16 option"
  ti_fallback_rule_index :: "u32 option"
  ti_exclude_mptcp :: bool
  ti_loopback_address :: "ip_addr list"
  ti_strict_route :: bool
  ti_table_index :: "u32 option"
  ti_rule_index :: "u32 option"
  ti_route_address :: "ip_net list"
  ti_route_address_set :: "string list"
  ti_route_exclude_address :: "ip_net list"
  ti_route_exclude_address_set :: "string list"
  ti_include_interface :: "string list"
  ti_exclude_interface :: "string list"
  ti_include_uid :: "u32 list"
  ti_include_uid_range :: "string list"
  ti_exclude_uid :: "u32 list"
  ti_exclude_uid_range :: "string list"
  ti_include_package :: "string list"
  ti_exclude_package :: "string list"
  ti_include_android_user :: "int list"
  ti_include_mac_address :: "string list"
  ti_exclude_mac_address :: "string list"
  ti_endpoint_independent_nat :: bool
  ti_udp_timeout :: "string option"
  ti_udp_mapping :: "string option"
  ti_udp_filtering :: "string option"
  ti_udp_nat_max :: "u32 option"
  ti_platform :: bool
  ti_gso :: bool

record tun_config =
  tc_interface_name :: string
  tc_mtu :: u16
  tc_addresses :: "ip_net list"
  tc_stack :: string
  tc_auto_route :: bool
  tc_auto_redirect :: bool
  tc_strict_route :: bool
  tc_route_addresses :: "ip_net list"
  tc_route_exclude_addresses :: "ip_net list"
  tc_route_include_active :: bool
  tc_route_exclude_active :: bool
  tc_include_interfaces :: "string list"
  tc_exclude_interfaces :: "string list"
  tc_include_uids :: "u32 list"
  tc_exclude_uids :: "u32 list"
  tc_include_uid_ranges :: "(u32 \<times> u32) list"
  tc_exclude_uid_ranges :: "(u32 \<times> u32) list"
  tc_table_index :: u32
  tc_rule_index :: u32
  tc_input_mark :: u32
  tc_output_mark :: u32
  tc_include_macs :: "string list"
  tc_exclude_macs :: "string list"
  tc_bypass_addresses :: "ip_addr list"
  tc_udp_timeout :: duration
  tc_udp_mapping :: nat_behavior
  tc_udp_filtering :: nat_behavior
  tc_udp_nat_max :: nat

section \<open>Parsers\<close>

definition parse_uid_range :: "string \<Rightarrow> (u32 \<times> u32) result" where
  "parse_uid_range v =
    bindr (with_context ''UID range is missing a colon'' (split_once CHR '':'' v)) (\<lambda>(start, stop).
    bindr (with_context ''invalid UID range start'' (parse_uint 32 start)) (\<lambda>start.
    bindr (with_context ''invalid UID range end'' (parse_uint 32 stop)) (\<lambda>stop.
    if start > stop then Inl (Bail ''UID range start exceeds end'')
    else Inr (word_of_nat start, word_of_nat stop))))"

definition parse_uid_ranges :: "string list \<Rightarrow> (u32 \<times> u32) list result" where
  "parse_uid_ranges vs = map_result parse_uid_range vs"

definition is_ascii_digit :: "char \<Rightarrow> bool" where
  "is_ascii_digit c \<longleftrightarrow> char_digit c \<noteq> None"

definition saturating_mul_u64 :: "nat \<Rightarrow> nat \<Rightarrow> nat" where
  "saturating_mul_u64 a b = min (a * b) (2 ^ 64 - 1)"

definition tun_parse_duration :: "string \<Rightarrow> duration result" where
  "tun_parse_duration v =
    (let digits = takeWhile is_ascii_digit v; unit = dropWhile is_ascii_digit v in
     bindr (with_context ''invalid duration'' (parse_uint 64 digits)) (\<lambda>amount.
     if unit = ''ms'' then Inr (from_millis amount)
     else if unit = ''s'' \<or> unit = '''' then Inr (from_secs amount)
     else if unit = ''m'' then Inr (from_secs (saturating_mul_u64 amount 60))
     else if unit = ''h'' then Inr (from_secs (saturating_mul_u64 amount 3600))
     else if unit = ''d'' then Inr (from_secs (saturating_mul_u64 amount 86400))
     else Inl (Bail ''unsupported duration unit'')))"

definition parse_update_interval :: "string \<Rightarrow> duration" where
  "parse_update_interval v =
    (let amount = (case parse_uint 64 (takeWhile is_ascii_digit v) of Some n \<Rightarrow> n | None \<Rightarrow> 60);
         unit = dropWhile is_ascii_digit v in
     if unit = ''ms'' then from_millis amount
     else if unit = ''s'' \<or> unit = '''' then from_secs amount
     else if unit = ''m'' then from_secs (saturating_mul_u64 amount 60)
     else if unit = ''h'' then from_secs (saturating_mul_u64 amount 3600)
     else if unit = ''d'' then from_secs (saturating_mul_u64 amount 86400)
     else from_secs 60)"

text \<open>\<open>u8::from_str_radix(part, 16)\<close>: an optional plus sign, then hexadecimal digits.\<close>

definition hex_digit :: "char \<Rightarrow> nat option" where
  "hex_digit c =
    (let b = unat (byte_of_char c) in
     if 48 \<le> b \<and> b \<le> 57 then Some (b - 48)
     else if 97 \<le> b \<and> b \<le> 102 then Some (b - 87)
     else if 65 \<le> b \<and> b \<le> 70 then Some (b - 55)
     else None)"

fun parse_hex_digits :: "nat \<Rightarrow> string \<Rightarrow> nat option" where
  "parse_hex_digits acc [] = Some acc"
| "parse_hex_digits acc (c # s) =
    (case hex_digit c of None \<Rightarrow> None | Some d \<Rightarrow> parse_hex_digits (acc * 16 + d) s)"

definition parse_hex_u8 :: "string \<Rightarrow> u8 option" where
  "parse_hex_u8 s =
    (let body = (case s of c # r \<Rightarrow> if c = CHR ''+'' then r else s | [] \<Rightarrow> s) in
     if body = [] then None
     else (case parse_hex_digits 0 body of
             None \<Rightarrow> None
           | Some v \<Rightarrow> if v < 256 then Some (word_of_nat v) else None))"

definition parse_mac :: "string \<Rightarrow> bytes result" where
  "parse_mac v =
    bindr (map_result (\<lambda>part. with_context ''invalid MAC octet'' (parse_hex_u8 part)) (split_on CHR '':'' v)) (\<lambda>octets.
    if length octets = 6 then Inr octets else Inl (Bail ''MAC address must contain six octets''))"

text \<open>The limit of NAT sessions by default: one for every 16 KiB of memory, within bounds.\<close>

definition mem_total :: "string \<Rightarrow> nat option" where
  "mem_total line =
    (case strip_prefix line ''MemTotal:'' of
       None \<Rightarrow> None
     | Some rest \<Rightarrow> (case split_whitespace rest of [] \<Rightarrow> None | number # _ \<Rightarrow> parse_uint 64 number))"

definition default_udp_nat_max :: "string option \<Rightarrow> nat" where
  "default_udp_nat_max meminfo =
    (case (case meminfo of None \<Rightarrow> None | Some text \<Rightarrow> find_map mem_total (lines text)) of
       None \<Rightarrow> 16384
     | Some kibibytes \<Rightarrow> max 4096 (min 16384 (saturating_mul_u64 kibibytes 1024 div 16384)))"

section \<open>Checks and construction\<close>

definition opt_or :: "'a option \<Rightarrow> 'a \<Rightarrow> 'a" where
  "opt_or v dflt = (case v of Some x \<Rightarrow> x | None \<Rightarrow> dflt)"

definition has_selectors :: "tun_inbound \<Rightarrow> bool" where
  "has_selectors t \<longleftrightarrow>
    ti_route_address t \<noteq> [] \<or> ti_route_exclude_address t \<noteq> [] \<or> ti_include_interface t \<noteq> [] \<or>
    ti_exclude_interface t \<noteq> [] \<or> ti_include_uid t \<noteq> [] \<or> ti_exclude_uid t \<noteq> [] \<or>
    ti_include_uid_range t \<noteq> [] \<or> ti_exclude_uid_range t \<noteq> []"

fun ensure_all :: "(bool \<times> string) list \<Rightarrow> unit result" where
  "ensure_all [] = Inr ()"
| "ensure_all ((b, msg) # cs) = bindr (ensure b msg) (\<lambda>_. ensure_all cs)"

definition tun_option_checks :: "tun_inbound \<Rightarrow> unit result" where
  "tun_option_checks t = ensure_all
    [(ti_type t = ''tun'', ''TUN configuration requires type=tun''),
     (ti_auto_redirect t \<longrightarrow> ti_auto_route t, ''TUN auto_redirect requires auto_route''),
     (ti_strict_route t \<longrightarrow> ti_auto_route t, ''TUN strict_route requires auto_route''),
     (has_selectors t \<longrightarrow> ti_auto_route t, ''TUN route/interface/UID selectors require auto_route''),
     (ti_include_interface t = [] \<or> ti_exclude_interface t = [],
      ''TUN include_interface and exclude_interface are mutually exclusive''),
     (ti_include_uid t = [] \<and> ti_include_uid_range t = [] \<or> ti_auto_redirect t,
      ''TUN include_uid requires auto_redirect so proxy-owned sockets can be marked for bypass''),
     (ti_include_mac_address t = [] \<and> ti_exclude_mac_address t = [] \<or> ti_auto_redirect t,
      ''TUN MAC filters require auto_redirect''),
     (ti_include_package t = [] \<and> ti_exclude_package t = [],
      ''TUN package filters are Android-only and unavailable on Linux''),
     (ti_include_android_user t = [], ''TUN include_android_user is Android-only and unavailable on Linux''),
     ((ti_dns_mode t = None \<or> ti_dns_mode t = Some ''disabled'') \<and> ti_dns_address t = [],
      ''TUN dns_mode/dns_address is not implemented; use route DNS hijack rules''),
     (ti_reset_mark t = None \<and> ti_nfqueue t = None \<and> ti_fallback_rule_index t = None,
      ''TUN NFQUEUE reset/fallback options do not apply to the native nftables mark path''),
     (\<not> ti_exclude_mptcp t, ''TUN exclude_mptcp is not implemented''),
     (ti_loopback_address t = [], ''TUN loopback_address remapping is not implemented''),
     (\<not> ti_platform t, ''TUN platform options are unavailable on native Linux''),
     (\<not> ti_gso t, ''deprecated TUN gso option is not implemented''),
     (\<not> ti_endpoint_independent_nat t,
      ''deprecated endpoint_independent_nat is not supported; use UDP mapping/filtering options''),
     (ti_netns t = None, ''TUN network namespace support is not implemented yet''),
     (ti_address t \<noteq> [], ''TUN inbound requires at least one address prefix''),
     (length (filter (\<lambda>p. \<not> net_v6 p) (ti_address t)) \<le> 1,
      ''TUN device currently accepts at most one IPv4 address''),
     (1280 \<le> opt_or (ti_mtu t) 9000, ''TUN mtu must be between 1280 and 65535''),
     (opt_or (ti_stack t) ''mixed'' \<in> {''mixed'', ''gvisor'', ''smoltcp''}, ''unsupported TUN stack''),
     (opt_or (ti_table_index t) 2022 \<noteq> 0 \<and> opt_or (ti_table_index t) 2022 \<notin> {253, 254, 255},
      ''TUN iproute2_table_index must be a non-reserved table number''),
     (unat (opt_or (ti_rule_index t) 9000) + 63 < 32766,
      ''TUN iproute2_rule_index leaves no room for managed rules'')]"

text \<open>The rules a family needs, counted as the checks count them.\<close>

definition family_rules :: "tun_inbound \<Rightarrow> bool \<Rightarrow> nat" where
  "family_rules t ipv6 =
    (let local_source_rules =
           (if ti_include_uid t = [] \<and> ti_include_uid_range t = []
            then length (filter (\<lambda>p. net_v6 p = ipv6) (ti_address t)) + 1
            else length (ti_include_uid t) + length (ti_include_uid_range t)) in
     length (filter (\<lambda>p. net_v6 p = ipv6) (ti_route_exclude_address t)) + length (ti_exclude_uid t) +
     length (ti_exclude_uid_range t) + length (ti_exclude_interface t) + 1 + local_source_rules +
     max (length (ti_include_interface t)) 1)"

definition tun_value_checks :: "tun_inbound \<Rightarrow> unit result" where
  "tun_value_checks t =
    (let input = opt_or (ti_input_mark t) 0x2023; output = opt_or (ti_output_mark t) 0x2024 in
     bindr (ensure_all
       [(family_rules t False \<le> 64, ''TUN auto_route selectors exceed the 64-rule managed priority window''),
        (family_rules t True \<le> 64, ''TUN auto_route selectors exceed the 64-rule managed priority window''),
        (input \<noteq> 0 \<and> output \<noteq> 0 \<and> input \<noteq> output,
         ''TUN auto_redirect input/output marks must be distinct and non-zero'')]) (\<lambda>_.
     bindr (map_result parse_mac (ti_include_mac_address t @ ti_exclude_mac_address t)) (\<lambda>_. Inr ())))"

definition from_inbound :: "string option \<Rightarrow> tun_inbound \<Rightarrow> tun_config result" where
  "from_inbound meminfo t =
    bindr (tun_option_checks t) (\<lambda>_.
    bindr (tun_value_checks t) (\<lambda>_.
    bindr (parse_uid_ranges (ti_include_uid_range t)) (\<lambda>include_uid_ranges.
    bindr (parse_uid_ranges (ti_exclude_uid_range t)) (\<lambda>exclude_uid_ranges.
    bindr (case ti_udp_timeout t of None \<Rightarrow> Inr (from_secs 300) | Some v \<Rightarrow> tun_parse_duration v) (\<lambda>udp_timeout.
    bindr (ensure (udp_timeout \<noteq> 0) ''TUN udp_timeout must be greater than zero'') (\<lambda>_.
    let udp_nat_max = (case unat (opt_or (ti_udp_nat_max t) 0) of 0 \<Rightarrow> default_udp_nat_max meminfo | n \<Rightarrow> n) in
    bindr (parse_nat_behavior (ti_udp_mapping t) ''udp_mapping'') (\<lambda>mapping.
    bindr (parse_nat_behavior (ti_udp_filtering t) ''udp_filtering'') (\<lambda>filtering.
    Inr \<lparr>tc_interface_name = opt_or (ti_interface_name t) ''xhttp0'',
         tc_mtu = opt_or (ti_mtu t) 9000,
         tc_addresses = ti_address t,
         tc_stack = opt_or (ti_stack t) ''mixed'',
         tc_auto_route = ti_auto_route t,
         tc_auto_redirect = ti_auto_redirect t,
         tc_strict_route = ti_strict_route t,
         tc_route_addresses = ti_route_address t,
         tc_route_exclude_addresses = ti_route_exclude_address t,
         tc_route_include_active = (ti_route_address t \<noteq> [] \<or> ti_route_address_set t \<noteq> []),
         tc_route_exclude_active = (ti_route_exclude_address t \<noteq> [] \<or> ti_route_exclude_address_set t \<noteq> []),
         tc_include_interfaces = ti_include_interface t,
         tc_exclude_interfaces = ti_exclude_interface t,
         tc_include_uids = ti_include_uid t,
         tc_exclude_uids = ti_exclude_uid t,
         tc_include_uid_ranges = include_uid_ranges,
         tc_exclude_uid_ranges = exclude_uid_ranges,
         tc_table_index = opt_or (ti_table_index t) 2022,
         tc_rule_index = opt_or (ti_rule_index t) 9000,
         tc_input_mark = opt_or (ti_input_mark t) 0x2023,
         tc_output_mark = opt_or (ti_output_mark t) 0x2024,
         tc_include_macs = ti_include_mac_address t,
         tc_exclude_macs = ti_exclude_mac_address t,
         tc_bypass_addresses = [],
         tc_udp_timeout = udp_timeout,
         tc_udp_mapping = mapping,
         tc_udp_filtering = filtering,
         tc_udp_nat_max = udp_nat_max\<rparr>))))))))"

end
