(* ===== verification/Tun_Routes.thy ===== *)
theory Tun_Routes
  imports Tun_Config Srs
begin

text \<open>
  The policy routing of a TUN inbound (\<^verbatim>\<open>src/src/tun_route_linux.rs\<close>): the plan of \<open>ip\<close> commands, its
  installation, replacement and removal. The text and the truncation of an \<open>IpNet\<close> are functions
  of the \<open>ipnet\<close> crate; running \<open>ip\<close> is a function on the state of the kernel, which gives
  \<open>None\<close> when the program cannot be started and otherwise its success and its standard error.
\<close>

section \<open>The plan\<close>

record ip_action =
  ia_family :: string
  ia_add :: "string list"
  ia_delete :: "string list"

definition new_action :: "string \<Rightarrow> string \<Rightarrow> string list \<Rightarrow> ip_action" where
  "new_action family object tail =
    \<lparr>ia_family = family, ia_add = [object, ''add''] @ tail, ia_delete = [object, ''del''] @ tail\<rparr>"

definition u32_text :: "u32 \<Rightarrow> string" where
  "u32_text n = nat_to_string (unat n)"

definition ip_route_action :: "(ip_net \<Rightarrow> string) \<Rightarrow> string \<Rightarrow> ip_net \<Rightarrow> string \<Rightarrow> u32 \<Rightarrow> ip_action" where
  "ip_route_action show_net family p interface table =
    new_action family ''route'' [show_net p, ''dev'', interface, ''table'', u32_text table]"

definition ip_rule_action :: "string \<Rightarrow> u32 \<Rightarrow> string list \<Rightarrow> ip_action" where
  "ip_rule_action family priority selectors =
    new_action family ''rule'' ([''priority'', u32_text priority] @ selectors)"

definition next_priority :: "u32 \<Rightarrow> u32 result" where
  "next_priority priority =
    (if unat priority + 1 < 2 ^ 32 \<and> unat priority + 1 < 32766 then Inr (priority + 1)
     else Inl (Bail ''TUN policy rule priority overflow''))"

text \<open>The loops of the plan: a rule for each selector, each with the next priority.\<close>

fun numbered_rules :: "string \<Rightarrow> u32 \<Rightarrow> string list list \<Rightarrow> (ip_action list \<times> u32) result" where
  "numbered_rules family priority [] = Inr ([], priority)"
| "numbered_rules family priority (selectors # rest) =
    bindr (next_priority priority) (\<lambda>following.
    bindr (numbered_rules family following rest) (\<lambda>(acts, final).
    Inr (ip_rule_action family priority selectors # acts, final)))"

definition uid_selector :: "u32 \<times> u32 \<Rightarrow> string list \<Rightarrow> string list" where
  "uid_selector uids target = [''uidrange'', u32_text (fst uids) @ ''-'' @ u32_text (snd uids)] @ target"

definition exclude_selectors :: "(ip_net \<Rightarrow> string) \<Rightarrow> tun_config \<Rightarrow> bool \<Rightarrow> string list list" where
  "exclude_selectors show_net c ipv6 =
    map (\<lambda>p. [''to'', show_net p, ''lookup'', ''main''])
      (filter (\<lambda>p. net_v6 p = ipv6) (tc_route_exclude_addresses c)) @
    map (\<lambda>uid. uid_selector (uid, uid) [''lookup'', ''main'']) (tc_exclude_uids c) @
    map (\<lambda>uids. uid_selector uids [''lookup'', ''main'']) (tc_exclude_uid_ranges c) @
    map (\<lambda>interface. [''iif'', interface, ''lookup'', ''main'']) (tc_exclude_interfaces c)"

definition source_selectors ::
  "(ip_net \<Rightarrow> string) \<Rightarrow> (ip_net \<Rightarrow> ip_net) \<Rightarrow> tun_config \<Rightarrow> bool \<Rightarrow> string list list" where
  "source_selectors show_net trunc c ipv6 =
    (let table = u32_text (tc_table_index c) in
     if tc_include_uids c = [] \<and> tc_include_uid_ranges c = [] then
       map (\<lambda>p. [''iif'', ''lo'', ''from'', show_net (trunc p), ''lookup'', table])
         (filter (\<lambda>p. net_v6 p = ipv6) (tc_addresses c)) @
       [[''iif'', ''lo'', ''from'', if ipv6 then ''::/128'' else ''0.0.0.0/32'', ''lookup'', table]]
     else
       map (\<lambda>uid. uid_selector (uid, uid) [''lookup'', table]) (tc_include_uids c) @
       map (\<lambda>uids. uid_selector uids [''lookup'', table]) (tc_include_uid_ranges c))"

definition redirect_rules :: "string \<Rightarrow> tun_config \<Rightarrow> ip_action list result" where
  "redirect_rules family c =
    (let i = tc_rule_index c in
     if unat i + 2 \<ge> 2 ^ 32 then Inl Panic
     else Inr
       [ip_rule_action family i
          [''fwmark'', ''0x'' @ hex_string (unat (tc_output_mark c)), ''goto'', u32_text (i + 2)],
        ip_rule_action family (i + 1)
          [''fwmark'', ''0x'' @ hex_string (unat (tc_input_mark c)), ''lookup'', u32_text (tc_table_index c)],
        ip_rule_action family (i + 2) [''nop'']])"

definition family_routes :: "tun_config \<Rightarrow> bool \<Rightarrow> ip_net list" where
  "family_routes c ipv6 =
    (let routes = filter (\<lambda>p. net_v6 p = ipv6) (tc_route_addresses c) in
     if routes = [] \<and> \<not> tc_route_include_active c then [if ipv6 then IpNet (V6 0) 0 else IpNet (V4 0) 0]
     else routes)"

definition build_family_actions ::
  "(ip_net \<Rightarrow> string) \<Rightarrow> (ip_net \<Rightarrow> ip_net) \<Rightarrow> tun_config \<Rightarrow> bool \<Rightarrow> ip_action list result" where
  "build_family_actions show_net trunc c ipv6 =
    (let family = (if ipv6 then ''-6'' else ''-4'');
         table = u32_text (tc_table_index c);
         routes = map (\<lambda>p. ip_route_action show_net family p (tc_interface_name c) (tc_table_index c))
           (family_routes c ipv6) in
     if tc_auto_redirect c then bindr (redirect_rules family c) (\<lambda>rules. Inr (routes @ rules))
     else
       bindr (numbered_rules family (tc_rule_index c)
         (exclude_selectors show_net c ipv6 @
          [[''lookup'', ''main'', ''suppress_prefixlength'', ''0'']] @
          source_selectors show_net trunc c ipv6)) (\<lambda>(rules, priority).
       if tc_include_interfaces c = [] then
         Inr (routes @ rules @ [ip_rule_action family priority [''not'', ''iif'', ''lo'', ''lookup'', table]])
       else
         bindr (numbered_rules family priority
           (map (\<lambda>interface. [''iif'', interface, ''lookup'', table]) (tc_include_interfaces c))) (\<lambda>(last_rules, _).
         Inr (routes @ rules @ last_rules))))"

definition build_actions ::
  "(ip_net \<Rightarrow> string) \<Rightarrow> (ip_net \<Rightarrow> ip_net) \<Rightarrow> tun_config \<Rightarrow> ip_action list result" where
  "build_actions show_net trunc c =
    (let has_v4 = list_ex (\<lambda>p. \<not> net_v6 p) (tc_addresses c); has_v6 = list_ex net_v6 (tc_addresses c) in
     bindr (if has_v4 then build_family_actions show_net trunc c False else Inr []) (\<lambda>v4.
     bindr (if has_v6 then build_family_actions show_net trunc c True else Inr []) (\<lambda>v6.
     Inr (v4 @ v6 @
       (if tc_strict_route c then
          (if has_v4 then [] else [ip_rule_action ''-4'' (tc_rule_index c) [''unreachable'']]) @
          (if has_v6 then [] else [ip_rule_action ''-6'' (tc_rule_index c) [''unreachable'']])
        else [])))))"

section \<open>Running the plan\<close>

type_synonym 'k ip_program = "string \<Rightarrow> string list \<Rightarrow> 'k \<Rightarrow> (bool \<times> bytes) option \<times> 'k"

definition run_ip :: "'k ip_program \<Rightarrow> string \<Rightarrow> string list \<Rightarrow> 'k \<Rightarrow> unit result \<times> 'k" where
  "run_ip ip family arguments k =
    (case ip family arguments k of
       (None, k') \<Rightarrow> (Inl (Bail ''execute iproute2''), k')
     | (Some (success, stderr), k') \<Rightarrow>
         (if success then Inr () else Inl (Bail (''iproute2 exited: '' @ trim (lossy stderr))), k'))"

definition already_gone :: "string \<Rightarrow> bool" where
  "already_gone message \<longleftrightarrow>
    contains message ''Cannot find device'' \<or> contains message ''No such process'' \<or>
    contains message ''No such file or directory'' \<or> contains message ''FIB table does not exist''"

definition run_ip_delete :: "'k ip_program \<Rightarrow> string \<Rightarrow> string list \<Rightarrow> 'k \<Rightarrow> unit result \<times> 'k" where
  "run_ip_delete ip family arguments k =
    (case ip family arguments k of
       (None, k') \<Rightarrow> (Inl (Bail ''execute iproute2 cleanup''), k')
     | (Some (success, stderr), k') \<Rightarrow>
         (let message = trim (lossy stderr) in
          if success \<or> already_gone message then Inr () else Inl (Bail (''iproute2 cleanup exited: '' @ message)), k'))"

fun delete_actions :: "'k ip_program \<Rightarrow> ip_action list \<Rightarrow> 'k \<Rightarrow> unit result \<times> 'k" where
  "delete_actions ip [] k = (Inr (), k)"
| "delete_actions ip (a # acts) k =
    (case run_ip_delete ip (ia_family a) (ia_delete a) k of
       (Inl e, k') \<Rightarrow> (Inl e, k')
     | (Inr _, k') \<Rightarrow> delete_actions ip acts k')"

text \<open>The actions that could be added, in order, and the error that stopped.\<close>

fun add_actions :: "'k ip_program \<Rightarrow> ip_action list \<Rightarrow> 'k \<Rightarrow> unit result \<times> ip_action list \<times> 'k" where
  "add_actions ip [] k = (Inr (), [], k)"
| "add_actions ip (a # acts) k =
    (case run_ip ip (ia_family a) (ia_add a) k of
       (Inl e, k') \<Rightarrow> (Inl e, [], k')
     | (Inr _, k') \<Rightarrow>
         (case add_actions ip acts k' of (outcome, installed, k'') \<Rightarrow> (outcome, a # installed, k'')))"

fun try_deletes :: "'k ip_program \<Rightarrow> ip_action list \<Rightarrow> 'k \<Rightarrow> 'k" where
  "try_deletes ip [] k = k"
| "try_deletes ip (a # acts) k = try_deletes ip acts (snd (run_ip_delete ip (ia_family a) (ia_delete a) k))"

fun try_adds :: "'k ip_program \<Rightarrow> ip_action list \<Rightarrow> 'k \<Rightarrow> 'k" where
  "try_adds ip [] k = k"
| "try_adds ip (a # acts) k = try_adds ip acts (snd (run_ip ip (ia_family a) (ia_add a) k))"

definition drop_routes :: "'k ip_program \<Rightarrow> ip_action list \<Rightarrow> 'k \<Rightarrow> 'k" where
  "drop_routes ip installed k = try_deletes ip (rev installed) k"

definition install_routes :: "'k ip_program \<Rightarrow> ip_action list result \<Rightarrow> 'k \<Rightarrow> ip_action list result \<times> 'k" where
  "install_routes ip plan k =
    (case plan of
       Inl e \<Rightarrow> (Inl e, k)
     | Inr acts \<Rightarrow>
        (case delete_actions ip (rev acts) k of
           (Inl e, k') \<Rightarrow> (Inl e, k')
         | (Inr _, k') \<Rightarrow>
            (case add_actions ip acts k' of
               (Inl e, installed, k'') \<Rightarrow> (Inl e, drop_routes ip installed k'')
             | (Inr _, installed, k'') \<Rightarrow> (Inr installed, k''))))"

definition replace_routes ::
  "'k ip_program \<Rightarrow> ip_action list result \<Rightarrow> ip_action list \<Rightarrow> 'k \<Rightarrow> unit result \<times> ip_action list \<times> 'k" where
  "replace_routes ip plan installed k =
    (case plan of
       Inl e \<Rightarrow> (Inl e, installed, k)
     | Inr following \<Rightarrow>
        (let removed = filter (\<lambda>a. a \<notin> set following) installed;
             added = filter (\<lambda>a. a \<notin> set installed) following in
         case delete_actions ip (rev removed) k of
           (Inl e, k') \<Rightarrow> (Inl e, installed, k')
         | (Inr _, k') \<Rightarrow>
            (case add_actions ip added k' of
               (Inl e, installed_added, k'') \<Rightarrow>
                 (Inl (Bail ''replace TUN rule-set routes''), installed,
                  try_adds ip removed (try_deletes ip (rev installed_added) k''))
             | (Inr _, _, k'') \<Rightarrow> (Inr (), following, k''))))"

text \<open>The life of the guard: installation, any number of replacements, and its drop.\<close>

fun replace_all :: "'k ip_program \<Rightarrow> ip_action list result list \<Rightarrow> ip_action list \<Rightarrow> 'k \<Rightarrow> ip_action list \<times> 'k" where
  "replace_all ip [] installed k = (installed, k)"
| "replace_all ip (plan # plans) installed k =
    (case replace_routes ip plan installed k of (_, installed', k') \<Rightarrow> replace_all ip plans installed' k')"

definition route_guard_life :: "'k ip_program \<Rightarrow> ip_action list result \<Rightarrow> ip_action list result list \<Rightarrow> 'k \<Rightarrow> 'k" where
  "route_guard_life ip plan plans k =
    (case install_routes ip plan k of
       (Inl _, k') \<Rightarrow> k'
     | (Inr installed, k') \<Rightarrow> (case replace_all ip plans installed k' of (installed', k'') \<Rightarrow> drop_routes ip installed' k''))"

section \<open>What the kernel holds\<close>

text \<open>
  What is assumed of \<open>ip\<close> and the kernel, whose rules and routes are a set of entries: \<open>add\<close> puts in
  its entry when it succeeds and nothing otherwise, \<open>del\<close> takes out its entry and succeeds when
  the entry is there.
\<close>

type_synonym ip_entry = "string \<times> string list"

definition action_entry :: "ip_action \<Rightarrow> ip_entry" where
  "action_entry a = (ia_family a, hd (ia_add a) # drop 2 (ia_add a))"

definition wf_action :: "ip_action \<Rightarrow> bool" where
  "wf_action a \<longleftrightarrow> (\<exists>family object tail. a = new_action family object tail)"

definition ip_lawful :: "'k ip_program \<Rightarrow> ('k \<Rightarrow> ip_entry set) \<Rightarrow> bool" where
  "ip_lawful ip table \<longleftrightarrow>
    (\<forall>family object tail k.
      (case ip family (object # ''add'' # tail) k of
         (Some (True, _), k') \<Rightarrow> table k' = insert (family, object # tail) (table k)
       | (_, k') \<Rightarrow> table k' = table k) \<and>
      (case ip family (object # ''del'' # tail) k of
         (Some (True, _), k') \<Rightarrow> table k' = table k - {(family, object # tail)}
       | (_, k') \<Rightarrow> table k' = table k \<and> (family, object # tail) \<notin> table k))"

definition plan_entries :: "ip_action list result \<Rightarrow> ip_entry set" where
  "plan_entries plan = (case plan of Inl _ \<Rightarrow> {} | Inr acts \<Rightarrow> action_entry ` set acts)"

lemma wf_new_action [simp]: "wf_action (new_action family object tail)"
  by (auto simp: wf_action_def)

lemma wf_action_entry:
  assumes "wf_action a"
  obtains object tail where "ia_add a = object # ''add'' # tail" and "ia_delete a = object # ''del'' # tail"
    and "action_entry a = (ia_family a, object # tail)"
  using assms that by (auto simp: wf_action_def new_action_def action_entry_def)

lemma action_entry_inj: "wf_action a \<Longrightarrow> wf_action b \<Longrightarrow> action_entry a = action_entry b \<Longrightarrow> a = b"
  by (auto simp: wf_action_def new_action_def action_entry_def)

lemma run_ip_table:
  assumes "ip_lawful ip table" and "wf_action a" and "run_ip ip (ia_family a) (ia_add a) k = (out, k')"
  shows "table k' = (case out of Inr _ \<Rightarrow> insert (action_entry a) (table k) | Inl _ \<Rightarrow> table k)"
proof -
  obtain object tail where a: "ia_add a = object # ''add'' # tail" "action_entry a = (ia_family a, object # tail)"
    using wf_action_entry [OF assms(2)] .
  have "case ip (ia_family a) (object # ''add'' # tail) k of
         (Some (True, _), k') \<Rightarrow> table k' = insert (ia_family a, object # tail) (table k)
       | (_, k') \<Rightarrow> table k' = table k"
    by (rule assms(1) [unfolded ip_lawful_def, THEN spec, THEN spec, THEN spec, THEN spec, THEN conjunct1])
  moreover obtain res k1 where r: "ip (ia_family a) (ia_add a) k = (res, k1)" by fastforce
  ultimately show ?thesis
    using assms(3) a by (cases res) (auto simp: run_ip_def Let_def split: if_splits)
qed

lemma run_ip_delete_table:
  assumes "ip_lawful ip table" and "wf_action a" and "run_ip_delete ip (ia_family a) (ia_delete a) k = (out, k')"
  shows "table k' = table k - {action_entry a}"
proof -
  obtain object tail where a: "ia_delete a = object # ''del'' # tail" "action_entry a = (ia_family a, object # tail)"
    using wf_action_entry [OF assms(2)] .
  have "case ip (ia_family a) (object # ''del'' # tail) k of
         (Some (True, _), k') \<Rightarrow> table k' = table k - {(ia_family a, object # tail)}
       | (_, k') \<Rightarrow> table k' = table k \<and> (ia_family a, object # tail) \<notin> table k"
    by (rule assms(1) [unfolded ip_lawful_def, THEN spec, THEN spec, THEN spec, THEN spec, THEN conjunct2])
  moreover obtain res k1 where r: "ip (ia_family a) (ia_delete a) k = (res, k1)" by fastforce
  ultimately show ?thesis
    using assms(3) a by (cases res) (auto simp: run_ip_delete_def Let_def split: if_splits bool.splits)
qed

lemma delete_actions_table:
  assumes "ip_lawful ip table" and "list_all wf_action acts" and "delete_actions ip acts k = (out, k')"
  shows "table k' \<subseteq> table k \<and> table k - action_entry ` set acts \<subseteq> table k' \<and>
    (out = Inr () \<longrightarrow> table k' = table k - action_entry ` set acts)"
  using assms(2,3)
proof (induction acts arbitrary: k)
  case (Cons a acts)
  obtain first k1 where r: "run_ip_delete ip (ia_family a) (ia_delete a) k = (first, k1)" by fastforce
  have k1: "table k1 = table k - {action_entry a}"
    using run_ip_delete_table [OF assms(1) _ r] Cons.prems by simp
  show ?case
  proof (cases first)
    case (Inl e)
    with r Cons.prems k1 show ?thesis by auto
  next
    case (Inr u)
    with r Cons.prems have "delete_actions ip acts k1 = (out, k')" "list_all wf_action acts" by auto
    from Cons.IH [OF this(2,1)] k1 show ?thesis by auto
  qed
qed simp

lemma try_deletes_table:
  assumes "ip_lawful ip table" and "list_all wf_action acts"
  shows "table (try_deletes ip acts k) = table k - action_entry ` set acts"
  using assms(2)
proof (induction acts arbitrary: k)
  case (Cons a acts)
  obtain out k' where r: "run_ip_delete ip (ia_family a) (ia_delete a) k = (out, k')" by fastforce
  with Cons run_ip_delete_table [OF assms(1) _ r] show ?case by auto
qed simp

lemma try_adds_table:
  assumes "ip_lawful ip table" and "list_all wf_action acts"
  shows "table k \<subseteq> table (try_adds ip acts k)" and "table (try_adds ip acts k) \<subseteq> table k \<union> action_entry ` set acts"
proof -
  have "table k \<subseteq> table (try_adds ip acts k) \<and> table (try_adds ip acts k) \<subseteq> table k \<union> action_entry ` set acts"
    using assms(2)
  proof (induction acts arbitrary: k)
    case (Cons a acts)
    obtain out k' where r: "run_ip ip (ia_family a) (ia_add a) k = (out, k')" by fastforce
    have "table k' = table k \<or> table k' = insert (action_entry a) (table k)"
      using run_ip_table [OF assms(1) _ r] Cons.prems by (auto split: sum.splits)
    with Cons.IH [of k'] Cons.prems r show ?case by auto
  qed simp
  then show "table k \<subseteq> table (try_adds ip acts k)" "table (try_adds ip acts k) \<subseteq> table k \<union> action_entry ` set acts"
    by simp_all
qed

lemma add_actions_table:
  assumes "ip_lawful ip table" and "list_all wf_action acts" and "add_actions ip acts k = (out, installed, k')"
  shows "table k' = table k \<union> action_entry ` set installed \<and> set installed \<subseteq> set acts \<and>
    (out = Inr () \<longrightarrow> installed = acts)"
  using assms(2,3)
proof (induction acts arbitrary: k out installed k')
  case (Cons a acts)
  obtain first k1 where r: "run_ip ip (ia_family a) (ia_add a) k = (first, k1)" by fastforce
  show ?case
  proof (cases first)
    case (Inl e)
    have "table k1 = table k" using run_ip_table [OF assms(1) _ r] Inl Cons.prems by simp
    with Inl r Cons.prems(2) show ?thesis by auto
  next
    case (Inr u)
    obtain out' inst k2 where rest: "add_actions ip acts k1 = (out', inst, k2)" by (metis prod_cases3)
    have k1: "table k1 = insert (action_entry a) (table k)"
      using run_ip_table [OF assms(1) _ r] Inr Cons.prems by simp
    have eq: "out = out'" "installed = a # inst" "k' = k2" using Cons.prems(2) r Inr rest by auto
    from Cons.IH [OF _ rest] Cons.prems(1) k1 show ?thesis unfolding eq by auto
  qed
qed simp

section \<open>The plan is well formed\<close>

lemma numbered_rules_wf:
  "numbered_rules family priority selectors = Inr (acts, final) \<Longrightarrow> list_all wf_action acts"
  by (induction selectors arbitrary: priority acts final)
    (auto simp: bindr_Inr_iff ip_rule_action_def)

lemma build_family_wf:
  "build_family_actions show_net trunc c ipv6 = Inr acts \<Longrightarrow> list_all wf_action acts"
  by (auto simp: build_family_actions_def redirect_rules_def Let_def bindr_Inr_iff ip_rule_action_def ip_route_action_def
      list_all_iff [of _ "map _ _"] dest: numbered_rules_wf split: if_splits)

lemma build_actions_wf: "build_actions show_net trunc c = Inr acts \<Longrightarrow> list_all wf_action acts"
  by (auto simp: build_actions_def Let_def bindr_Inr_iff ip_rule_action_def dest: build_family_wf split: if_splits)

section \<open>Installation, replacement and removal\<close>

abbreviation entries :: "ip_action list \<Rightarrow> ip_entry set" where
  "entries acts \<equiv> action_entry ` set acts"

lemma install_routes_table:
  assumes "ip_lawful ip table" and "\<And>acts. plan = Inr acts \<Longrightarrow> list_all wf_action acts"
    and "install_routes ip plan k = (out, k')"
  shows "case out of
      Inl _ \<Rightarrow> table k' \<subseteq> table k \<and> table k - plan_entries plan \<subseteq> table k'
    | Inr installed \<Rightarrow> plan = Inr installed \<and> table k' = table k \<union> entries installed"
proof (cases plan)
  case (Inr acts)
  note wf = assms(2) [OF Inr]
  obtain gone k1 where d: "delete_actions ip (rev acts) k = (gone, k1)" by fastforce
  have k1: "table k1 \<subseteq> table k" "table k - entries acts \<subseteq> table k1"
      "gone = Inr () \<Longrightarrow> table k1 = table k - entries acts"
    using delete_actions_table [OF assms(1) _ d] wf by auto
  obtain added inst k2 where a: "add_actions ip acts k1 = (added, inst, k2)" by (metis prod_cases3)
  note k2 = add_actions_table [OF assms(1) wf a]
  have wf': "list_all wf_action (rev inst)" using k2 wf by (auto simp: list_all_iff)
  note undo = try_deletes_table [OF assms(1) wf', of k2]
  show ?thesis
  proof (cases gone)
    case (Inl e)
    with Inr d assms(3) k1 show ?thesis by (auto simp: install_routes_def plan_entries_def)
  next
    case gone: (Inr u)
    show ?thesis
    proof (cases added)
      case (Inl e)
      with gone Inr d a assms(3) have "out = Inl e" "k' = try_deletes ip (rev inst) k2"
        by (auto simp: install_routes_def drop_routes_def)
      with undo k2 k1 Inr show ?thesis by (auto simp: plan_entries_def)
    next
      case (Inr v)
      with gone \<open>plan = Inr acts\<close> d a assms(3) k1(3) k2 show ?thesis by (auto simp: install_routes_def)
    qed
  qed
qed (use assms(3) in \<open>auto simp: install_routes_def\<close>)

lemma rollback_sets:
  "T4 \<subseteq> T3 \<union> R \<Longrightarrow> T3 \<subseteq> T4 \<Longrightarrow> T3 = T2 - I \<Longrightarrow> T2 = T1 \<union> I \<Longrightarrow> T1 \<subseteq> T \<Longrightarrow> T - R \<subseteq> T1 \<Longrightarrow>
    I \<subseteq> F \<Longrightarrow> R \<subseteq> N \<Longrightarrow> T4 \<subseteq> T \<union> N \<and> T - (F \<union> N) \<subseteq> T4"
  by blast

lemma replaced_sets:
  "T' = (T - R) \<union> A \<Longrightarrow> N \<subseteq> R \<union> F \<Longrightarrow> A \<subseteq> F \<Longrightarrow> R \<subseteq> N \<Longrightarrow> T \<subseteq> T0 \<union> N \<Longrightarrow>
    T' \<subseteq> T0 \<union> F \<and> T - (F \<union> N) \<subseteq> T'"
  by blast

lemma replace_routes_table:
  assumes "ip_lawful ip table" and "\<And>acts. plan = Inr acts \<Longrightarrow> list_all wf_action acts"
    and wf: "list_all wf_action installed" and "replace_routes ip plan installed k = (out, installed', k')"
    and "table k \<subseteq> foreign \<union> entries installed"
  shows "table k' \<subseteq> foreign \<union> entries installed' \<and>
    table k - (plan_entries plan \<union> entries installed) \<subseteq> table k' \<and>
    list_all wf_action installed' \<and> entries installed' \<subseteq> plan_entries plan \<union> entries installed"
proof (cases plan)
  case (Inr following)
  let ?removed = "filter (\<lambda>a. a \<notin> set following) installed"
  let ?added = "filter (\<lambda>a. a \<notin> set installed) following"
  note wf_next = assms(2) [OF Inr]
  have wfs: "list_all wf_action (rev ?removed)" "list_all wf_action ?removed" "list_all wf_action ?added"
    using wf wf_next by (auto simp: list_all_iff)
  obtain gone k1 where d: "delete_actions ip (rev ?removed) k = (gone, k1)" by fastforce
  have k1: "table k1 \<subseteq> table k" "table k - entries ?removed \<subseteq> table k1"
      "gone = Inr () \<Longrightarrow> table k1 = table k - entries ?removed"
    using delete_actions_table [OF assms(1) wfs(1) d] by auto
  obtain added inst k2 where a: "add_actions ip ?added k1 = (added, inst, k2)" by (metis prod_cases3)
  note k2 = add_actions_table [OF assms(1) wfs(3) a]
  have wf': "list_all wf_action (rev inst)" using k2 wfs(3) by (auto simp: list_all_iff)
  let ?k3 = "try_deletes ip (rev inst) k2"
  note k3 = try_deletes_table [OF assms(1) wf', of k2]
  note k4 = try_adds_table [OF assms(1) wfs(2), of ?k3]
  have k2': "table k2 = table k1 \<union> entries inst" and k3': "table ?k3 = table k2 - entries inst"
    using k2 k3 by simp_all
  have sub: "entries inst \<subseteq> entries following" "entries ?removed \<subseteq> entries installed"
    using k2 by auto
  show ?thesis
  proof (cases gone)
    case (Inl e)
    with Inr d assms(3-5) k1 show ?thesis by (auto simp: replace_routes_def Let_def plan_entries_def)
  next
    case gone: (Inr u)
    show ?thesis
    proof (cases added)
      case (Inl e)
      then have out: "installed' = installed" "k' = try_adds ip ?removed ?k3"
        using gone Inr d a assms(4) by (auto simp: replace_routes_def Let_def)
      have "table k' \<subseteq> table k \<union> entries installed" "table k - (entries following \<union> entries installed) \<subseteq> table k'"
        unfolding out using rollback_sets [OF k4(2,1) k3' k2' k1(1,2) sub] by simp_all
      with out assms(3,5) Inr show ?thesis by (auto simp: plan_entries_def)
    next
      case added: (Inr v)
      then have out: "installed' = following" "k' = k2" "inst = ?added"
        using gone Inr d a assms(4) k2 by (auto simp: replace_routes_def Let_def)
      have new: "table k2 = (table k - entries ?removed) \<union> entries ?added" using gone k1(3) k2 out(3) by simp
      have parts: "entries installed \<subseteq> entries ?removed \<union> entries following" "entries ?added \<subseteq> entries following"
        by auto
      have "table k2 \<subseteq> foreign \<union> entries following \<and> table k - (entries following \<union> entries installed) \<subseteq> table k2"
        by (rule replaced_sets [OF new parts sub(2) assms(5)])
      then show ?thesis using Inr wf_next unfolding out plan_entries_def by simp
    qed
  qed
qed (use assms in \<open>auto simp: replace_routes_def plan_entries_def\<close>)

lemma replace_all_table:
  assumes "ip_lawful ip table" and "\<And>plan acts. plan \<in> set plans \<Longrightarrow> plan = Inr acts \<Longrightarrow> list_all wf_action acts"
    and "list_all wf_action installed" and "replace_all ip plans installed k = (installed', k')"
    and "table k \<subseteq> foreign \<union> entries installed"
  shows "table k' \<subseteq> foreign \<union> entries installed' \<and>
    table k - (\<Union> (plan_entries ` set plans) \<union> entries installed) \<subseteq> table k' \<and>
    list_all wf_action installed' \<and> entries installed' \<subseteq> \<Union> (plan_entries ` set plans) \<union> entries installed"
  using assms(2-5)
proof (induction plans arbitrary: installed k)
  case (Cons plan plans)
  obtain out inst1 k1 where r: "replace_routes ip plan installed k = (out, inst1, k1)" by (metis prod_cases3)
  note one = replace_routes_table [OF assms(1) _ Cons.prems(2) r Cons.prems(4)]
  have "table k1 \<subseteq> foreign \<union> entries inst1" "table k - (plan_entries plan \<union> entries installed) \<subseteq> table k1"
      "list_all wf_action inst1" "entries inst1 \<subseteq> plan_entries plan \<union> entries installed"
    using one Cons.prems(1) by auto
  moreover have "replace_all ip plans inst1 k1 = (installed', k')" using Cons.prems(3) r by simp
  ultimately have rest: "table k' \<subseteq> foreign \<union> entries installed'"
      "table k1 - (\<Union> (plan_entries ` set plans) \<union> entries inst1) \<subseteq> table k'"
      "list_all wf_action installed'" "entries installed' \<subseteq> \<Union> (plan_entries ` set plans) \<union> entries inst1"
    using Cons.IH [of inst1 k1] Cons.prems(1) by auto
  show ?case
  proof (intro conjI)
    show "table k - (\<Union> (plan_entries ` set (plan # plans)) \<union> entries installed) \<subseteq> table k'"
      using rest(2) \<open>table k - _ \<subseteq> table k1\<close> \<open>entries inst1 \<subseteq> _\<close> by auto
    show "entries installed' \<subseteq> \<Union> (plan_entries ` set (plan # plans)) \<union> entries installed"
      using rest(4) \<open>entries inst1 \<subseteq> _\<close> by auto
  qed (use rest in simp_all)
qed auto

text \<open>
  C38. Whatever commands fail, the routing guard leaves nothing behind and touches nothing foreign:
  after installation, any sequence of replacements and the drop, on a kernel whose deletions work,
  the rules and routes are among those that were there before, and all of those are still there
  that no plan names. Additions may fail at any point; then the code rolls back.
\<close>

theorem tun_routes_restored:
  assumes "ip_lawful ip table"
  shows "table (route_guard_life ip (build_actions show_net trunc c) (map (build_actions show_net trunc) cs) k) \<subseteq> table k \<and>
    table k - \<Union> ((\<lambda>c. plan_entries (build_actions show_net trunc c)) ` set (c # cs)) \<subseteq>
      table (route_guard_life ip (build_actions show_net trunc c) (map (build_actions show_net trunc) cs) k)"
proof -
  let ?plan = "build_actions show_net trunc c" and ?plans = "map (build_actions show_net trunc) cs"
  obtain out k1 where i: "install_routes ip ?plan k = (out, k1)" by fastforce
  have "list_all wf_action acts" if "?plan = Inr acts" for acts using build_actions_wf [OF that] .
  note inst = install_routes_table [OF assms this i]
  show ?thesis
  proof (cases out)
    case (Inl e)
    with inst i show ?thesis by (auto simp: route_guard_life_def)
  next
    case (Inr installed)
    with inst have p: "?plan = Inr installed" and k1: "table k1 = table k \<union> entries installed" by simp_all
    have wf: "list_all wf_action installed" using build_actions_wf [OF p] .
    obtain installed' k2 where r: "replace_all ip ?plans installed k1 = (installed', k2)" by fastforce
    have wf_plans: "list_all wf_action acts" if "plan \<in> set ?plans" "plan = Inr acts" for plan acts
      using that build_actions_wf by auto
    have all: "table k2 \<subseteq> table k \<union> entries installed'"
        "table k1 - (\<Union> (plan_entries ` set ?plans) \<union> entries installed) \<subseteq> table k2"
        "list_all wf_action installed'" "entries installed' \<subseteq> \<Union> (plan_entries ` set ?plans) \<union> entries installed"
      using replace_all_table [OF assms wf_plans wf r, where foreign = "table k"] k1 by simp_all
    have end_state: "table (drop_routes ip installed' k2) = table k2 - entries installed'"
      using try_deletes_table [OF assms, of "rev installed'" k2] all(3) by (simp add: drop_routes_def)
    have life: "route_guard_life ip ?plan ?plans k = drop_routes ip installed' k2"
      using i r Inr by (simp add: route_guard_life_def)
    have entries: "plan_entries ?plan = entries installed" by (simp add: p plan_entries_def)
    show ?thesis
      unfolding life end_state using all(1,2,4) k1 entries by auto
  qed
qed

text \<open>A kernel that refuses an entry it has and a deletion of one it does not have.\<close>

definition set_kernel :: "ip_entry set ip_program" where
  "set_kernel family arguments k =
    (case arguments of
       object # verb # tail \<Rightarrow>
         let e = (family, object # tail) in
         if verb = ''add'' \<and> e \<notin> k then (Some (True, []), insert e k)
         else if verb = ''del'' \<and> e \<in> k then (Some (True, []), k - {e})
         else (Some (False, as_bytes ''No such process''), k)
     | _ \<Rightarrow> (None, k))"

definition example_tun_config :: tun_config where
  "example_tun_config =
    \<lparr>tc_interface_name = ''xhttp0'', tc_mtu = 9000, tc_addresses = [IpNet (V4 1) 30], tc_stack = ''mixed'',
     tc_auto_route = True, tc_auto_redirect = False, tc_strict_route = False, tc_route_addresses = [],
     tc_route_exclude_addresses = [], tc_route_include_active = False, tc_route_exclude_active = False,
     tc_include_interfaces = [], tc_exclude_interfaces = [], tc_include_uids = [], tc_exclude_uids = [],
     tc_include_uid_ranges = [], tc_exclude_uid_ranges = [], tc_table_index = 2022, tc_rule_index = 9000,
     tc_input_mark = 0x2023, tc_output_mark = 0x2024, tc_include_macs = [], tc_exclude_macs = [],
     tc_bypass_addresses = [], tc_udp_timeout = from_secs 300, tc_udp_mapping = EndpointIndependent,
     tc_udp_filtering = EndpointIndependent, tc_udp_nat_max = 16384\<rparr>"

lemma set_kernel_lawful: "ip_lawful set_kernel (\<lambda>k. k)"
  by (simp add: ip_lawful_def set_kernel_def Let_def)

theorem tun_routes_restored_witness:
  "route_guard_life set_kernel (build_actions (\<lambda>_. ''net'') (\<lambda>p. p) example_tun_config)
    [build_actions (\<lambda>_. ''net'') (\<lambda>p. p) (example_tun_config\<lparr>tc_strict_route := True\<rparr>)] {} = {}"
  using tun_routes_restored [OF set_kernel_lawful, of "\<lambda>_. ''net''" "\<lambda>p. p" example_tun_config
      "[example_tun_config\<lparr>tc_strict_route := True\<rparr>]" "{}"] by simp

section \<open>Accepted configurations have a plan\<close>

lemma next_priority_room:
  "unat p + 1 < 32766 \<Longrightarrow> next_priority p = Inr (p + 1) \<and> unat (p + 1) = unat p + 1"
  by (simp add: next_priority_def unat_word_ariths)

lemma numbered_rules_room:
  assumes "unat p + length selectors < 32766"
  shows "\<exists>acts final. numbered_rules family p selectors = Inr (acts, final) \<and> unat final = unat p + length selectors"
  using assms
proof (induction selectors arbitrary: p)
  case (Cons sel selectors)
  then have step: "next_priority p = Inr (p + 1)" "unat (p + 1) = unat p + 1"
    using next_priority_room [of p] by simp_all
  with Cons.IH [of "p + 1"] Cons.prems show ?case by auto
qed simp

lemma numbered_rules_full:
  assumes "selectors \<noteq> []" and "unat p + length selectors \<ge> 32766"
  shows "numbered_rules family p selectors = Inl (Bail ''TUN policy rule priority overflow'')"
  using assms
proof (induction selectors arbitrary: p)
  case (Cons sel selectors)
  show ?case
  proof (cases "unat p + 1 < 32766")
    case True
    then have step: "next_priority p = Inr (p + 1)" "unat (p + 1) = unat p + 1"
      using next_priority_room by blast+
    with Cons.IH [of "p + 1"] Cons.prems True show ?thesis by (cases selectors) auto
  qed (simp add: next_priority_def)
qed simp

lemma map_result_length: "map_result f xs = Inr ys \<Longrightarrow> length ys = length xs"
  by (auto simp: map_result_Inr_iff dest: list_all2_lengthD)

lemma ensure_all_Inr: "ensure_all cs = Inr u \<longleftrightarrow> list_all fst cs"
  by (induction cs) (auto simp: bindr_Inr_iff ensure_def split: if_splits)

text \<open>What the checks give about the numbers the plan depends on.\<close>

lemma from_inbound_facts:
  assumes "from_inbound meminfo t = Inr c"
  shows "unat (tc_rule_index c) + 63 < 32766" and "family_rules t ipv6 \<le> 64"
    and "tc_rule_index c = opt_or (ti_rule_index t) 9000"
    and "tc_addresses c = ti_address t" and "tc_route_exclude_addresses c = ti_route_exclude_address t"
    and "tc_include_interfaces c = ti_include_interface t" and "tc_exclude_interfaces c = ti_exclude_interface t"
    and "tc_include_uids c = ti_include_uid t" and "tc_exclude_uids c = ti_exclude_uid t"
    and "length (tc_include_uid_ranges c) = length (ti_include_uid_range t)"
    and "length (tc_exclude_uid_ranges c) = length (ti_exclude_uid_range t)"
proof -
  have checks: "tun_option_checks t = Inr ()" "tun_value_checks t = Inr ()"
    using assms by (auto simp: from_inbound_def bindr_Inr_iff)
  have "unat (opt_or (ti_rule_index t) 9000) + 63 < 32766"
    using checks(1) unfolding tun_option_checks_def ensure_all_Inr list.pred_inject fst_conv by blast
  moreover have "family_rules t False \<le> 64" "family_rules t True \<le> 64"
    using checks(2) unfolding tun_value_checks_def Let_def bindr_Inr_iff ensure_all_Inr list.pred_inject fst_conv by blast+
  moreover show "tc_rule_index c = opt_or (ti_rule_index t) 9000"
    and "tc_addresses c = ti_address t" and "tc_route_exclude_addresses c = ti_route_exclude_address t"
    and "tc_include_interfaces c = ti_include_interface t" and "tc_exclude_interfaces c = ti_exclude_interface t"
    and "tc_include_uids c = ti_include_uid t" and "tc_exclude_uids c = ti_exclude_uid t"
    and "length (tc_include_uid_ranges c) = length (ti_include_uid_range t)"
    and "length (tc_exclude_uid_ranges c) = length (ti_exclude_uid_range t)"
    using assms by (auto simp: from_inbound_def bindr_Inr_iff Let_def parse_uid_ranges_def dest!: map_result_length)
  ultimately show "unat (tc_rule_index c) + 63 < 32766" and "family_rules t ipv6 \<le> 64"
    by (cases ipv6; simp)+
qed

lemma selectors_counted:
  assumes "from_inbound meminfo t = Inr c"
  shows "length (exclude_selectors show_net c ipv6) + 1 + length (source_selectors show_net trunc c ipv6) +
    max (length (ti_include_interface t)) 1 = family_rules t ipv6"
  using from_inbound_facts [OF assms]
  by (auto simp: exclude_selectors_def source_selectors_def family_rules_def Let_def)

lemma family_plan:
  assumes c: "from_inbound meminfo t = Inr c"
    and room: "ti_include_interface t = [] \<or> unat (tc_rule_index c) + 64 < 32766"
  shows "\<exists>acts. build_family_actions show_net trunc c ipv6 = Inr acts"
proof (cases "tc_auto_redirect c")
  case True
  with from_inbound_facts(1) [OF c] show ?thesis
    by (simp add: build_family_actions_def redirect_rules_def Let_def)
next
  case False
  let ?sel = "exclude_selectors show_net c ipv6 @ [[''lookup'', ''main'', ''suppress_prefixlength'', ''0'']] @
    source_selectors show_net trunc c ipv6"
  let ?fam = "if ipv6 then ''-6'' else ''-4''"
  have count: "length ?sel + max (length (ti_include_interface t)) 1 \<le> 64"
    using selectors_counted [OF c, of show_net ipv6 trunc] from_inbound_facts(2) [OF c, of ipv6]
    by (simp del: length_0_conv)
  have "unat (tc_rule_index c) + length ?sel < 32766"
    using count from_inbound_facts(1) [OF c] by simp
  from numbered_rules_room [OF this] obtain acts final where
    first: "numbered_rules ?fam (tc_rule_index c) ?sel = Inr (acts, final)"
      "unat final = unat (tc_rule_index c) + length ?sel" by blast
  show ?thesis
  proof (cases "tc_include_interfaces c = []")
    case True
    with first(1) False show ?thesis by (simp add: build_family_actions_def Let_def)
  next
    case interfaces: False
    let ?ifs = "map (\<lambda>interface. [''iif'', interface, ''lookup'', u32_text (tc_table_index c)]) (tc_include_interfaces c)"
    have "unat final + length ?ifs < 32766"
      using first(2) count room interfaces from_inbound_facts(6) [OF c] by simp
    from numbered_rules_room [OF this, of ?fam] first(1) False interfaces show ?thesis
      by (auto simp: build_family_actions_def Let_def)
  qed
qed


definition example_tun_inbound :: tun_inbound where
  "example_tun_inbound =
    \<lparr>ti_type = ''tun'', ti_interface_name = None, ti_netns = None, ti_mtu = None, ti_address = [IpNet (V4 1) 30],
     ti_dns_mode = None, ti_dns_address = [], ti_stack = None, ti_auto_route = True, ti_auto_redirect = False,
     ti_input_mark = None, ti_output_mark = None, ti_reset_mark = None, ti_nfqueue = None,
     ti_fallback_rule_index = None, ti_exclude_mptcp = False, ti_loopback_address = [], ti_strict_route = False,
     ti_table_index = None, ti_rule_index = None, ti_route_address = [], ti_route_address_set = [],
     ti_route_exclude_address = [], ti_route_exclude_address_set = [], ti_include_interface = [],
     ti_exclude_interface = [], ti_include_uid = [], ti_include_uid_range = [], ti_exclude_uid = [],
     ti_exclude_uid_range = [], ti_include_package = [], ti_exclude_package = [], ti_include_android_user = [],
     ti_include_mac_address = [], ti_exclude_mac_address = [], ti_endpoint_independent_nat = False,
     ti_udp_timeout = None, ti_udp_mapping = None, ti_udp_filtering = None, ti_udp_nat_max = None,
     ti_platform = False, ti_gso = False\<rparr>"


text \<open>At rule index 32702 the checks accept 64 rules, but the priority after the last one is refused.\<close>

lemma priority_window_off_by_one:
  fixes show_net trunc
  defines "t \<equiv> example_tun_inbound\<lparr>ti_rule_index := Some 32702, ti_include_interface := replicate 61 ''eth0''\<rparr>"
  shows "\<exists>c. from_inbound None t = Inr c \<and>
    build_actions show_net trunc c = Inl (Bail ''TUN policy rule priority overflow'')"
proof -
  obtain c where c: "from_inbound None t = Inr c" and auto: "tc_auto_redirect c = False"
    by (simp add: t_def from_inbound_def example_tun_inbound_def tun_option_checks_def tun_value_checks_def opt_or_def
        has_selectors_def family_rules_def net_v6_def is_ipv4_def parse_uid_ranges_def parse_nat_behavior_def
        from_secs_def Let_def)
  let ?sel = "exclude_selectors show_net c False @ [[''lookup'', ''main'', ''suppress_prefixlength'', ''0'']] @
    source_selectors show_net trunc c False"
  note facts = from_inbound_facts [OF c]
  have idx: "unat (tc_rule_index c) = 32702" using facts(3) by (simp add: t_def opt_or_def)
  have "family_rules t False = 64"
    by (simp add: t_def family_rules_def example_tun_inbound_def net_v6_def is_ipv4_def)
  then have len: "length ?sel = 3"
    using selectors_counted [OF c, of show_net False trunc] by (simp add: t_def example_tun_inbound_def)
  obtain acts final where first: "numbered_rules ''-4'' (tc_rule_index c) ?sel = Inr (acts, final)" "unat final = 32705"
    using numbered_rules_room [of "tc_rule_index c" ?sel "''-4''"] idx len by auto
  have ifs: "tc_include_interfaces c = replicate 61 ''eth0''" using facts(6) by (simp add: t_def)
  have "numbered_rules ''-4'' final (map (\<lambda>interface. [''iif'', interface, ''lookup'', u32_text (tc_table_index c)])
      (tc_include_interfaces c)) = Inl (Bail ''TUN policy rule priority overflow'')"
    by (rule numbered_rules_full) (simp_all add: ifs first(2))
  with first(1) auto ifs have "build_family_actions show_net trunc c False = Inl (Bail ''TUN policy rule priority overflow'')"
    by (simp add: build_family_actions_def Let_def)
  moreover have "list_ex (\<lambda>p. \<not> net_v6 p) (tc_addresses c)"
    using facts(4) by (simp add: t_def example_tun_inbound_def net_v6_def is_ipv4_def)
  ultimately show ?thesis using c by (simp add: build_actions_def Let_def)
qed

end
