(* ===== verification/Tun_Redirect.thy ===== *)
theory Tun_Redirect
  imports Tun_Routes
begin

text \<open>
  The nftables redirection of a TUN inbound (\<^verbatim>\<open>src/src/tun_redirect_linux.rs\<close>): the script, the guard
  that installs it, enables forwarding and remembers the former settings in its lock file, and its
  drop. Files and programs of the host are functions on its state; starting a program, feeding it
  and waiting for it are one step, \<open>None\<close> when any of them fails.
\<close>

section \<open>The script\<close>

definition nl :: string where
  "nl = [CHR 0x0A]"

definition alphanumeric :: "char \<Rightarrow> bool" where
  "alphanumeric c \<longleftrightarrow>
    (let b = unat (byte_of_char c) in 48 \<le> b \<and> b \<le> 57 \<or> 65 \<le> b \<and> b \<le> 90 \<or> 97 \<le> b \<and> b \<le> 122)"

definition table_name :: "string \<Rightarrow> string result" where
  "table_name interface =
    (if interface = [] \<or> \<not> list_all (\<lambda>c. alphanumeric c \<or> c \<in> set ''_-.'') interface
     then Inl (Bail ''TUN interface_name contains characters unsafe for nftables'')
     else Inr (''xhttp_'' @ map (\<lambda>c. if c \<in> set ''-.'' then CHR ''_'' else c) interface))"

definition nft_string :: "string \<Rightarrow> string" where
  "nft_string v = [CHR 0x22] @ concat (map (\<lambda>c. if c = CHR 0x22 then [CHR 0x5C, CHR 0x22] else [c]) v) @ [CHR 0x22]"

definition join_strings :: "string list \<Rightarrow> string" where
  "join_strings vs = join '', '' (map nft_string vs)"

definition join_uids :: "u32 list \<Rightarrow> (u32 \<times> u32) list \<Rightarrow> string" where
  "join_uids uids uid_ranges =
    join '', '' (map u32_text uids @ map (\<lambda>(start, stop). u32_text start @ ''-'' @ u32_text stop) uid_ranges)"

definition add_elements :: "string \<Rightarrow> string \<Rightarrow> string list \<Rightarrow> string list" where
  "add_elements table name values =
    (if values = [] then []
     else [''add element inet '' @ table @ '' '' @ name @ '' { '' @ join '', '' values @ '' }''])"

definition add_address_set :: "string \<Rightarrow> string \<Rightarrow> string \<Rightarrow> string list \<Rightarrow> string list" where
  "add_address_set table name data_type values =
    (''add set inet '' @ table @ '' '' @ name @ '' { type '' @ data_type @ ''; flags interval; auto-merge; }'') #
    add_elements table name values"

definition replace_address_set :: "string \<Rightarrow> string \<Rightarrow> string list \<Rightarrow> string list" where
  "replace_address_set table name values =
    (''flush set inet '' @ table @ '' '' @ name) # add_elements table name values"

definition family_texts :: "(ip_net \<Rightarrow> string) \<Rightarrow> bool \<Rightarrow> ip_net list \<Rightarrow> string list" where
  "family_texts show_net ipv6 ps = map show_net (filter (\<lambda>p. net_v6 p = ipv6) ps)"

definition nft_rule :: "string \<Rightarrow> string \<Rightarrow> string \<Rightarrow> string" where
  "nft_rule table chain body = ''add rule inet '' @ table @ '' '' @ chain @ '' '' @ body"

definition output_exclusions :: "string \<Rightarrow> string \<Rightarrow> tun_config \<Rightarrow> string list" where
  "output_exclusions table chain c =
    (if tc_include_uids c \<noteq> [] \<or> tc_include_uid_ranges c \<noteq> []
     then [nft_rule table chain
       (''meta skuid != { '' @ join_uids (tc_include_uids c) (tc_include_uid_ranges c) @ '' } return'')] else []) @
    (if tc_exclude_uids c \<noteq> [] \<or> tc_exclude_uid_ranges c \<noteq> []
     then [nft_rule table chain
       (''meta skuid { '' @ join_uids (tc_exclude_uids c) (tc_exclude_uid_ranges c) @ '' } return'')] else [])"

definition input_exclusions :: "string \<Rightarrow> string \<Rightarrow> tun_config \<Rightarrow> string list" where
  "input_exclusions table chain c =
    (if tc_include_interfaces c \<noteq> []
     then [nft_rule table chain (''iifname != { '' @ join_strings (tc_include_interfaces c) @ '' } return'')] else []) @
    (if tc_exclude_interfaces c \<noteq> []
     then [nft_rule table chain (''iifname { '' @ join_strings (tc_exclude_interfaces c) @ '' } return'')] else []) @
    (if tc_include_macs c \<noteq> []
     then [nft_rule table chain ''meta iiftype != ether return'',
           nft_rule table chain (''ether saddr != { '' @ join '', '' (tc_include_macs c) @ '' } return'')] else []) @
    (if tc_exclude_macs c \<noteq> []
     then [nft_rule table chain (''ether saddr { '' @ join '', '' (tc_exclude_macs c) @ '' } return'')] else [])"

definition address_exclusions :: "string \<Rightarrow> string \<Rightarrow> tun_config \<Rightarrow> string \<times> string \<Rightarrow> string list" where
  "address_exclusions table chain c = (\<lambda>(family, digit).
    [nft_rule table chain (family @ '' daddr @local'' @ digit @ '' return''),
     nft_rule table chain (family @ '' daddr @bypass'' @ digit @ '' return'')] @
    (if tc_route_include_active c
     then [nft_rule table chain (family @ '' daddr != @route'' @ digit @ '' return'')] else []) @
    (if tc_route_exclude_active c
     then [nft_rule table chain (family @ '' daddr @exclude'' @ digit @ '' return'')] else []))"

definition add_common_exclusions :: "string \<Rightarrow> string \<Rightarrow> tun_config \<Rightarrow> bool \<Rightarrow> string list" where
  "add_common_exclusions table chain c output =
    (if output then output_exclusions table chain c else input_exclusions table chain c) @
    concat (map (address_exclusions table chain c) [(''ip'', ''4''), (''ip6'', ''6'')])"

definition script_sets :: "(ip_net \<Rightarrow> string) \<Rightarrow> tun_config \<Rightarrow> string \<Rightarrow> string list \<Rightarrow> string list" where
  "script_sets show_net c table local =
    add_address_set table ''local4'' ''ipv4_addr'' (filter (\<lambda>v. contains v ''.'') local) @
    add_address_set table ''local6'' ''ipv6_addr'' (filter (\<lambda>v. contains v '':'') local) @
    add_address_set table ''route4'' ''ipv4_addr'' (family_texts show_net False (tc_route_addresses c)) @
    add_address_set table ''route6'' ''ipv6_addr'' (family_texts show_net True (tc_route_addresses c)) @
    add_address_set table ''exclude4'' ''ipv4_addr'' (family_texts show_net False (tc_route_exclude_addresses c)) @
    add_address_set table ''exclude6'' ''ipv6_addr'' (family_texts show_net True (tc_route_exclude_addresses c)) @
    add_address_set table ''bypass4'' ''ipv4_addr'' (map show_ip (filter is_ipv4 (tc_bypass_addresses c))) @
    add_address_set table ''bypass6'' ''ipv6_addr'' (map show_ip (filter (\<lambda>a. \<not> is_ipv4 a) (tc_bypass_addresses c)))"

definition mark_rule :: "u32 \<Rightarrow> string" where
  "mark_rule mark =
    ''meta l4proto { tcp, udp, icmp, ipv6-icmp } counter ct mark set 0x'' @ hex_string (unat mark) @ '' meta mark set ct mark''"

definition build_nft_script :: "(ip_net \<Rightarrow> string) \<Rightarrow> tun_config \<Rightarrow> string \<Rightarrow> string list \<Rightarrow> string" where
  "build_nft_script show_net c table local =
    (let interface = nft_string (tc_interface_name c);
         script =
           [''add table inet '' @ table] @ script_sets show_net c table local @
           [''add chain inet '' @ table @ '' prerouting { type filter hook prerouting priority mangle; policy accept; }'',
            ''add chain inet '' @ table @ '' output { type route hook output priority mangle; policy accept; }'',
            nft_rule table ''prerouting'' (''iifname '' @ interface @ '' return'')] @
           add_common_exclusions table ''prerouting'' c False @
           [nft_rule table ''prerouting'' (mark_rule (tc_input_mark c)),
            nft_rule table ''output'' (''meta mark 0x'' @ hex_string (unat (tc_output_mark c)) @ '' return''),
            nft_rule table ''output'' (''oifname '' @ interface @ '' return'')] @
           add_common_exclusions table ''output'' c True @
           [nft_rule table ''output'' (mark_rule (tc_input_mark c))] in
     join nl script @ nl)"

section \<open>The host\<close>

record 'k host =
  h_lock :: "string \<Rightarrow> 'k \<Rightarrow> bool \<times> 'k"
  h_lock_read :: "'k \<Rightarrow> string option"
  h_lock_truncate :: "'k \<Rightarrow> bool \<times> 'k"
  h_lock_append :: "string \<Rightarrow> 'k \<Rightarrow> bool \<times> 'k"
  h_lock_sync :: "'k \<Rightarrow> bool \<times> 'k"
  h_read :: "string \<Rightarrow> 'k \<Rightarrow> string option"
  h_write :: "string \<Rightarrow> string \<Rightarrow> 'k \<Rightarrow> bool \<times> 'k"
  h_run :: "string \<Rightarrow> string list \<Rightarrow> string \<Rightarrow> 'k \<Rightarrow> (bool \<times> bytes \<times> bytes) option \<times> 'k"

definition local_prefix :: "string \<Rightarrow> string \<Rightarrow> string option" where
  "local_prefix tun_interface line =
    (let fields = split_whitespace line in
     if (case get fields 1 of None \<Rightarrow> False | Some v \<Rightarrow> trim_end_matches CHR '':'' v = tun_interface) then None
     else find (\<lambda>v. contains v ''/'' \<and> (contains v ''.'' \<or> contains v '':'')) fields)"

definition local_prefixes :: "'k host \<Rightarrow> string \<Rightarrow> 'k \<Rightarrow> string list \<times> 'k" where
  "local_prefixes h tun_interface k =
    (case h_run h ''ip'' [''-o'', ''addr'', ''show''] '''' k of
       (Some (True, stdout, _), k') \<Rightarrow> (List.map_filter (local_prefix tun_interface) (lines (lossy stdout)), k')
     | (_, k') \<Rightarrow> ([], k'))"

definition run_nft_script :: "'k host \<Rightarrow> string \<Rightarrow> 'k \<Rightarrow> unit result \<times> 'k" where
  "run_nft_script h script k =
    (case h_run h ''nft'' [''-f'', ''-''] script k of
       (None, k') \<Rightarrow> (Inl (Bail ''run nftables''), k')
     | (Some (success, _, stderr), k') \<Rightarrow>
         (if success then Inr () else Inl (Bail (''nftables transaction failed: '' @ trim (lossy stderr))), k'))"

definition delete_nft_table :: "'k host \<Rightarrow> string \<Rightarrow> 'k \<Rightarrow> unit result \<times> 'k" where
  "delete_nft_table h table k =
    (case h_run h ''nft'' [''delete'', ''table'', ''inet'', table] '''' k of
       (None, k') \<Rightarrow> (Inl (Bail ''delete nftables table''), k')
     | (Some (success, _, stderr), k') \<Rightarrow>
         (if success \<or> contains (lossy stderr) ''No such file or directory'' then Inr ()
          else Inl (Bail (''delete nftables table failed: '' @ trim (lossy stderr))), k'))"

definition command_success :: "'k host \<Rightarrow> string \<Rightarrow> string list \<Rightarrow> 'k \<Rightarrow> bool \<times> 'k" where
  "command_success h program arguments k =
    (case h_run h program arguments '''' k of
       (None, k') \<Rightarrow> (False, k')
     | (Some (success, _, _), k') \<Rightarrow> (success, k'))"

section \<open>The guard\<close>

record redirect =
  rd_table :: string
  rd_table_installed :: bool
  rd_sysctls :: "(string \<times> string) list"
  rd_docker_rules :: "(string \<times> string list) list"

definition ipv4_forward :: string where
  "ipv4_forward = ''/proc/sys/net/ipv4/ip_forward''"

definition ipv6_forward :: string where
  "ipv6_forward = ''/proc/sys/net/ipv6/conf/all/forwarding''"

definition sysctl_record :: "string \<times> string \<Rightarrow> bool" where
  "sysctl_record = (\<lambda>(path, v). (path = ipv4_forward \<or> path = ipv6_forward) \<and> (v = ''0'' \<or> v = ''1''))"

definition parse_sysctl_state :: "string \<Rightarrow> (string \<times> string) list" where
  "parse_sysctl_state text = filter sysctl_record (List.map_filter (split_once CHR ''='') (lines text))"

definition read_sysctl_state :: "'k host \<Rightarrow> 'k \<Rightarrow> (string \<times> string) list result" where
  "read_sysctl_state h k = bindr (with_context ''read auto_redirect state'' (h_lock_read h k)) (\<lambda>text. Inr (parse_sysctl_state text))"

definition enable_sysctl :: "'k host \<Rightarrow> string \<Rightarrow> redirect \<Rightarrow> 'k \<Rightarrow> unit result \<times> redirect \<times> 'k" where
  "enable_sysctl h path g k =
    (case h_read h path k of
       None \<Rightarrow> (Inl (Bail ''read sysctl''), g, k)
     | Some text \<Rightarrow>
        (let current = trim text in
         if current \<noteq> ''1'' then
           (case h_write h path (''1'' @ nl) k of
              (False, k') \<Rightarrow> (Inl (Bail ''enable sysctl''), g, k')
            | (True, k') \<Rightarrow>
                (Inr (),
                 if list_ex (\<lambda>(saved, _). saved = path) (rd_sysctls g) then g
                 else g\<lparr>rd_sysctls := rd_sysctls g @ [(path, current)]\<rparr>, k'))
         else (Inr (), g, k)))"

fun append_lines :: "'k host \<Rightarrow> (string \<times> string) list \<Rightarrow> 'k \<Rightarrow> unit result \<times> 'k" where
  "append_lines h [] k = (Inr (), k)"
| "append_lines h ((path, previous) # rest) k =
    (case h_lock_append h (path @ ''='' @ previous @ nl) k of
       (False, k') \<Rightarrow> (Inl (Bail ''write auto_redirect state''), k')
     | (True, k') \<Rightarrow> append_lines h rest k')"

definition persist_sysctl_state :: "'k host \<Rightarrow> redirect \<Rightarrow> 'k \<Rightarrow> unit result \<times> 'k" where
  "persist_sysctl_state h g k =
    (case h_lock_truncate h k of
       (False, k') \<Rightarrow> (Inl (Bail ''truncate auto_redirect state''), k')
     | (True, k') \<Rightarrow>
        (case append_lines h (rd_sysctls g) k' of
           (Inl e, k'') \<Rightarrow> (Inl e, k'')
         | (Inr _, k'') \<Rightarrow>
            (case h_lock_sync h k'' of
               (ok, k3) \<Rightarrow> (if ok then Inr () else Inl (Bail ''sync auto_redirect state''), k3))))"

definition docker_arguments :: "string \<Rightarrow> string \<Rightarrow> string list" where
  "docker_arguments interface direction =
    [''-w'', ''DOCKER-USER'', direction, interface, ''-m'', ''comment'', ''--comment'',
     ''xhttp-rs:'' @ interface @ '':'' @ direction, ''-j'', ''ACCEPT'']"

fun docker_inserts :: "'k host \<Rightarrow> string \<Rightarrow> string list list \<Rightarrow> 'k \<Rightarrow> (string \<times> string list) list \<times> 'k" where
  "docker_inserts h program [] k = ([], k)"
| "docker_inserts h program (arguments # rest) k =
    (case command_success h program (''-I'' # arguments) k of
       (ok, k') \<Rightarrow>
         (case docker_inserts h program rest k' of
            (rules, k'') \<Rightarrow> ((if ok then [(program, arguments)] else []) @ rules, k'')))"

definition docker_program ::
  "'k host \<Rightarrow> tun_config \<Rightarrow> string \<times> bool \<Rightarrow> redirect \<times> 'k \<Rightarrow> redirect \<times> 'k" where
  "docker_program h c = (\<lambda>(program, enabled) (g, k).
    if \<not> enabled then (g, k)
    else
      (case command_success h program [''-w'', ''-S'', ''DOCKER-USER''] k of
         (False, k') \<Rightarrow> (g, k')
       | (True, k') \<Rightarrow>
           (case docker_inserts h program (map (docker_arguments (tc_interface_name c)) [''-i'', ''-o'']) k' of
              (rules, k'') \<Rightarrow> (g\<lparr>rd_docker_rules := rd_docker_rules g @ rules\<rparr>, k''))))"

definition install_docker_compatibility :: "'k host \<Rightarrow> tun_config \<Rightarrow> redirect \<Rightarrow> 'k \<Rightarrow> redirect \<times> 'k" where
  "install_docker_compatibility h c g k =
    docker_program h c (''ip6tables'', list_ex net_v6 (tc_addresses c))
      (docker_program h c (''iptables'', list_ex (\<lambda>p. \<not> net_v6 p) (tc_addresses c)) (g, k))"

fun docker_deletes :: "'k host \<Rightarrow> (string \<times> string list) list \<Rightarrow> 'k \<Rightarrow> 'k" where
  "docker_deletes h [] k = k"
| "docker_deletes h ((program, arguments) # rest) k =
    docker_deletes h rest (snd (command_success h program (''-D'' # arguments) k))"

text \<open>Restoring stops at nothing; the flag tells whether a write failed.\<close>

fun restore_sysctls :: "'k host \<Rightarrow> (string \<times> string) list \<Rightarrow> 'k \<Rightarrow> bool \<times> 'k" where
  "restore_sysctls h [] k = (False, k)"
| "restore_sysctls h ((path, previous) # rest) k =
    (if map_option trim (h_read h path k) = Some ''1'' then
       (case h_write h path (previous @ nl) k of
          (ok, k') \<Rightarrow> (case restore_sysctls h rest k' of (failed, k'') \<Rightarrow> (\<not> ok \<or> failed, k'')))
     else restore_sysctls h rest k)"

definition drop_redirect :: "'k host \<Rightarrow> redirect \<Rightarrow> 'k \<Rightarrow> 'k" where
  "drop_redirect h g k =
    (let k1 = docker_deletes h (rev (rd_docker_rules g)) k;
         k2 = (if rd_table_installed g then snd (delete_nft_table h (rd_table g) k1) else k1) in
     case restore_sysctls h (rev (rd_sysctls g)) k2 of
       (failed, k3) \<Rightarrow> if failed then k3 else snd (h_lock_truncate h k3))"

text \<open>The steps of the installation after the guard exists; an error drops the guard.\<close>

definition enable_forwarding :: "'k host \<Rightarrow> tun_config \<Rightarrow> redirect \<Rightarrow> 'k \<Rightarrow> unit result \<times> redirect \<times> 'k" where
  "enable_forwarding h c g k =
    (case (if list_ex (\<lambda>p. \<not> net_v6 p) (tc_addresses c) then enable_sysctl h ipv4_forward g k else (Inr (), g, k)) of
       (Inl e, g1, k1) \<Rightarrow> (Inl e, g1, k1)
     | (Inr _, g1, k1) \<Rightarrow>
         if list_ex net_v6 (tc_addresses c) then enable_sysctl h ipv6_forward g1 k1 else (Inr (), g1, k1))"

definition install_steps ::
  "'k host \<Rightarrow> (ip_net \<Rightarrow> string) \<Rightarrow> tun_config \<Rightarrow> redirect \<Rightarrow> 'k \<Rightarrow> unit result \<times> redirect \<times> 'k" where
  "install_steps h show_net c g k =
    (case delete_nft_table h (rd_table g) k of
       (_, k0) \<Rightarrow>
        (case enable_forwarding h c g k0 of
           (Inl e, g1, k1) \<Rightarrow> (Inl e, g1, k1)
         | (Inr _, g1, k1) \<Rightarrow>
            (case persist_sysctl_state h g1 k1 of
               (Inl e, k2) \<Rightarrow> (Inl e, g1, k2)
             | (Inr _, k2) \<Rightarrow>
                (case local_prefixes h (tc_interface_name c) k2 of
                   (local, k3) \<Rightarrow>
                    (case run_nft_script h (build_nft_script show_net c (rd_table g1) local) k3 of
                       (Inl e, k4) \<Rightarrow> (Inl e, g1, k4)
                     | (Inr _, k4) \<Rightarrow>
                        (case install_docker_compatibility h c (g1\<lparr>rd_table_installed := True\<rparr>) k4 of
                           (g2, k5) \<Rightarrow> (Inr (), g2, k5)))))))"

definition install_redirect ::
  "'k host \<Rightarrow> (ip_net \<Rightarrow> string) \<Rightarrow> tun_config \<Rightarrow> 'k \<Rightarrow> redirect result \<times> 'k" where
  "install_redirect h show_net c k =
    (case table_name (tc_interface_name c) of
       Inl e \<Rightarrow> (Inl e, k)
     | Inr table \<Rightarrow>
        (case h_lock h (''/run/xhttp-rs-'' @ table @ ''.lock'') k of
           (False, k') \<Rightarrow> (Inl (Bail ''another xhttp-rs auto_redirect instance owns this TUN interface''), k')
         | (True, k') \<Rightarrow>
            (case read_sysctl_state h k' of
               Inl e \<Rightarrow> (Inl e, k')
             | Inr stale \<Rightarrow>
                (case install_steps h show_net c
                    \<lparr>rd_table = table, rd_table_installed = False, rd_sysctls = stale, rd_docker_rules = []\<rparr> k' of
                   (Inl e, g, k'') \<Rightarrow> (Inl e, drop_redirect h g k'')
                 | (Inr _, g, k'') \<Rightarrow> (Inr g, k'')))))"

definition replace_route_sets ::
  "'k host \<Rightarrow> (ip_net \<Rightarrow> string) \<Rightarrow> tun_config \<Rightarrow> redirect \<Rightarrow> 'k \<Rightarrow> unit result \<times> 'k" where
  "replace_route_sets h show_net c g k =
    run_nft_script h (join nl
      (replace_address_set (rd_table g) ''route4'' (family_texts show_net False (tc_route_addresses c)) @
       replace_address_set (rd_table g) ''route6'' (family_texts show_net True (tc_route_addresses c)) @
       replace_address_set (rd_table g) ''exclude4'' (family_texts show_net False (tc_route_exclude_addresses c)) @
       replace_address_set (rd_table g) ''exclude6'' (family_texts show_net True (tc_route_exclude_addresses c))) @ nl) k"

section \<open>What is assumed of the host\<close>

text \<open>
  Reading back what was written, appends to the lock file that take place whole or not at all, and
  programs that leave the forwarding settings and the lock file alone. A setting that can be read
  can be written.
\<close>

definition quiet :: "'k host \<Rightarrow> 'k \<Rightarrow> 'k \<Rightarrow> bool" where
  "quiet h k k' \<longleftrightarrow> (\<forall>p. h_read h p k' = h_read h p k) \<and> h_lock_read h k' = h_lock_read h k"

definition host_lawful :: "'k host \<Rightarrow> bool" where
  "host_lawful h \<longleftrightarrow>
    (\<forall>path k. quiet h k (snd (h_lock h path k))) \<and>
    (\<forall>k. quiet h k (snd (h_lock_sync h k))) \<and>
    (\<forall>program arguments stdin k. quiet h k (snd (h_run h program arguments stdin k))) \<and>
    (\<forall>k p. h_read h p (snd (h_lock_truncate h k)) = h_read h p k) \<and>
    (\<forall>k. h_lock_read h (snd (h_lock_truncate h k)) =
      (if fst (h_lock_truncate h k) then Some '''' else h_lock_read h k)) \<and>
    (\<forall>line k p. h_read h p (snd (h_lock_append h line k)) = h_read h p k) \<and>
    (\<forall>line k. h_lock_read h (snd (h_lock_append h line k)) =
      (if fst (h_lock_append h line k) then map_option (\<lambda>text. text @ line) (h_lock_read h k) else h_lock_read h k)) \<and>
    (\<forall>path v k. h_lock_read h (snd (h_write h path v k)) = h_lock_read h k) \<and>
    (\<forall>path v k p. h_read h p (snd (h_write h path v k)) =
      (if fst (h_write h path v k) \<and> p = path then Some v else h_read h p k)) \<and>
    (\<forall>path v k. h_read h path k \<noteq> None \<longrightarrow> fst (h_write h path v k))"

lemma lawful_run:
  assumes "host_lawful h" and "h_run h program arguments stdin k = (res, k')"
  shows "quiet h k k'"
proof -
  have "quiet h k (snd (h_run h program arguments stdin k))" using assms(1) unfolding host_lawful_def by simp
  with assms(2) show ?thesis by simp
qed

lemma lawful_write:
  assumes "host_lawful h" and "h_write h path v k = (ok, k')"
  shows "h_lock_read h k' = h_lock_read h k" and "h_read h p k' = (if ok \<and> p = path then Some v else h_read h p k)"
    and "h_read h path k \<noteq> None \<Longrightarrow> ok"
proof -
  have "h_lock_read h (snd (h_write h path v k)) = h_lock_read h k"
      "h_read h p (snd (h_write h path v k)) = (if fst (h_write h path v k) \<and> p = path then Some v else h_read h p k)"
      "h_read h path k \<noteq> None \<longrightarrow> fst (h_write h path v k)"
    using assms(1) unfolding host_lawful_def by simp_all
  with assms(2) show "h_lock_read h k' = h_lock_read h k"
    and "h_read h p k' = (if ok \<and> p = path then Some v else h_read h p k)"
    and "h_read h path k \<noteq> None \<Longrightarrow> ok" by simp_all
qed

lemma lawful_truncate:
  assumes "host_lawful h" and "h_lock_truncate h k = (ok, k')"
  shows "h_read h p k' = h_read h p k" and "h_lock_read h k' = (if ok then Some '''' else h_lock_read h k)"
proof -
  have "h_read h p (snd (h_lock_truncate h k)) = h_read h p k"
      "h_lock_read h (snd (h_lock_truncate h k)) = (if fst (h_lock_truncate h k) then Some '''' else h_lock_read h k)"
    using assms(1) unfolding host_lawful_def by simp_all
  with assms(2) show "h_read h p k' = h_read h p k"
    and "h_lock_read h k' = (if ok then Some '''' else h_lock_read h k)" by simp_all
qed

lemma lawful_append:
  assumes "host_lawful h" and "h_lock_append h line k = (ok, k')"
  shows "h_read h p k' = h_read h p k"
    and "h_lock_read h k' = (if ok then map_option (\<lambda>text. text @ line) (h_lock_read h k) else h_lock_read h k)"
proof -
  have "h_read h p (snd (h_lock_append h line k)) = h_read h p k"
      "h_lock_read h (snd (h_lock_append h line k)) =
        (if fst (h_lock_append h line k) then map_option (\<lambda>text. text @ line) (h_lock_read h k) else h_lock_read h k)"
    using assms(1) unfolding host_lawful_def by simp_all
  with assms(2) show "h_read h p k' = h_read h p k"
    and "h_lock_read h k' = (if ok then map_option (\<lambda>text. text @ line) (h_lock_read h k) else h_lock_read h k)"
    by simp_all
qed

lemma quiet_refl [simp]: "quiet h k k"
  by (simp add: quiet_def)

lemma quiet_trans: "quiet h k k' \<Longrightarrow> quiet h k' k'' \<Longrightarrow> quiet h k k''"
  by (simp add: quiet_def)

lemma quiet_lock_sync:
  assumes "host_lawful h"
  shows "quiet h k (snd (h_lock h path k))" and "quiet h k (snd (h_lock_sync h k))"
  using assms unfolding host_lawful_def by simp_all

lemma quiet_programs:
  assumes "host_lawful h"
  shows "quiet h k (snd (command_success h program arguments k))"
    and "quiet h k (snd (delete_nft_table h table k))"
    and "quiet h k (snd (run_nft_script h script k))"
    and "quiet h k (snd (local_prefixes h tun k))"
  by (auto simp: command_success_def delete_nft_table_def run_nft_script_def local_prefixes_def
      dest: lawful_run [OF assms] split: prod.splits option.splits bool.splits)

lemma quiet_docker_inserts:
  assumes "host_lawful h"
  shows "quiet h k (snd (docker_inserts h program acts k))"
proof (induction acts arbitrary: k)
  case (Cons a acts)
  obtain ok k' where r: "command_success h program (''-I'' # a) k = (ok, k')" by fastforce
  then have "quiet h k k'" using quiet_programs(1) [OF assms, of k program "''-I'' # a"] by simp
  with Cons.IH [of k'] r show ?case by (auto split: prod.splits intro: quiet_trans)
qed simp

lemma quiet_docker_deletes:
  assumes "host_lawful h"
  shows "quiet h k (docker_deletes h rules k)"
proof (induction rules arbitrary: k)
  case (Cons a rules)
  obtain program arguments where "a = (program, arguments)" by fastforce
  then show ?case
    using quiet_trans [OF quiet_programs(1) [OF assms] Cons.IH, of k program "''-D'' # arguments"] by simp
qed simp

lemma docker_program_quiet:
  assumes "host_lawful h" and "docker_program h c pe (g, k) = (g', k')"
  shows "quiet h k k' \<and> rd_sysctls g' = rd_sysctls g"
proof -
  obtain program enabled where "pe = (program, enabled)" by fastforce
  moreover obtain ok k1 where r: "command_success h program [''-w'', ''-S'', ''DOCKER-USER''] k = (ok, k1)" by fastforce
  moreover have "quiet h k k1" using quiet_programs(1) [OF assms(1), of k program] r by (metis snd_conv)
  moreover note quiet_trans [OF this quiet_docker_inserts [OF assms(1)],
      of program "map (docker_arguments (tc_interface_name c)) [''-i'', ''-o'']"]
  ultimately show ?thesis
    using assms(2) by (cases ok) (auto simp: docker_program_def split: if_splits prod.splits)
qed

lemma install_docker_quiet:
  assumes "host_lawful h" and "install_docker_compatibility h c g k = (g', k')"
  shows "quiet h k k' \<and> rd_sysctls g' = rd_sysctls g"
proof -
  obtain g1 k1 where one: "docker_program h c (''iptables'', list_ex (\<lambda>p. \<not> net_v6 p) (tc_addresses c)) (g, k) = (g1, k1)"
    by fastforce
  with assms(2) have "docker_program h c (''ip6tables'', list_ex net_v6 (tc_addresses c)) (g1, k1) = (g', k')"
    by (simp add: install_docker_compatibility_def)
  from docker_program_quiet [OF assms(1) one] docker_program_quiet [OF assms(1) this] show ?thesis
    by (auto intro: quiet_trans)
qed

section \<open>The lock file\<close>

definition state_text :: "(string \<times> string) list \<Rightarrow> string" where
  "state_text sysctls = concat (map (\<lambda>(path, v). path @ ''='' @ v @ nl) sysctls)"

lemma lines_from_line:
  "CHR 0x0A \<notin> set l \<Longrightarrow> lines_from cur (l @ CHR 0x0A # s) = lines_from (rev l @ cur) [CHR 0x0A] @ lines_from [] s"
  by (induction l arbitrary: cur) auto

lemma parse_sysctl_line:
  assumes "sysctl_record r"
  shows "parse_sysctl_state (fst r @ ''='' @ snd r @ nl @ s) = r # parse_sysctl_state s"
proof -
  let ?l = "fst r @ ''='' @ snd r"
  have r: "r \<in> {(ipv4_forward, ''0''), (ipv4_forward, ''1''), (ipv6_forward, ''0''), (ipv6_forward, ''1'')}"
    using assms by (cases r) (auto simp: sysctl_record_def)
  have "CHR 0x0A \<notin> set ?l" "split_once CHR ''='' ?l = Some r" "lines_from (rev ?l) [CHR 0x0A] = [?l]"
    using r by (auto simp: ipv4_forward_def ipv6_forward_def)
  with lines_from_line [of ?l "[]" s] assms show ?thesis
    by (simp add: parse_sysctl_state_def lines_def nl_def map_filter_simps)
qed

lemma parse_state_text: "list_all sysctl_record sysctls \<Longrightarrow> parse_sysctl_state (state_text sysctls) = sysctls"
proof (induction sysctls)
  case (Cons r sysctls)
  then show ?case using parse_sysctl_line [of r "state_text sysctls"] by (cases r) (simp add: state_text_def)
qed (simp add: state_text_def parse_sysctl_state_def lines_def map_filter_simps)

lemma append_lines_state:
  assumes "host_lawful h" and "append_lines h ls k = (out, k')" and "h_lock_read h k = Some t"
  shows "(\<forall>p. h_read h p k' = h_read h p k) \<and>
    (\<exists>n. h_lock_read h k' = Some (t @ state_text (take n ls)) \<and> (out = Inr () \<longrightarrow> n = length ls))"
  using assms(2,3)
proof (induction ls arbitrary: k t)
  case Nil
  then show ?case by (auto simp: state_text_def)
next
  case (Cons r ls)
  obtain path v where r: "r = (path, v)" by fastforce
  obtain ok k1 where a: "h_lock_append h (path @ ''='' @ v @ nl) k = (ok, k1)" by fastforce
  note k1 = lawful_append [OF assms(1) a]
  show ?case
  proof (cases ok)
    case False
    with Cons.prems r a k1 show ?thesis by (auto simp: state_text_def intro!: exI [of _ 0])
  next
    case True
    with Cons.prems r a have rest: "append_lines h ls k1 = (out, k')" by simp
    have lock: "h_lock_read h k1 = Some (t @ path @ ''='' @ v @ nl)" using k1(2) True Cons.prems by simp
    from Cons.IH [OF rest lock] obtain n where
      n: "h_lock_read h k' = Some ((t @ path @ ''='' @ v @ nl) @ state_text (take n ls))" "out = Inr () \<longrightarrow> n = length ls"
      and reads: "\<forall>p. h_read h p k' = h_read h p k1" by blast
    have "h_lock_read h k' = Some (t @ state_text (take (Suc n) (r # ls)))"
      using n(1) by (simp add: r state_text_def)
    with n(2) reads k1(1) show ?thesis by (intro conjI exI [of _ "Suc n"]) auto
  qed
qed

section \<open>Forwarding settings are restored\<close>

definition setting :: "'k host \<Rightarrow> 'k \<Rightarrow> string \<Rightarrow> string option" where
  "setting h k p = map_option trim (h_read h p k)"

text \<open>The records lead back to the settings \<open>v\<close>.\<close>

definition leads_back :: "(string \<Rightarrow> string option) \<Rightarrow> (string \<times> string) list \<Rightarrow> bool" where
  "leads_back v sysctls \<longleftrightarrow>
    distinct (map fst sysctls) \<and> list_all sysctl_record sysctls \<and> (\<forall>(p, x) \<in> set sysctls. v p = Some x)"

definition restorable :: "'k host \<Rightarrow> (string \<Rightarrow> string option) \<Rightarrow> (string \<times> string) list \<Rightarrow> 'k \<Rightarrow> bool" where
  "restorable h v sysctls k \<longleftrightarrow>
    leads_back v sysctls \<and>
    (\<forall>p. setting h k p = v p \<or> setting h k p = Some ''1'' \<and> p \<in> fst ` set sysctls)"

lemma setting_quiet: "quiet h k k' \<Longrightarrow> setting h k' p = setting h k p"
  by (simp add: setting_def quiet_def)

lemma restorable_cong: "(\<And>p. setting h k' p = setting h k p) \<Longrightarrow> restorable h v s k' = restorable h v s k"
  by (simp add: restorable_def)

lemma trim_values: "trim (CHR ''0'' # nl) = ''0''" "trim (CHR ''1'' # nl) = ''1''"
  unfolding nl_def by code_simp+

lemma sysctl_value: "sysctl_record (p, x) \<Longrightarrow> trim (x @ nl) = x"
  by (auto simp: sysctl_record_def trim_values)

lemma setting_write:
  assumes "host_lawful h" and "h_write h path x k = (ok, k')"
  shows "setting h k' p = (if ok \<and> p = path then Some (trim x) else setting h k p)"
  using lawful_write(2) [OF assms] by (simp add: setting_def)

lemma restore_all:
  assumes "host_lawful h" and "restore_sysctls h ls k = (failed, k')" and "restorable h v ls k"
  shows "\<not> failed \<and> (\<forall>p. setting h k' p = v p) \<and> h_lock_read h k' = h_lock_read h k"
  using assms(2,3)
proof (induction ls arbitrary: k failed)
  case Nil
  then show ?case by (auto simp: restorable_def)
next
  case (Cons r ls)
  obtain path x where r: "r = (path, x)" by fastforce
  have undo: "v path = Some x" "trim (x @ nl) = x" "leads_back v ls" "path \<notin> fst ` set ls"
    using Cons.prems(2) sysctl_value by (auto simp: restorable_def leads_back_def r)
  show ?case
  proof (cases "setting h k path = Some ''1''")
    case True
    obtain ok k1 where w: "h_write h path (x @ nl) k = (ok, k1)" by fastforce
    have ok: ok using lawful_write(3) [OF assms(1) w] True by (auto simp: setting_def)
    obtain f where rest: "restore_sysctls h ls k1 = (f, k')" "failed = f"
      using Cons.prems(1) r True w ok by (auto simp: setting_def split: prod.splits)
    have "restorable h v ls k1"
      using Cons.prems(2) undo setting_write [OF assms(1) w] ok by (auto simp: restorable_def r)
    from Cons.IH [OF rest(1) this] rest(2) lawful_write(1) [OF assms(1) w] show ?thesis by simp
  next
    case False
    then have rest: "restore_sysctls h ls k = (failed, k')"
      using Cons.prems(1) unfolding r setting_def restore_sysctls.simps by (simp only: if_False)
    have "restorable h v ls k" using Cons.prems(2) undo False by (auto simp: restorable_def r)
    from Cons.IH [OF rest this] show ?thesis .
  qed
qed

lemma restorable_rev [simp]: "restorable h v (rev ls) k = restorable h v ls k"
  by (simp add: restorable_def leads_back_def rev_map [symmetric])

definition forwarding_known :: "(string \<Rightarrow> string option) \<Rightarrow> bool" where
  "forwarding_known v \<longleftrightarrow>
    v ipv4_forward \<in> {None, Some ''0'', Some ''1''} \<and> v ipv6_forward \<in> {None, Some ''0'', Some ''1''}"

lemma enable_sysctl_restorable:
  assumes "host_lawful h" and "forwarding_known v" and "path = ipv4_forward \<or> path = ipv6_forward"
    and "enable_sysctl h path g k = (out, g', k')" and "restorable h v (rd_sysctls g) k"
  shows "restorable h v (rd_sysctls g') k' \<and> h_lock_read h k' = h_lock_read h k"
proof (cases "setting h k path = None \<or> setting h k path = Some ''1''")
  case True
  with assms(4,5) show ?thesis by (auto simp: enable_sysctl_def setting_def split: option.splits)
next
  case False
  then obtain old where old: "h_read h path k = Some old" "trim old \<noteq> ''1''" by (auto simp: setting_def)
  obtain ok k1 where w: "h_write h path (''1'' @ nl) k = (ok, k1)" by fastforce
  have ok: ok using lawful_write(3) [OF assms(1) w] old by simp
  have v: "v path = Some (trim old)" using assms(5) False old unfolding restorable_def
    by (metis option.simps(9) setting_def)
  have set1: "setting h k1 p = (if p = path then Some ''1'' else setting h k p)" for p
    using setting_write [OF assms(1) w] ok by (simp add: trim_values)
  have rec: "sysctl_record (path, trim old)" using assms(2,3) v by (auto simp: sysctl_record_def forwarding_known_def)
  have "k' = k1" and g': "rd_sysctls g' = (if path \<in> fst ` set (rd_sysctls g) then rd_sysctls g
      else rd_sysctls g @ [(path, trim old)])"
    using assms(4) old w ok by (force simp: enable_sysctl_def Let_def list_ex_iff split: if_splits)+
  moreover have "restorable h v (rd_sysctls g') k1"
    using assms(5) rec v unfolding g' by (auto simp: restorable_def leads_back_def set1)
  ultimately show ?thesis using lawful_write(1) [OF assms(1) w] by simp
qed

definition lock_known :: "'k host \<Rightarrow> (string \<Rightarrow> string option) \<Rightarrow> 'k \<Rightarrow> bool" where
  "lock_known h v k \<longleftrightarrow> (\<exists>state. h_lock_read h k = Some state \<and> leads_back v (parse_sysctl_state state))"

definition recoverable :: "'k host \<Rightarrow> (string \<Rightarrow> string option) \<Rightarrow> 'k \<Rightarrow> bool" where
  "recoverable h v k \<longleftrightarrow> (\<exists>state. h_lock_read h k = Some state \<and> restorable h v (parse_sysctl_state state) k)"

lemma leads_back_take: "leads_back v ls \<Longrightarrow> leads_back v (take n ls)"
  by (auto simp: leads_back_def take_map [symmetric] list_all_iff dest: in_set_takeD)

lemma parse_leads_back: "leads_back v ls \<Longrightarrow> parse_sysctl_state (state_text ls) = ls"
  by (simp add: leads_back_def parse_state_text)

lemma lock_known_text: "leads_back v ls \<Longrightarrow> h_lock_read h k = Some (state_text ls) \<Longrightarrow> lock_known h v k"
  by (auto simp: lock_known_def parse_leads_back)

lemma lock_known_quiet: "quiet h k k' \<Longrightarrow> lock_known h v k' = lock_known h v k"
  by (simp add: lock_known_def quiet_def)

lemma restorable_quiet: "quiet h k k' \<Longrightarrow> restorable h v s k' = restorable h v s k"
  by (intro restorable_cong setting_quiet)

lemma recoverable_quiet: "quiet h k k' \<Longrightarrow> recoverable h v k' = recoverable h v k"
  using restorable_quiet [of h k k' v] by (simp add: recoverable_def quiet_def)

lemma recoverable_known: "recoverable h v k \<Longrightarrow> lock_known h v k"
  by (auto simp: recoverable_def lock_known_def restorable_def)

lemma recoverable_readable: "recoverable h v k \<Longrightarrow> v p \<noteq> None \<Longrightarrow> setting h k p \<noteq> None"
  unfolding recoverable_def restorable_def by (metis option.distinct(1))

lemma settled_recoverable: "lock_known h v k \<Longrightarrow> (\<And>p. setting h k p = v p) \<Longrightarrow> recoverable h v k"
  by (auto simp: recoverable_def lock_known_def restorable_def)

lemma persist_state:
  assumes "host_lawful h" and "leads_back v (rd_sysctls g)" and "lock_known h v k"
    and "persist_sysctl_state h g k = (out, k')"
  shows "(\<forall>p. setting h k' p = setting h k p) \<and> lock_known h v k' \<and>
    (out = Inr () \<longrightarrow> h_lock_read h k' = Some (state_text (rd_sysctls g)))"
proof -
  obtain ok k1 where t: "h_lock_truncate h k = (ok, k1)" by fastforce
  note k1 = lawful_truncate [OF assms(1) t]
  show ?thesis
  proof (cases ok)
    case False
    with assms(3,4) t k1 show ?thesis by (auto simp: persist_sysctl_state_def setting_def lock_known_def)
  next
    case True
    obtain res k2 where a: "append_lines h (rd_sysctls g) k1 = (res, k2)" by fastforce
    have "h_lock_read h k1 = Some ''''" using k1(2) True by simp
    from append_lines_state [OF assms(1) a this] obtain n where
      k2: "\<And>p. h_read h p k2 = h_read h p k1" "h_lock_read h k2 = Some (state_text (take n (rd_sysctls g)))"
        "res = Inr () \<longrightarrow> n = length (rd_sysctls g)" by auto
    have known: "lock_known h v k2" using lock_known_text [OF leads_back_take [OF assms(2)] k2(2)] .
    obtain synced k3 where s: "h_lock_sync h k2 = (synced, k3)" by fastforce
    have q: "quiet h k2 k3" using quiet_lock_sync(2) [OF assms(1), of k2] s by simp
    have same: "setting h k3 p = setting h k p" "setting h k2 p = setting h k p" for p
      using k1(1) k2(1) setting_quiet [OF q] by (simp_all add: setting_def)
    have lock: "h_lock_read h k3 = h_lock_read h k2" using q by (simp add: quiet_def)
    show ?thesis
      using assms(4) t True a s k2(2,3) known same lock lock_known_quiet [OF q]
      by (cases res) (auto simp: persist_sysctl_state_def split: if_splits)
  qed
qed

lemma enable_forwarding_restorable:
  assumes "host_lawful h" and "forwarding_known v" and "enable_forwarding h c g k = (out, g', k')"
    and "restorable h v (rd_sysctls g) k"
  shows "restorable h v (rd_sysctls g') k' \<and> h_lock_read h k' = h_lock_read h k"
proof -
  obtain out1 g1 k1 where one: "(if list_ex (\<lambda>p. \<not> net_v6 p) (tc_addresses c) then enable_sysctl h ipv4_forward g k
      else (Inr (), g, k)) = (out1, g1, k1)" by (metis prod_cases3)
  then have r1: "restorable h v (rd_sysctls g1) k1" "h_lock_read h k1 = h_lock_read h k"
    using enable_sysctl_restorable [OF assms(1,2) _ _ assms(4), of ipv4_forward out1 g1 k1] assms(4)
    by (auto split: if_splits)
  show ?thesis
  proof (cases out1)
    case (Inl e)
    with one assms(3) r1 show ?thesis by (simp add: enable_forwarding_def)
  next
    case (Inr u)
    with one assms(3) have "(if list_ex net_v6 (tc_addresses c) then enable_sysctl h ipv6_forward g1 k1
        else (Inr (), g1, k1)) = (out, g', k')" by (simp add: enable_forwarding_def)
    then show ?thesis
      using enable_sysctl_restorable [OF assms(1,2) _ _ r1(1), of ipv6_forward out g' k'] r1
      by (auto split: if_splits)
  qed
qed

lemma drop_redirect_restores:
  assumes "host_lawful h" and "restorable h v (rd_sysctls g) k" and "lock_known h v k"
  shows "setting h (drop_redirect h g k) p = v p" and "lock_known h v (drop_redirect h g k)"
proof -
  let ?k1 = "docker_deletes h (rev (rd_docker_rules g)) k"
  let ?k2 = "if rd_table_installed g then snd (delete_nft_table h (rd_table g) ?k1) else ?k1"
  have "quiet h ?k1 ?k2" using quiet_programs(2) [OF assms(1), of ?k1] by simp
  then have q: "quiet h k ?k2" by (rule quiet_trans [OF quiet_docker_deletes [OF assms(1)]])
  obtain failed k3 where r: "restore_sysctls h (rev (rd_sysctls g)) ?k2 = (failed, k3)" by fastforce
  have k3: "\<not> failed" "\<And>p. setting h k3 p = v p" "h_lock_read h k3 = h_lock_read h ?k2"
    using restore_all [OF assms(1) r] assms(2) restorable_quiet [OF q] by simp_all
  obtain ok k4 where t: "h_lock_truncate h k3 = (ok, k4)" by fastforce
  have d: "drop_redirect h g k = k4" using r k3(1) t by (simp add: drop_redirect_def Let_def)
  note k4 = lawful_truncate [OF assms(1) t]
  show "setting h (drop_redirect h g k) p = v p" unfolding d using k3(2) k4(1) by (simp add: setting_def)
  have "lock_known h v k3" using assms(3) lock_known_quiet [OF q, of v] k3(3) by (simp add: lock_known_def)
  moreover have "leads_back v (parse_sysctl_state '''')"
    by (simp add: leads_back_def parse_sysctl_state_def lines_def map_filter_simps)
  ultimately show "lock_known h v (drop_redirect h g k)"
    unfolding d using k4(2) by (simp add: lock_known_def)
qed

lemma install_steps_restorable:
  assumes "host_lawful h" and "forwarding_known v" and "install_steps h show_net c g k = (out, g', k')"
    and "restorable h v (rd_sysctls g) k" and "lock_known h v k"
  shows "restorable h v (rd_sysctls g') k' \<and> lock_known h v k' \<and>
    (out = Inr () \<longrightarrow> h_lock_read h k' = Some (state_text (rd_sysctls g')))"
proof -
  obtain res0 k0 where d: "delete_nft_table h (rd_table g) k = (res0, k0)" by fastforce
  have q0: "quiet h k k0" using quiet_programs(2) [OF assms(1), of k "rd_table g"] d by simp
  obtain res1 g1 k1 where e: "enable_forwarding h c g k0 = (res1, g1, k1)" by (metis prod_cases3)
  have k1: "restorable h v (rd_sysctls g1) k1" "lock_known h v k1"
    using enable_forwarding_restorable [OF assms(1,2) e] assms(4,5) restorable_quiet [OF q0] lock_known_quiet [OF q0]
    by (auto simp: lock_known_def)
  obtain res2 k2 where p: "persist_sysctl_state h g1 k1 = (res2, k2)" by fastforce
  have back1: "leads_back v (rd_sysctls g1)" using k1(1) by (simp add: restorable_def)
  have k2: "restorable h v (rd_sysctls g1) k2" "lock_known h v k2"
      "res2 = Inr () \<longrightarrow> h_lock_read h k2 = Some (state_text (rd_sysctls g1))"
    using persist_state [OF assms(1) back1 k1(2) p] k1(1) restorable_cong [of h k2 k1] by auto
  obtain local k3 where l: "local_prefixes h (tc_interface_name c) k2 = (local, k3)" by fastforce
  obtain res4 k4 where n: "run_nft_script h (build_nft_script show_net c (rd_table g1) local) k3 = (res4, k4)" by fastforce
  have q4: "quiet h k2 k4"
    using quiet_programs(4) [OF assms(1), of k2 "tc_interface_name c"] l
      quiet_programs(3) [OF assms(1), of k3 "build_nft_script show_net c (rd_table g1) local"] n
    by (auto intro: quiet_trans)
  obtain g5 k5 where o: "install_docker_compatibility h c (g1\<lparr>rd_table_installed := True\<rparr>) k4 = (g5, k5)" by fastforce
  have q5: "quiet h k2 k5" "rd_sysctls g5 = rd_sysctls g1"
    using install_docker_quiet [OF assms(1) o] q4 by (auto intro: quiet_trans)
  show ?thesis
  proof (cases "res1 = Inr () \<and> res2 = Inr ()")
    case False
    then have "out \<noteq> Inr () \<and> g' = g1 \<and> (k' = k1 \<or> k' = k2)"
      using assms(3) d e p by (cases res1; cases res2) (auto simp: install_steps_def)
    with k1 k2 show ?thesis by auto
  next
    case True
    then have "out \<noteq> Inr () \<and> g' = g1 \<and> k' = k4 \<or> g' = g5 \<and> k' = k5"
      using assms(3) d e p l n o by (cases res4) (auto simp: install_steps_def)
    moreover have "h_lock_read h k5 = h_lock_read h k2" using q5(1) by (simp add: quiet_def)
    ultimately show ?thesis
      using True k2 q5 restorable_quiet [OF q4] restorable_quiet [OF q5(1)] lock_known_quiet [OF q4] lock_known_quiet [OF q5(1)]
      by auto
  qed
qed

lemma install_redirect_recoverable:
  assumes "host_lawful h" and "forwarding_known v" and "install_redirect h show_net c k = (out, k')"
    and "recoverable h v k"
  shows "recoverable h v k' \<and>
    (\<forall>g. out = Inr g \<longrightarrow> restorable h v (rd_sysctls g) k' \<and> lock_known h v k')"
proof (cases "table_name (tc_interface_name c)")
  case (Inl e)
  with assms(3,4) show ?thesis by (auto simp: install_redirect_def)
next
  case (Inr table)
  obtain held k1 where l: "h_lock h (''/run/xhttp-rs-'' @ table @ ''.lock'') k = (held, k1)" by fastforce
  have q: "quiet h k k1"
    using quiet_lock_sync(1) [OF assms(1), of k "''/run/xhttp-rs-'' @ table @ ''.lock''"] l by simp
  have rec1: "recoverable h v k1" using assms(4) recoverable_quiet [OF q] by simp
  show ?thesis
  proof (cases held)
    case False
    with assms(3) Inr l rec1 show ?thesis by (auto simp: install_redirect_def)
  next
    case True
    obtain state where st: "h_lock_read h k1 = Some state" "restorable h v (parse_sysctl_state state) k1"
      using rec1 by (auto simp: recoverable_def)
    let ?g = "\<lparr>rd_table = table, rd_table_installed = False, rd_sysctls = parse_sysctl_state state, rd_docker_rules = []\<rparr>"
    obtain res g2 k2 where s: "install_steps h show_net c ?g k1 = (res, g2, k2)" by (metis prod_cases3)
    have steps: "restorable h v (rd_sysctls g2) k2" "lock_known h v k2"
        "res = Inr () \<longrightarrow> h_lock_read h k2 = Some (state_text (rd_sysctls g2))"
      using install_steps_restorable [OF assms(1,2) s] st(2) recoverable_known [OF rec1] by simp_all
    have out: "out = (case res of Inl e \<Rightarrow> Inl e | Inr _ \<Rightarrow> Inr g2)"
        "k' = (case res of Inl e \<Rightarrow> drop_redirect h g2 k2 | Inr _ \<Rightarrow> k2)"
      using assms(3) Inr l True st(1) s by (auto simp: install_redirect_def read_sysctl_state_def split: sum.splits)
    show ?thesis
    proof (cases res)
      case (Inl e)
      with out drop_redirect_restores [OF assms(1) steps(1,2)] show ?thesis
        by (auto intro: settled_recoverable)
    next
      case fine: (Inr u)
      have "parse_sysctl_state (state_text (rd_sysctls g2)) = rd_sysctls g2"
        using steps(1) parse_leads_back [of v] by (simp add: restorable_def)
      with fine out steps show ?thesis by (auto simp: recoverable_def)
    qed
  qed
qed

text \<open>Runs of the program for one interface: each installs, and either is killed or drops its guard.\<close>

fun redirect_runs ::
  "'k host \<Rightarrow> (ip_net \<Rightarrow> string) \<Rightarrow> string \<Rightarrow> (tun_config \<times> bool) list \<Rightarrow> 'k \<Rightarrow> 'k" where
  "redirect_runs h show_net interface [] k = k"
| "redirect_runs h show_net interface ((c, killed) # rs) k =
    (case install_redirect h show_net (c\<lparr>tc_interface_name := interface\<rparr>) k of
       (Inl _, k') \<Rightarrow> redirect_runs h show_net interface rs k'
     | (Inr g, k') \<Rightarrow> redirect_runs h show_net interface rs (if killed then k' else drop_redirect h g k'))"

lemma redirect_runs_recoverable:
  assumes "host_lawful h" and "forwarding_known v" and "recoverable h v k"
  shows "recoverable h v (redirect_runs h show_net interface rs k)"
  using assms(3)
proof (induction rs arbitrary: k)
  case (Cons r rs)
  obtain c killed where r: "r = (c, killed)" by fastforce
  obtain out k1 where i: "install_redirect h show_net (c\<lparr>tc_interface_name := interface\<rparr>) k = (out, k1)" by fastforce
  note inst = install_redirect_recoverable [OF assms(1,2) i Cons.prems]
  show ?case
  proof (cases out)
    case (Inl e)
    with i r inst Cons.IH show ?thesis by simp
  next
    case (Inr g)
    then have g: "restorable h v (rd_sysctls g) k1" "lock_known h v k1" using inst by simp_all
    have "recoverable h v (drop_redirect h g k1)"
      using drop_redirect_restores [OF assms(1) g] by (intro settled_recoverable)
    with Inr i r inst Cons.IH show ?thesis by simp
  qed
qed simp


text \<open>A host whose files are a map with the lock file beside them and whose programs all succeed.\<close>

definition map_host :: "((string \<Rightarrow> string option) \<times> string) host" where
  "map_host =
    \<lparr>h_lock = (\<lambda>path k. (True, k)), h_lock_read = (\<lambda>k. Some (snd k)), h_lock_truncate = (\<lambda>k. (True, (fst k, ''''))),
     h_lock_append = (\<lambda>line k. (True, (fst k, snd k @ line))), h_lock_sync = (\<lambda>k. (True, k)),
     h_read = (\<lambda>p k. fst k p), h_write = (\<lambda>p v k. (True, ((fst k)(p \<mapsto> v), snd k))),
     h_run = (\<lambda>program arguments stdin k. (Some (True, [], []), k))\<rparr>"

lemma map_host_lawful: "host_lawful map_host"
  by (simp add: host_lawful_def map_host_def quiet_def)

lemma map_host_setting: "setting map_host k p = map_option trim (fst k p)"
  by (simp add: setting_def map_host_def)

lemma map_host_append: "\<exists>k'. append_lines map_host ls k = (Inr (), k')"
  by (induction ls arbitrary: k) (auto simp: map_host_def)

lemma map_host_persist: "\<exists>k'. persist_sysctl_state map_host g k = (Inr (), k')"
proof -
  have "h_lock_truncate map_host k = (True, (fst k, ''''))" "h_lock_sync map_host k' = (True, k')" for k'
    by (simp_all add: map_host_def)
  with map_host_append [of "rd_sysctls g" "(fst k, '''')"] show ?thesis
    by (auto simp: persist_sysctl_state_def)
qed

lemma map_host_programs:
  "delete_nft_table map_host t k = (Inr (), k)" "run_nft_script map_host script k = (Inr (), k)"
  by (simp_all add: map_host_def delete_nft_table_def run_nft_script_def)

lemma map_host_enable: "fst k p \<noteq> None \<Longrightarrow> \<exists>g' k'. enable_sysctl map_host p g k = (Inr (), g', k')"
  by (auto simp: enable_sysctl_def map_host_def Let_def)

lemma map_host_install:
  assumes "table_name (tc_interface_name c) = Inr table" and "fst k ipv4_forward \<noteq> None"
    and "\<not> list_ex net_v6 (tc_addresses c)"
  shows "\<exists>g k'. install_redirect map_host show_net c k = (Inr g, k')"
proof -
  let ?g = "\<lparr>rd_table = table, rd_table_installed = False, rd_sysctls = parse_sysctl_state (snd k), rd_docker_rules = []\<rparr>"
  obtain g0 k0 where "enable_sysctl map_host ipv4_forward ?g k = (Inr (), g0, k0)"
    using map_host_enable [OF assms(2)] by blast
  then obtain g1 k1 where e: "enable_forwarding map_host c ?g k = (Inr (), g1, k1)"
    using assms(3) by (cases "list_ex (\<lambda>p. \<not> net_v6 p) (tc_addresses c)") (simp_all add: enable_forwarding_def)
  obtain k2 where p: "persist_sysctl_state map_host g1 k1 = (Inr (), k2)" using map_host_persist by blast
  obtain local k3 where l: "local_prefixes map_host (tc_interface_name c) k2 = (local, k3)" by (meson surj_pair)
  obtain g5 k5 where o: "install_docker_compatibility map_host c (g1\<lparr>rd_table_installed := True\<rparr>) k3 = (g5, k5)" by (meson surj_pair)
  have "install_steps map_host show_net c ?g k = (Inr (), g5, k5)"
    using e p l o by (simp add: install_steps_def map_host_programs)
  moreover have "h_lock map_host path k = (True, k)" "h_lock_read map_host k = Some (snd k)" for path
    by (simp_all add: map_host_def)
  ultimately show ?thesis using assms(1) by (simp add: install_redirect_def read_sysctl_state_def)
qed


text \<open>Interfaces that differ in a dash, a dot or an underscore share the table and its lock.\<close>

lemma table_names_collide: "table_name ''tun-0'' = table_name ''tun.0''" "table_name ''tun-0'' = table_name ''tun_0''"
  by code_simp+

end
