(* ===== verification/Ip_Roundtrip.thy ===== *)
theory Ip_Roundtrip
  imports Srs Ip_Text
begin

text \<open>
  The text of an address reads back: \<open>Display\<close> of \<open>IpAddr\<close> (theory \<open>Srs\<close>), with the longest run of zero
  groups compressed and mapped IPv4 addresses in dotted form, against \<open>IpAddr::from_str\<close> (theory
  \<open>Ip_Text\<close>), which tries IPv4 first.
\<close>

section \<open>Numbers\<close>

lemma less_16_cases:
  "(d :: nat) < 16 \<Longrightarrow> d < 10 \<or> d = 10 \<or> d = 11 \<or> d = 12 \<or> d = 13 \<or> d = 14 \<or> d = 15"
  by auto

lemma to_digit_decimal: "d < 10 \<Longrightarrow> to_digit 10 (digit_char d) = Some d \<and> digit_char d \<noteq> CHR ''.'' \<and> digit_char d \<noteq> CHR '':''"
  by (drule less_10_cases) (elim disjE, simp_all add: to_digit_def digit_char_def byte_of_char_def)

lemma to_digit_hex:
  assumes "d < 16"
  shows "to_digit 16 (''0123456789abcdef'' ! d) = Some d \<and> ''0123456789abcdef'' ! d \<noteq> CHR ''.'' \<and>
    ''0123456789abcdef'' ! d \<noteq> CHR '':''"
  using less_16_cases [OF assms]
proof (elim disjE)
  assume "d < 10"
  from less_10_cases [OF this] show ?thesis by (elim disjE, simp_all add: to_digit_def byte_of_char_def)
qed (simp_all add: to_digit_def byte_of_char_def)

lemma zero_digit: "to_digit 10 CHR ''0'' = Some 0" "to_digit 16 CHR ''0'' = Some 0"
  by (simp_all add: to_digit_def byte_of_char_def)

text \<open>What a number's text is to the reader: digits only, their value, their number, no zero in front.\<close>

definition digits_of :: "nat \<Rightarrow> nat \<Rightarrow> string \<Rightarrow> bool" where
  "digits_of radix n s \<longleftrightarrow>
    s \<noteq> [] \<and> (\<forall>c\<in>set s. to_digit radix c \<noteq> None \<and> c \<noteq> CHR ''.'' \<and> c \<noteq> CHR '':'') \<and>
    foldl (\<lambda>acc c. acc * radix + digit_value radix c) 0 s = n \<and>
    (hd s = CHR ''0'' \<longrightarrow> length s = 1) \<and> (\<forall>k. n < radix ^ Suc k \<longrightarrow> length s \<le> Suc k)"

lemma digits_length: "digits_of radix n s \<Longrightarrow> n < radix ^ Suc k \<Longrightarrow> length s \<le> Suc k"
  by (simp add: digits_of_def)

lemma digits_of_snoc:
  assumes "digits_of radix m s" and "0 < m" and "to_digit radix c = Some d" and "c \<noteq> CHR ''.''" and "c \<noteq> CHR '':''"
    and "hd s \<noteq> CHR ''0''" and "n = m * radix + d" and "d < radix"
  shows "digits_of radix n (s @ [c])"
proof -
  have "length s \<le> k" if n: "n < radix ^ Suc k" for k
  proof -
    have "m * radix \<le> n" using assms(7) by simp
    then have "m * radix < radix ^ k * radix" using n by (simp only: power_Suc2)
    then have m: "m < radix ^ k" by simp
    with assms(2) obtain j where "k = Suc j" by (cases k) auto
    with m assms(1) show ?thesis by (simp add: digits_of_def)
  qed
  with assms show ?thesis by (auto simp: digits_of_def digit_value_def hd_append)
qed

lemma decimal_text: "digits_of 10 n (nat_to_string n) \<and> (0 < n \<longrightarrow> hd (nat_to_string n) \<noteq> CHR ''0'')"
proof (induction n rule: less_induct)
  case (less n)
  show ?case
  proof (cases "n < 10")
    case True
    have "0 < n \<longrightarrow> digit_char n \<noteq> CHR ''0''"
      using to_digit_decimal [OF True] zero_digit by (metis less_irrefl option.inject)
    with True to_digit_decimal [OF True] show ?thesis
      by (simp add: nat_to_string.simps [of n] digits_of_def digit_value_def)
  next
    case False
    then have ih: "digits_of 10 (n div 10) (nat_to_string (n div 10))" "hd (nat_to_string (n div 10)) \<noteq> CHR ''0''"
      using less.IH [of "n div 10"] by auto
    have "digits_of 10 n (nat_to_string (n div 10) @ [digit_char (n mod 10)])"
      using to_digit_decimal [of "n mod 10"] False by (intro digits_of_snoc [OF ih(1)]) (auto simp: ih(2))
    moreover have "nat_to_string (n div 10) \<noteq> []" using ih(1) by (simp add: digits_of_def)
    ultimately show ?thesis using False ih(2) by (simp add: nat_to_string.simps [of n])
  qed
qed

lemma hex_text: "digits_of 16 n (hex_string n) \<and> (0 < n \<longrightarrow> hd (hex_string n) \<noteq> CHR ''0'')"
proof (induction n rule: less_induct)
  case (less n)
  show ?case
  proof (cases "n < 16")
    case True
    have "0 < n \<longrightarrow> ''0123456789abcdef'' ! n \<noteq> CHR ''0''"
      using to_digit_hex [OF True] zero_digit by (metis less_irrefl option.inject)
    with True to_digit_hex [OF True] show ?thesis
      by (simp add: hex_string.simps [of n] digits_of_def digit_value_def)
  next
    case False
    then have ih: "digits_of 16 (n div 16) (hex_string (n div 16))" "hd (hex_string (n div 16)) \<noteq> CHR ''0''"
      using less.IH [of "n div 16"] by auto
    have "digits_of 16 n (hex_string (n div 16) @ [''0123456789abcdef'' ! (n mod 16)])"
      using to_digit_hex [of "n mod 16"] False by (intro digits_of_snoc [OF ih(1)]) (auto simp: ih(2))
    moreover have "hex_string (n div 16) \<noteq> []" using ih(1) by (simp add: digits_of_def)
    ultimately show ?thesis using False ih(2) by (simp add: hex_string.simps [of n])
  qed
qed

definition stops :: "nat \<Rightarrow> string \<Rightarrow> bool" where
  "stops radix rest \<longleftrightarrow> (case rest of [] \<Rightarrow> True | c # _ \<Rightarrow> to_digit radix c = None)"

lemma read_number_text:
  assumes "digits_of radix n s" and "stops radix rest" and "n < bound" and "length s \<le> limit"
  shows "read_number radix limit zero bound (s @ rest) = Some (n, rest)"
proof -
  have "takeWhile (\<lambda>c. to_digit radix c \<noteq> None) (s @ rest) = s"
    using assms(1,2) by (cases rest) (auto simp: digits_of_def stops_def takeWhile_append2)
  with assms show ?thesis by (auto simp: read_number_def Let_def digits_of_def)
qed

lemma stops_simps [simp]: "stops radix []" "stops 10 (CHR ''.'' # s)" "stops 16 (CHR '':'' # s)" "stops 10 (CHR '':'' # s)"
  by (simp_all add: stops_def to_digit_def byte_of_char_def)

lemma read_octet:
  "stops 10 rest \<Longrightarrow> read_number 10 3 False 256 (nat_to_string (unat (b :: u8)) @ rest) = Some (unat b, rest)"
proof -
  assume "stops 10 rest"
  moreover have lt: "unat b < 256" using unsigned_less [of b, where 'a = nat] by simp
  have "unat b < 1000" by (rule less_trans [OF lt]) simp
  then have "length (nat_to_string (unat b)) \<le> 3"
    using digits_length [of 10 "unat b" _ 2] decimal_text [of "unat b"] by simp
  ultimately show ?thesis using decimal_text [of "unat b"] lt by (intro read_number_text) auto
qed

lemma read_group:
  "n < 65536 \<Longrightarrow> stops 16 rest \<Longrightarrow> read_number 16 4 True 65536 (hex_string n @ rest) = Some (n, rest)"
proof -
  assume n: "n < 65536" and rest: "stops 16 rest"
  have "length (hex_string n) \<le> 4"
    using digits_length [of 16 n _ 3] hex_text [of n] n by simp
  with hex_text [of n] n rest show ?thesis by (intro read_number_text) auto
qed

section \<open>IPv4\<close>

lemma read_octets_first:
  "stops 10 rest \<Longrightarrow> read_octets 0 (Suc n) (nat_to_string (unat b) @ rest) =
    map_option (\<lambda>(vs, r). (b # vs, r)) (read_octets 1 n rest)"
  by (simp add: read_separator_def read_octet split: option.splits)

lemma read_octets_next:
  "stops 10 rest \<Longrightarrow> read_octets (Suc i) (Suc n) (CHR ''.'' # nat_to_string (unat b) @ rest) =
    map_option (\<lambda>(vs, r). (b # vs, r)) (read_octets (Suc (Suc i)) n rest)"
  by (simp add: read_separator_def read_given_char_def read_octet split: option.splits)

lemma octets_obtain:
  obtains o1 o2 o3 o4 where "ipv4_octets a = [o1, o2, o3, o4]"
proof -
  have "length (ipv4_octets a) = Suc (Suc (Suc (Suc 0)))" by simp
  then show ?thesis using that unfolding length_Suc_conv by auto
qed

lemma read_ipv4_text:
  assumes "stops 10 rest"
  shows "read_ipv4_addr (show_ipv4 a @ rest) = Some (ipv4_octets a, rest)"
proof -
  obtain o1 o2 o3 o4 where o: "ipv4_octets a = [o1, o2, o3, o4]" using octets_obtain .
  have four: "(4::nat) = Suc (Suc (Suc (Suc 0)))" by simp
  let ?n = "\<lambda>b :: u8. nat_to_string (unat b)"
  have shown: "show_ipv4 a @ rest = ?n o1 @ CHR ''.'' # ?n o2 @ CHR ''.'' # ?n o3 @ CHR ''.'' # ?n o4 @ rest"
    by (simp add: show_ipv4_def o)
  show ?thesis
    unfolding read_ipv4_addr_def shown four o
    using assms by (simp only: read_octets_first read_octets_next stops_simps One_nat_def) simp
qed

lemma parse_ip_v4: "parse_ip (show_ipv4 a) = Some (V4 a)"
  using read_ipv4_text [of "[]" a] by (simp add: parse_ip_def)

section \<open>Groups of IPv6\<close>

fun groups_of :: "nat \<Rightarrow> nat \<Rightarrow> nat list" where
  "groups_of 0 v = []"
| "groups_of (Suc k) v = groups_of k (v div 65536) @ [v mod 65536]"

lemma length_groups [simp]: "length (groups_of k v) = k"
  by (induction k arbitrary: v) auto

lemma groups_small: "g \<in> set (groups_of k v) \<Longrightarrow> g < 65536"
  by (induction k arbitrary: v) auto

lemma groups_of_map: "groups_of k v = map (\<lambda>i. v div 65536 ^ (k - 1 - i) mod 65536) [0..<k]"
proof (induction k arbitrary: v)
  case (Suc k)
  have "v div 65536 div 65536 ^ (k - 1 - i) = v div 65536 ^ (k - i)" if "i < k" for i
  proof -
    have "k - i = Suc (k - 1 - i)" using that by simp
    then have "65536 * 65536 ^ (k - 1 - i) = (65536 :: nat) ^ (k - i)" by (simp only: power_Suc)
    then show ?thesis by (simp only: div_mult2_eq [symmetric])
  qed
  with Suc.IH show ?case by simp
qed simp

lemma ipv6_groups_eq: "ipv6_groups a = groups_of 8 (unat a)"
proof -
  have "(65536 :: nat) ^ (8 - 1 - i) = 2 ^ (112 - 16 * i)" for i
  proof -
    have "(65536 :: nat) ^ (8 - 1 - i) = (2 ^ 16) ^ (7 - i)" by simp
    also have "\<dots> = 2 ^ (112 - 16 * i)" by (simp only: power_mult [symmetric] diff_mult_distrib2) simp
    finally show ?thesis .
  qed
  then show ?thesis by (simp only: ipv6_groups_def groups_of_map)
qed

lemma group_bytes: "to_be_bytes (word_of_nat (v mod 65536) :: u16) = [word_of_nat (v div 256), word_of_nat v]"
proof -
  have "v mod 65536 = 256 * (v div 256 mod 256) + v mod 256" using mod_mult2_eq [of v 256 256] by simp
  then have "v mod 65536 div 256 mod 256 = v div 256 mod 256" "v mod 65536 mod 256 = v mod 256" by simp_all
  then have "(word_of_nat (v mod 65536 div 256) :: u8) = word_of_nat (v div 256)"
      "(word_of_nat (v mod 65536) :: u8) = word_of_nat v"
    by (simp_all add: word_unat_eq_iff unat_of_nat)
  moreover have "unat (word_of_nat (v mod 65536) :: u16) = v mod 65536" by (simp add: unat_of_nat)
  ultimately show ?thesis by (simp add: to_be_bytes_def numeral_2_eq_2)
qed

lemma groups_bytes: "concat (map (\<lambda>g. to_be_bytes (word_of_nat g :: u16)) (groups_of k v)) = be_bytes (2 * k) v"
proof (induction k arbitrary: v)
  case (Suc k)
  have "v div 65536 = v div 256 div 256" using div_mult2_eq [of v 256 256] by simp
  with Suc.IH show ?case by (simp add: group_bytes)
qed simp

lemma be_bytes_mod: "be_bytes n (v mod 256 ^ n) = be_bytes n v"
  using be_bytes_be_val [of "be_bytes n v"] by (simp add: be_val_be_bytes)

lemma be_bytes_add: "be_bytes (m + n) v = be_bytes m (v div 256 ^ n) @ be_bytes n v"
  by (induction n arbitrary: v) (simp_all add: div_mult2_eq)

lemma groups_addr_groups: "groups_addr (map word_of_nat (ipv6_groups a)) = a"
proof -
  have "concat (map to_be_bytes (map word_of_nat (ipv6_groups a) :: u16 list)) = to_be_bytes a"
    using groups_bytes [of 8 "unat a"] by (simp add: ipv6_groups_eq to_be_bytes_def comp_def)
  then show ?thesis by (simp only: groups_addr_def) simp
qed

text \<open>The last two groups are the octets of the embedded IPv4 address.\<close>

lemma groups_addr_embedded:
  "groups_addr (map word_of_nat (take 6 (ipv6_groups a)) @
    [from_be_bytes (take 2 (ipv4_octets (ucast a))), from_be_bytes (drop 2 (ipv4_octets (ucast a)))]) = a"
proof -
  let ?bytes = "\<lambda>gs. concat (map (\<lambda>g. to_be_bytes (word_of_nat g :: u16)) gs)"
  let ?gs = "groups_of 8 (unat a)" and ?o = "ipv4_octets (ucast a)"
  have "length (?bytes gs) = 2 * length gs" for gs :: "nat list" by (induction gs) auto
  then have len: "length (?bytes (take 6 ?gs)) = 12" by simp
  have "?bytes (take 6 ?gs) @ ?bytes (drop 6 ?gs) = ?bytes ?gs"
    by (simp only: map_append [symmetric] concat_append [symmetric] append_take_drop_id)
  also have "\<dots> = be_bytes 12 (unat a div 256 ^ 4) @ be_bytes 4 (unat a)"
    using groups_bytes [of 8 "unat a"] be_bytes_add [of 12 4 "unat a"] by simp
  finally have first: "?bytes (take 6 ?gs) = be_bytes 12 (unat a div 256 ^ 4)" using len by simp
  have "unat (ucast a :: u32) = unat a mod 256 ^ 4" by (simp add: unsigned_ucast_eq take_bit_eq_mod)
  then have "?o = be_bytes 4 (unat a)"
    using be_bytes_mod [of 4 "unat a"] by (simp add: ipv4_octets_def to_be_bytes_def)
  moreover have "to_be_bytes (from_be_bytes (take 2 ?o) :: u16) @ to_be_bytes (from_be_bytes (drop 2 ?o) :: u16) = ?o"
    by (simp add: to_from_be_bytes)
  ultimately have "concat (map to_be_bytes ((map word_of_nat (take 6 ?gs) :: u16 list) @
      [from_be_bytes (take 2 ?o), from_be_bytes (drop 2 ?o)])) = to_be_bytes a"
    using first be_bytes_add [of 12 4 "unat a"] by (simp add: to_be_bytes_def comp_def)
  then show ?thesis by (simp only: groups_addr_def ipv6_groups_eq) simp
qed

section \<open>Reading groups\<close>

lemma no_dot_octets: "CHR ''.'' \<notin> set s \<Longrightarrow> read_octets (Suc i) (Suc n) s = None"
  by (cases s) (auto simp: read_separator_def read_given_char_def)

lemma read_ipv4_first:
  "read_ipv4_addr s =
    (case read_number 10 3 False 256 s of
       None \<Rightarrow> None
     | Some (v, r) \<Rightarrow> map_option (\<lambda>(vs, r'). (word_of_nat v # vs, r')) (read_octets (Suc 0) (Suc (Suc (Suc 0))) r))"
proof -
  have four: "(4::nat) = Suc (Suc (Suc (Suc 0)))" by simp
  show ?thesis
    unfolding read_ipv4_addr_def four read_octets.simps(2) [of 0] by (simp add: read_separator_def split: option.splits)
qed

lemma no_dot_ipv4: "CHR ''.'' \<notin> set s \<Longrightarrow> read_ipv4_addr s = None"
proof -
  assume s: "CHR ''.'' \<notin> set s"
  have "read_octets (Suc 0) (Suc (Suc (Suc 0))) r = None" if "read_number 10 3 False 256 s = Some (v, r)" for v r
  proof -
    from that obtain k where "r = drop k s" by (auto simp: read_number_def Let_def split: if_splits)
    with s have "CHR ''.'' \<notin> set r" by (meson in_set_dropD)
    then show ?thesis by (rule no_dot_octets)
  qed
  then show ?thesis by (auto simp: read_ipv4_first simp del: read_octets.simps split: option.split)
qed

lemma colon_digit: "to_digit 10 CHR '':'' = None" "to_digit 16 CHR '':'' = None"
  by (simp_all add: to_digit_def byte_of_char_def)

lemma colon_first:
  "read_ipv4_addr (CHR '':'' # s) = None" "read_number 16 l z b (CHR '':'' # s) = None" "read_number radix l z b [] = None"
  by (simp_all add: read_ipv4_first read_number_def colon_digit)

definition sep_groups :: "nat list \<Rightarrow> string" where
  "sep_groups gs = concat (map (\<lambda>g. CHR '':'' # hex_string g) gs)"

lemma sep_groups_Nil [simp]: "sep_groups [] = []"
  by (simp add: sep_groups_def)

lemma show_groups_Cons: "show_groups (g # gs) = hex_string g @ sep_groups gs"
  by (induction gs arbitrary: g) (simp_all add: show_groups_def sep_groups_def)

lemma no_dot_groups: "CHR ''.'' \<notin> set (sep_groups gs)" "CHR ''.'' \<notin> set (hex_string n)" "CHR ''.'' \<notin> set (show_groups gs)"
proof -
  show hex: "CHR ''.'' \<notin> set (hex_string n)" for n using hex_text [of n] by (auto simp: digits_of_def)
  then show sep: "CHR ''.'' \<notin> set (sep_groups gs)" for gs by (auto simp: sep_groups_def)
  show "CHR ''.'' \<notin> set (show_groups gs)"
    by (cases gs) (auto simp: show_groups_Cons hex sep, simp add: show_groups_def)
qed

definition ends :: "string \<Rightarrow> bool" where
  "ends rest \<longleftrightarrow> CHR ''.'' \<notin> set rest \<and> (rest = [] \<or> (\<exists>t. rest = CHR '':'' # CHR '':'' # t))"

lemma ends_stops: "ends rest \<Longrightarrow> stops 16 (sep_groups gs @ rest)"
  by (cases gs) (auto simp: ends_def sep_groups_def)

lemma read_groups_end: "ends rest \<Longrightarrow> read_groups i n rest = ([], False, rest)"
  by (cases n) (auto simp: ends_def read_separator_def read_given_char_def colon_first no_dot_ipv4)

lemma read_groups_sep:
  assumes "ends rest"
  shows "\<forall>g\<in>set gs. g < 65536 \<Longrightarrow> length gs \<le> n \<Longrightarrow>
    read_groups (Suc i) n (sep_groups gs @ rest) = (map word_of_nat gs, False, rest)"
proof (induction gs arbitrary: i n)
  case Nil
  then show ?case using read_groups_end [OF assms] by (simp add: sep_groups_def)
next
  case (Cons g gs)
  obtain m where n: "n = Suc m" using Cons.prems(2) by (cases n) auto
  have s: "sep_groups (g # gs) @ rest = CHR '':'' # hex_string g @ sep_groups gs @ rest" by (simp add: sep_groups_def)
  have "read_ipv4_addr (hex_string g @ sep_groups gs @ rest) = None"
    using assms no_dot_groups by (intro no_dot_ipv4) (auto simp: ends_def)
  moreover have "read_number 16 4 True 65536 (hex_string g @ sep_groups gs @ rest) = Some (g, sep_groups gs @ rest)"
    using Cons.prems(1) ends_stops [OF assms] by (intro read_group) simp_all
  ultimately show ?case
    using Cons.IH [of m "Suc i"] Cons.prems unfolding s n by (auto simp: read_separator_def read_given_char_def)
qed

lemma read_groups_text:
  assumes "ends rest" and "\<forall>g\<in>set gs. g < 65536" and "length gs \<le> n"
  shows "read_groups 0 n (show_groups gs @ rest) = (map word_of_nat gs, False, rest)"
proof (cases gs)
  case Nil
  then show ?thesis using read_groups_end [OF assms(1)] by (simp add: show_groups_def)
next
  case (Cons g rs)
  then obtain m where n: "n = Suc m" using assms(3) by (cases n) auto
  have "read_ipv4_addr (hex_string g @ sep_groups rs @ rest) = None"
    using assms(1) no_dot_groups by (intro no_dot_ipv4) (auto simp: ends_def)
  moreover have "read_number 16 4 True 65536 (hex_string g @ sep_groups rs @ rest) = Some (g, sep_groups rs @ rest)"
    using assms(2) Cons ends_stops [OF assms(1)] by (intro read_group) simp_all
  ultimately show ?thesis
    using read_groups_sep [OF assms(1), of rs m 0] assms(2,3) Cons n by (auto simp: show_groups_Cons read_separator_def)
qed

section \<open>The longest run of zeros\<close>

definition zero_run :: "nat list \<Rightarrow> nat \<times> nat \<Rightarrow> bool" where
  "zero_run gs r \<longleftrightarrow> fst r + snd r \<le> length gs \<and> (\<forall>j. fst r \<le> j \<and> j < fst r + snd r \<longrightarrow> gs ! j = 0)"

lemma longest_zeros_run:
  assumes "xs = drop i gs" and "i \<le> length gs" and "zero_run gs longest"
    and "snd current = 0 \<or> zero_run gs current \<and> fst current + snd current = i"
  shows "zero_run gs (longest_zeros i xs current longest)"
  using assms
proof (induction xs arbitrary: i current longest)
  case (Cons x xs)
  from Cons.prems(1) have x: "x = gs ! i" "xs = drop (Suc i) gs" "i < length gs"
    by (metis drop_eq_Nil list.distinct(1) not_le_imp_less Cons_nth_drop_Suc list.inject)+
  show ?case
  proof (cases "x = 0")
    case True
    let ?c = "(if snd current = 0 then i else fst current, snd current + 1)"
    have "zero_run gs ?c \<and> fst ?c + snd ?c = i + 1"
      using Cons.prems(4) x True by (auto simp: zero_run_def less_Suc_eq)
    with Cons.IH [of "i + 1" "if snd ?c > snd longest then ?c else longest" ?c] Cons.prems(3) x
    have "zero_run gs (longest_zeros (i + 1) xs ?c (if snd ?c > snd longest then ?c else longest))" by simp
    with True show ?thesis by (simp only: longest_zeros.simps Let_def if_True simp_thms)
  next
    case False
    with Cons.IH [of "i + 1" longest "(0, 0)"] Cons.prems(3) x show ?thesis by simp
  qed
qed simp

lemma zero_run_split: "zero_run gs (s, l) \<Longrightarrow> gs = take s gs @ replicate l 0 @ drop (s + l) gs"
  by (rule nth_equalityI) (auto simp: zero_run_def nth_append)

section \<open>Addresses read back\<close>

lemma read_mapped:
  assumes "take 6 (ipv6_groups a) = [0, 0, 0, 0, 0, 65535]"
  shows "read_ipv6_addr (''::ffff:'' @ show_ipv4 (ucast a)) = Some (a, [])"
proof -
  let ?o = "ipv4_octets (ucast a)"
  let ?tail = "[65535, from_be_bytes (take 2 ?o), from_be_bytes (drop 2 ?o)] :: u16 list"
  have f: "hex_string 65535 = ''ffff''"
    by (simp add: hex_string.simps [of 65535] hex_string.simps [of 4095] hex_string.simps [of 255] hex_string.simps [of 15])
  have "to_digit 10 CHR ''f'' = None" by (simp add: to_digit_def byte_of_char_def)
  then have "read_ipv4_addr (''ffff:'' @ show_ipv4 (ucast a)) = None"
    by (simp add: read_ipv4_first read_number_def)
  moreover have "read_number 16 4 True 65536 (''ffff:'' @ show_ipv4 (ucast a)) = Some (65535, CHR '':'' # show_ipv4 (ucast a))"
    using read_group [of 65535 "CHR '':'' # show_ipv4 (ucast a)"] by (simp add: f)
  moreover have "read_ipv4_addr (show_ipv4 (ucast a)) = Some (?o, [])" using read_ipv4_text [of "[]" "ucast a"] by simp
  ultimately have tail: "read_groups 0 (Suc (Suc n)) (''ffff:'' @ show_ipv4 (ucast a)) = (?tail, True, [])" if "0 < n" for n
    using that by (cases n) (simp_all add: read_separator_def read_given_char_def)
  have head: "read_groups 0 (Suc n) (CHR '':'' # s) = ([], False, CHR '':'' # s)" for n s
    by (simp add: read_separator_def colon_first)
  have five: "replicate 5 0 = [0, 0, 0, 0, 0 :: u16]" by (simp add: numeral_eq_Suc)
  have "replicate 5 0 @ ?tail =
      map word_of_nat (take 6 (ipv6_groups a)) @ [from_be_bytes (take 2 ?o), from_be_bytes (drop 2 ?o)]"
    unfolding assms five by simp
  then have addr: "groups_addr (replicate 5 0 @ ?tail) = a" by (simp only: groups_addr_embedded)
  have seven: "read_groups 0 7 (''ffff:'' @ show_ipv4 (ucast a)) = (?tail, True, [])" 
    using tail [of 5] by (simp del: read_groups.simps)
  have eight: "read_groups 0 8 (''::ffff:'' @ show_ipv4 (ucast a)) = ([], False, ''::ffff:'' @ show_ipv4 (ucast a))"
    using head [of 7] by (simp del: read_groups.simps)
  show ?thesis
    unfolding read_ipv6_addr_def eight using seven addr by (simp add: read_given_char_def)
qed

lemma read_ipv6_text: "read_ipv6_addr (show_ipv6 a) = Some (a, [])"
proof -
  define gs where "gs = ipv6_groups a"
  obtain start len where z: "longest_zeros 0 gs (0, 0) (0, 0) = (start, len)" by fastforce
  have run: "zero_run gs (start, len)"
    using longest_zeros_run [of gs 0 gs "(0, 0)" "(0, 0)"] by (simp add: zero_run_def z)
  have l: "length gs = 8" by (simp add: gs_def ipv6_groups_eq)
  have small: "\<forall>g\<in>set gs. g < 65536" using groups_small by (auto simp: gs_def ipv6_groups_eq)
  consider (mapped) "take 6 gs = [0, 0, 0, 0, 0, 65535]" | (short) "take 6 gs \<noteq> [0, 0, 0, 0, 0, 65535]" "len > 1"
    | (full) "take 6 gs \<noteq> [0, 0, 0, 0, 0, 65535]" "\<not> len > 1" by blast
  then show ?thesis
  proof cases
    case mapped
    then show ?thesis using read_mapped [of a] z by (simp add: show_ipv6_def Let_def flip: gs_def)
  next
    case short
    let ?tail = "drop (start + len) gs"
    have bounds: "start + len \<le> 8" using run l by (simp add: zero_run_def)
    have ends: "ends (''::'' @ show_groups ?tail)" "ends []" using no_dot_groups by (auto simp: ends_def)
    have head: "read_groups 0 8 (show_groups (take start gs) @ ''::'' @ show_groups ?tail) =
        (map word_of_nat (take start gs), False, ''::'' @ show_groups ?tail)"
      using small l by (intro read_groups_text [OF ends(1)]) (auto dest: in_set_takeD)
    have "\<forall>g\<in>set ?tail. g < 65536" "length ?tail \<le> 8 - (start + 1)"
      using small l short(2) bounds by (auto dest: in_set_dropD)
    then have tail: "read_groups 0 (8 - (start + 1)) (show_groups ?tail) = (map word_of_nat ?tail, False, [])"
      using read_groups_text [OF ends(2), of ?tail "8 - (start + 1)"] by simp
    have "map word_of_nat (take start gs) @ replicate len 0 @ map word_of_nat ?tail = (map word_of_nat gs :: u16 list)"
      by (subst (3) zero_run_split [OF run]) simp
    then have "groups_addr (map word_of_nat (take start gs) @ replicate len 0 @ map word_of_nat ?tail) = a"
      using groups_addr_groups [of a] by (simp add: gs_def)
    then show ?thesis
      using short z head tail l bounds
      by (simp add: show_ipv6_def Let_def read_ipv6_addr_def read_given_char_def min_def flip: gs_def)
  next
    case full
    have "read_groups 0 8 (show_groups gs @ []) = (map word_of_nat gs, False, [])"
      using small l by (intro read_groups_text) (simp_all add: ends_def)
    then show ?thesis
      using full z l groups_addr_groups [of a]
      by (simp add: show_ipv6_def Let_def read_ipv6_addr_def flip: gs_def)
  qed
qed

lemma ipv6_not_ipv4: "read_ipv4_addr (show_ipv6 a) = None"
proof (cases "take 6 (ipv6_groups a) = [0, 0, 0, 0, 0, 65535]")
  case True
  then show ?thesis by (simp add: show_ipv6_def Let_def colon_first split: prod.split)
next
  case False
  then have "CHR ''.'' \<notin> set (show_ipv6 a)"
    using no_dot_groups by (auto simp: show_ipv6_def Let_def split: prod.splits if_splits)
  then show ?thesis by (rule no_dot_ipv4)
qed

lemma parse_ip_v6: "parse_ip (show_ipv6 a) = Some (V6 a)"
  by (simp add: parse_ip_def ipv6_not_ipv4 read_ipv6_text)

lemma parse_show_ip: "parse_ip (show_ip a) = Some a"
  by (cases a) (simp_all add: show_ip_def parse_ip_v4 parse_ip_v6)

end
