(* ===== verification/Spec2Isabelle.thy ===== *)
theory Spec2Isabelle
  imports Vless Dns_Resolver Xhttp_Sessions Xmux Web_Sample Srs Udp_Nat Route_Eval Tun_Redirect Ip_Roundtrip
begin

text \<open>
  Verification of xhttp-rs, a proxy in Rust: an XHTTP transport (client and server), VLESS, a DNS
  resolver, a rule-based router, and TUN and transparent-proxy inbounds. Paths below are relative to
  \<^verbatim>\<open>src/src/\<close>.

  \<^bold>\<open>How the parts interact.\<close> An inbound accepts a connection; the router (\<^verbatim>\<open>routing.rs\<close>, with rule sets
  read by \<^verbatim>\<open>srs.rs\<close>) chooses an outbound, asking the resolver (\<^verbatim>\<open>dns/\<close>) for addresses where a rule
  needs them; the outbound carries the stream, for VLESS over XHTTP as numbered HTTP requests
  (\<^verbatim>\<open>client.rs\<close>, over the client pools of \<^verbatim>\<open>xmux.rs\<close>) that the server (\<^verbatim>\<open>server.rs\<close>) puts in order and
  hands to its backend (\<^verbatim>\<open>vless.rs\<close>). UDP inbounds keep their flows in \<^verbatim>\<open>proxy/udp_nat.rs\<close>. A TUN
  inbound (\<^verbatim>\<open>tun.rs\<close>) leads the traffic of the host to the program by routes
  (\<^verbatim>\<open>tun_route_linux.rs\<close>) and nftables rules (\<^verbatim>\<open>tun_redirect_linux.rs\<close>), which are taken back at the end.

  \<^bold>\<open>Conventions.\<close> Operations are functions with explicit state. Fallible code returns \<open>'a result\<close>;
  \<open>Bail\<close> is an error, \<open>Panic\<close> a panic. Integers are words where they wrap. A hash map is an
  association list with distinct keys. Strings are lists of bytes read as characters. Third-party
  crates, files, clocks and random numbers are parameters, and what is assumed of them is a named
  hypothesis (\<open>web_laws\<close>, \<open>hpack_law\<close>, \<open>ip_lawful\<close> for the \<^verbatim>\<open>ip\<close> program, \<open>host_lawful\<close> for files and
  programs of the host); \<open>sample_web\<close>, \<open>set_kernel\<close> and \<open>map_host\<close> are instances that satisfy them.

  \<^bold>\<open>Theories.\<close>
  \<^item> \<^verbatim>\<open>Prelude\<close>, \<^verbatim>\<open>Byte_Codec\<close>, \<^verbatim>\<open>Rust_Text\<close>, \<^verbatim>\<open>Net_Addr\<close>, \<^verbatim>\<open>Ip_Text\<close>: results, hash maps, byte readers,
    the parts of the standard library the code uses, and \<^verbatim>\<open>util.rs\<close>.
  \<^item> \<^verbatim>\<open>Vless\<close> (\<^verbatim>\<open>vless.rs\<close>): handshake and XUDP codecs with round trips, authentication, bounded XUDP
    sessions, a transparent destination cache, UDP framing.
  \<^item> \<^verbatim>\<open>Dns_Wire\<close>, \<^verbatim>\<open>Dns_Message\<close>, \<^verbatim>\<open>Dns_Records\<close> (\<^verbatim>\<open>dns/message.rs\<close>): messages never panic, query and
    answer round trips, ageing of TTLs, records in text form.
  \<^item> \<^verbatim>\<open>Dns_Cache\<close>, \<^verbatim>\<open>Dns_Flight\<close> (\<^verbatim>\<open>dns/cache.rs\<close>): a bounded cache that serves fresh entries, LRU
    insertion, snapshot and restore; shared queries with every interleaving of callers.
  \<^item> \<^verbatim>\<open>Dns_Rules\<close>, \<^verbatim>\<open>Dns_Transport\<close>, \<^verbatim>\<open>Dns_Resolver\<close> (\<^verbatim>\<open>dns/\<close>, \<^verbatim>\<open>singbox.rs\<close>): validated rules compile,
    multiplexed answers belong to their query, the resolver answers the request it was asked.
  \<^item> \<^verbatim>\<open>Routing\<close>, \<^verbatim>\<open>Route_Engine\<close> (\<^verbatim>\<open>routing.rs\<close>): matching, compilation, lazy lookup equal to resolving
    first, scope of metadata, agreement of the DNS matcher.
  \<^item> \<^verbatim>\<open>Sniff\<close>, \<^verbatim>\<open>Route_Eval\<close> (\<^verbatim>\<open>proxy/route.rs\<close>): protocols and names read from the first bytes of a
    connection (a well-formed TLS client hello gives its server name); the evaluation loop over the
    rules with sniffing, resolution and route options, equal to resolving first.
  \<^item> \<^verbatim>\<open>Srs\<close> (\<^verbatim>\<open>srs.rs\<close>): the reader of binary rule sets; address ranges are split exactly.
  \<^item> \<^verbatim>\<open>Ip_Roundtrip\<close>: the text of an address reads back as that address.
  \<^item> \<^verbatim>\<open>Xhttp_Config\<close> (\<^verbatim>\<open>config.rs\<close>), \<^verbatim>\<open>Xhttp_Protocol\<close> (\<^verbatim>\<open>protocol.rs\<close>): validation; headers, cookies,
    padding, metadata and payload, each read back as written.
  \<^item> \<^verbatim>\<open>Xhttp_Server\<close>, \<^verbatim>\<open>Xhttp_Sessions\<close> (\<^verbatim>\<open>server.rs\<close>): dispatch; the reorder task refines a store of
    packets whose gapless prefix is written; the session table under every interleaving.
  \<^item> \<^verbatim>\<open>Xmux\<close> (\<^verbatim>\<open>xmux.rs\<close>): client pools and leases under every interleaving of critical sections.
  \<^item> \<^verbatim>\<open>Xhttp_Client\<close> (\<^verbatim>\<open>client.rs\<close>): the requests of the client, and that the server reads them back.
  \<^item> \<^verbatim>\<open>Udp_Nat\<close> (\<^verbatim>\<open>proxy/udp_nat.rs\<close>): a bounded NAT table with sound filtering.
  \<^item> \<^verbatim>\<open>Tun_Config\<close> (\<^verbatim>\<open>tun.rs\<close>), \<^verbatim>\<open>Tun_Routes\<close> (\<^verbatim>\<open>tun_route_linux.rs\<close>, \<^verbatim>\<open>linux_route.rs\<close>), \<^verbatim>\<open>Tun_Redirect\<close>
    (\<^verbatim>\<open>tun_redirect_linux.rs\<close>): the checked configuration of a TUN inbound; the plan of routes and rules,
    which every accepted configuration has, and its installation, replacement and removal, which leave
    the kernel as it was; the nftables script, and that forwarding settings are given back even after
    runs that were killed.
  \<^item> This theory: an upload from client to backend, and validated configurations.

  \<^bold>\<open>Bounds and fuel.\<close> Loops of the code are recursive functions with termination proofs; that of
  \<open>route_loop\<close> takes the rules that are left and whether the address is known: a turn passes a rule
  or finds the address. Where a
  recursion takes fuel it is enough: \<open>collect_keys\<close> gets the number of nodes, and a child is always a
  later node (\<open>collect_keys_fuel\<close>); \<open>srs_rule\<close> takes the room of the call stack, and \<open>srs_rule_depth\<close> shows that the length
  of the payload suffices; \<open>numbered_fuel\<close> counts the headers and cookies present. \<open>cidr_loop\<close> is
  partial, and \<open>range_to_cidrs_returns\<close> shows that it always returns. Interleavings are taken at the
  granularity of critical sections and awaits; the body of \<open>pick\<close> in \<^verbatim>\<open>xmux.rs\<close> is one step although
  it takes pool locks one after the other.

  \<^bold>\<open>Not modelled.\<close> Sockets, listeners, body streams and the tasks that copy between them
  (\<^verbatim>\<open>proxy/relay.rs\<close>, \<^verbatim>\<open>proxy/tproxy.rs\<close>, the device and packet tasks of \<^verbatim>\<open>tun.rs\<close>, parts of \<^verbatim>\<open>server.rs\<close>
  and \<^verbatim>\<open>client.rs\<close>) are I/O; TLS
  (\<^verbatim>\<open>tls.rs\<close>, \<^verbatim>\<open>anytls.rs\<close>) is third-party code apart from option parsing; \<^verbatim>\<open>main.rs\<close> and \<^verbatim>\<open>lib.rs\<close>
  only start the program. Pure code that could be modelled and is not yet: the SOCKS datagram codec
  (\<^verbatim>\<open>proxy/udp.rs\<close>), address ordering (\<^verbatim>\<open>proxy/direct.rs\<close>), the handshakes of \<^verbatim>\<open>proxy/inbound.rs\<close>,
  outbound groups (\<^verbatim>\<open>proxy/mod.rs\<close>), and the validation of inbounds and
  outbounds in \<^verbatim>\<open>singbox.rs\<close>. Memory exhaustion and clock skew are not modelled.
\<close>

section \<open>From the client to the backend\<close>



section \<open>Validated configurations\<close>



end
